(* ===== verification/Rust_Prelude.thy ===== *)
theory Rust_Prelude
  imports Main "HOL-Library.Word" "HOL-Library.Multiset"
begin

section \<open>Rust values, panics and vectors\<close>

text \<open>
  The vocabulary every component of the development shares.

  \<^item> Machine integers whose width matters are words (\<open>u8\<close> to \<open>u64\<close>). An integer the
    source uses only as an index, a slot number or a \<open>usize\<close> length is a \<open>nat\<close>.
  \<^item> A Rust function that can panic returns an \<open>outcome\<close>: \<open>Panic\<close> or \<open>Ret v\<close>.
    \<open>ensure\<close> is a check that is present in every build (buf_slice indexing, \<open>expect\<close>,
    \<open>assert!\<close>); \<open>debug_assert\<close> and the \<open>arith_\<close> operations panic only under the
    build profile argument \<open>dbg\<close>, which is true exactly when Cargo's dev profile has
    \<open>debug_assertions\<close> and \<open>overflow-checks\<close> on. In a release build the assertion is
    skipped and the arithmetic wraps, which is what the words do.
  \<^item> \<open>Vec\<close> and \<open>VecDeque\<close> are lists in storage order; \<open>vec_pop\<close> takes from the end.
\<close>

unbundle bit_operations_syntax

type_synonym u8 = "8 word"
type_synonym u16 = "16 word"
type_synonym u32 = "32 word"
type_synonym u64 = "64 word"
type_synonym bytes = "u8 list"
type_synonym profile = bool

named_theorems outcome_simps \<open>unfolding of panicking code\<close>

datatype 'a outcome = Panic | Ret 'a

definition ensure :: "bool \<Rightarrow> 'a outcome \<Rightarrow> 'a outcome" where
  "ensure b k = (if b then k else Panic)"

definition debug_assert :: "profile \<Rightarrow> bool \<Rightarrow> 'a outcome \<Rightarrow> 'a outcome" where
  "debug_assert dbg b k = (if dbg \<and> \<not> b then Panic else k)"

definition arith_add :: "profile \<Rightarrow> 'l::len word \<Rightarrow> 'l word \<Rightarrow> ('l word \<Rightarrow> 'a outcome) \<Rightarrow> 'a outcome" where
  "arith_add dbg a b k = (if dbg \<and> 2 ^ LENGTH('l) \<le> unat a + unat b then Panic else k (a + b))"

definition arith_sub :: "profile \<Rightarrow> 'l::len word \<Rightarrow> 'l word \<Rightarrow> ('l word \<Rightarrow> 'a outcome) \<Rightarrow> 'a outcome" where
  "arith_sub dbg a b k = (if dbg \<and> a < b then Panic else k (a - b))"

fun outcome_bind :: "'a outcome \<Rightarrow> ('a \<Rightarrow> 'b outcome) \<Rightarrow> 'b outcome" where
  "outcome_bind Panic f = Panic"
| "outcome_bind (Ret x) f = f x"

fun returns :: "'a outcome \<Rightarrow> bool" where
  "returns Panic = False"
| "returns (Ret x) = True"

lemma outcome_bind_Ret_iff: "outcome_bind m k = Ret y \<longleftrightarrow> (\<exists>x. m = Ret x \<and> k x = Ret y)"
  by (cases m) auto

lemma ensure_Ret_iff [simp]: "ensure b k = Ret x \<longleftrightarrow> b \<and> k = Ret x"
  by (simp add: ensure_def)

lemma ensure_True [simp]: "ensure True k = k"
  by (simp add: ensure_def)

lemma ensure_Panic_iff [simp]: "ensure b k = Panic \<longleftrightarrow> \<not> b \<or> k = Panic"
  by (simp add: ensure_def)

lemma debug_assert_True [simp]: "debug_assert dbg True k = k"
  by (simp add: debug_assert_def)

lemma debug_assert_release [simp]: "debug_assert False b k = k"
  by (simp add: debug_assert_def)

lemma debug_assert_Ret_iff [simp]: "debug_assert dbg b k = Ret x \<longleftrightarrow> (dbg \<longrightarrow> b) \<and> k = Ret x"
  by (auto simp: debug_assert_def)

lemma debug_assert_Panic_iff [simp]: "debug_assert dbg b k = Panic \<longleftrightarrow> (dbg \<and> \<not> b) \<or> k = Panic"
  by (auto simp: debug_assert_def)

lemma arith_add_fits:
  "unat a + unat b < 2 ^ LENGTH('l) \<Longrightarrow> arith_add dbg (a::'l::len word) b k = k (a + b)"
  by (simp add: arith_add_def)

lemma arith_sub_fits: "b \<le> a \<Longrightarrow> arith_sub dbg a b k = k (a - b)"
  by (auto simp: arith_sub_def)

lemma returns_iff: "returns r \<longleftrightarrow> (\<exists>x. r = Ret x)"
  by (cases r) auto

lemmas [outcome_simps] = ensure_def debug_assert_def arith_add_def arith_sub_def

subsection \<open>Word arithmetic that does not wrap\<close>

lemma unat_add_fits:
  "unat a + unat b < 2 ^ LENGTH('l) \<Longrightarrow> unat (a + b) = unat (a::'l::len word) + unat b"
  by (simp add: unat_word_ariths)

lemma unat_sub_fits: "b \<le> a \<Longrightarrow> unat (a - b) = unat (a::'l::len word) - unat b"
  by (simp add: unat_sub)

lemma unat_of_nat_fits: "n < 2 ^ LENGTH('l) \<Longrightarrow> unat (of_nat n :: 'l::len word) = n"
  by (simp add: unat_of_nat take_bit_nat_eq_self)

lemma of_nat_word_eq_0:
  assumes "k < 2 ^ LENGTH('l)"
  shows "(of_nat k :: 'l::len word) = 0 \<longleftrightarrow> k = 0"
proof
  assume "(of_nat k :: 'l word) = 0"
  then have "unat (of_nat k :: 'l word) = 0" by simp
  then show "k = 0" by (simp only: unat_of_nat_fits [OF assms])
qed simp

lemma arith_add_of_nat:
  assumes "a + b < 2 ^ LENGTH('l)"
  shows "arith_add dbg (of_nat a :: 'l::len word) (of_nat b) k = k (of_nat (a + b))"
proof -
  have "unat (of_nat a :: 'l word) = a" "unat (of_nat b :: 'l word) = b"
    using assms by (auto intro: unat_of_nat_fits)
  then have "\<not> 2 ^ LENGTH('l) \<le> unat (of_nat a :: 'l word) + unat (of_nat b :: 'l word)"
    using assms by linarith
  then show ?thesis unfolding arith_add_def by (simp only: of_nat_add simp_thms if_False)
qed

lemma arith_add_one: "Suc a < 2 ^ LENGTH('l) \<Longrightarrow> arith_add dbg (of_nat a :: 'l::len word) 1 k = k (of_nat (Suc a))"
  using arith_add_of_nat [of a 1 dbg k] by (simp only: of_nat_1 Suc_eq_plus1)

lemma of_nat_word_less_iff:
  assumes "a < 2 ^ LENGTH('l)" "b < 2 ^ LENGTH('l)"
  shows "(of_nat a :: 'l::len word) < of_nat b \<longleftrightarrow> a < b"
  using assms by (simp only: word_less_nat_alt unat_of_nat_fits)

lemma of_nat_word_eq_iff:
  assumes "a < 2 ^ LENGTH('l)" "b < 2 ^ LENGTH('l)"
  shows "(of_nat a :: 'l::len word) = of_nat b \<longleftrightarrow> a = b"
proof
  assume "(of_nat a :: 'l word) = of_nat b"
  then have "unat (of_nat a :: 'l word) = unat (of_nat b :: 'l word)" by (rule arg_cong)
  then show "a = b" using assms by (simp only: unat_of_nat_fits)
qed (simp only:)

lemma arith_sub_of_nat:
  assumes "b \<le> a" "a < 2 ^ LENGTH('l)"
  shows "arith_sub dbg (of_nat a :: 'l::len word) (of_nat b) k = k (of_nat (a - b))"
proof -
  have "\<not> (of_nat a :: 'l word) < of_nat b"
    using assms by (simp add: of_nat_word_less_iff)
  moreover have "(of_nat a :: 'l word) - of_nat b = of_nat (a - b)"
    using assms(1) by (rule of_nat_diff [symmetric])
  ultimately show ?thesis unfolding arith_sub_def by (simp only: simp_thms if_False)
qed

lemma arith_sub_one:
  "0 < a \<Longrightarrow> a < 2 ^ LENGTH('l) \<Longrightarrow> arith_sub dbg (of_nat a :: 'l::len word) 1 k = k (of_nat (a - 1))"
  using arith_sub_of_nat [of 1 a dbg k] by (simp only: of_nat_1)

subsection \<open>Unsigned integers of width w as natural numbers\<close>

text \<open>
  Where a component counts bytes or slots, its \<open>u32\<close> and \<open>usize\<close> values are natural numbers
  and the width is an argument of the operation: checked in a debug build, reduced modulo
  \<open>2 ^ w\<close> in a release build. \<open>usize\<close> is 64 bits wide.
\<close>

definition uint_add :: "nat \<Rightarrow> profile \<Rightarrow> nat \<Rightarrow> nat \<Rightarrow> (nat \<Rightarrow> 'a outcome) \<Rightarrow> 'a outcome" where
  "uint_add w dbg a b k =
     (if a + b < 2 ^ w then k (a + b) else if dbg then Panic else k ((a + b) mod 2 ^ w))"

definition uint_sub :: "nat \<Rightarrow> profile \<Rightarrow> nat \<Rightarrow> nat \<Rightarrow> (nat \<Rightarrow> 'a outcome) \<Rightarrow> 'a outcome" where
  "uint_sub w dbg a b k =
     (if b \<le> a then k (a - b) else if dbg then Panic else k ((2 ^ w + a - b) mod 2 ^ w))"

definition cast_uint :: "nat \<Rightarrow> nat \<Rightarrow> nat" where
  "cast_uint w n = n mod 2 ^ w"

lemma uint_add_fits: "a + b < 2 ^ w \<Longrightarrow> uint_add w dbg a b k = k (a + b)"
  by (simp add: uint_add_def)

lemma uint_sub_fits [simp]: "b \<le> a \<Longrightarrow> uint_sub w dbg a b k = k (a - b)"
  by (simp add: uint_sub_def)

lemma cast_uint_fits: "n < 2 ^ w \<Longrightarrow> cast_uint w n = n"
  by (simp add: cast_uint_def)

lemmas [outcome_simps] = uint_add_def uint_sub_def

lemma option_eqI: "(\<And>x. a = Some x \<longleftrightarrow> b = Some x) \<Longrightarrow> a = b"
  by (cases a; cases b) auto

subsection \<open>Vectors as stacks\<close>

definition vec_pop :: "'a list \<Rightarrow> ('a \<times> 'a list) option" where
  "vec_pop xs = (if xs = [] then None else Some (last xs, butlast xs))"

definition vec_push :: "'a list \<Rightarrow> 'a \<Rightarrow> 'a list" where
  "vec_push xs x = xs @ [x]"

lemma vec_pop_None_iff [simp]: "vec_pop xs = None \<longleftrightarrow> xs = []"
  by (simp add: vec_pop_def)

lemma vec_pop_Nil [simp]: "vec_pop [] = None"
  by simp

lemma vec_pop_Some_iff: "vec_pop xs = Some (x, ys) \<longleftrightarrow> xs = ys @ [x]"
  by (auto simp: vec_pop_def split: if_splits)

lemma vec_pop_push [simp]: "vec_pop (vec_push xs x) = Some (x, xs)"
  by (simp add: vec_pop_Some_iff vec_push_def)

lemma vec_pop_nonempty: "xs \<noteq> [] \<Longrightarrow> \<exists>x ys. vec_pop xs = Some (x, ys)"
  by (simp add: vec_pop_def)

lemma set_vec_push [simp]: "set (vec_push xs x) = insert x (set xs)"
  by (simp add: vec_push_def)

lemma length_vec_push [simp]: "length (vec_push xs x) = Suc (length xs)"
  by (simp add: vec_push_def)

lemma distinct_vec_push [simp]: "distinct (vec_push xs x) \<longleftrightarrow> x \<notin> set xs \<and> distinct xs"
  by (auto simp: vec_push_def)

subsection \<open>Searching and removing\<close>

text \<open>\<open>Iterator::position\<close>, \<open>Vec::remove\<close> and \<open>Vec::swap_remove\<close> (the last element takes the hole).\<close>

fun vec_position :: "('a \<Rightarrow> bool) \<Rightarrow> 'a list \<Rightarrow> nat option" where
  "vec_position P [] = None"
| "vec_position P (x # xs) = (if P x then Some 0 else map_option Suc (vec_position P xs))"

definition vec_remove :: "nat \<Rightarrow> 'a list \<Rightarrow> 'a list" where
  "vec_remove i xs = take i xs @ drop (Suc i) xs"

definition vec_swap_remove :: "nat \<Rightarrow> 'a list \<Rightarrow> 'a list" where
  "vec_swap_remove i xs = butlast (xs[i := last xs])"

lemma vec_position_None_iff: "vec_position P xs = None \<longleftrightarrow> (\<forall>x \<in> set xs. \<not> P x)"
  by (induction xs) auto

lemma vec_position_SomeD:
  assumes "vec_position P xs = Some i"
  shows "\<exists>ys x zs. xs = ys @ x # zs \<and> i = length ys \<and> P x \<and> (\<forall>y \<in> set ys. \<not> P y)"
  using assms
proof (induction xs arbitrary: i)
  case (Cons a xs)
  show ?case
  proof (cases "P a")
    case True
    then show ?thesis using Cons.prems by (intro exI [of _ "[]"]) auto
  next
    case False
    then obtain j where j: "vec_position P xs = Some j" "i = Suc j"
      using Cons.prems by auto
    then obtain ys x zs where "xs = ys @ x # zs" "j = length ys" "P x" "\<forall>y \<in> set ys. \<not> P y"
      using Cons.IH by blast
    then show ?thesis using False j(2) by (intro exI [of _ "a # ys"]) auto
  qed
qed simp

lemma vec_position_bound: "vec_position P xs = Some i \<Longrightarrow> i < length xs \<and> P (xs ! i)"
  by (auto dest: vec_position_SomeD)

lemma vec_remove_split [simp]: "vec_remove (length ys) (ys @ x # zs) = ys @ zs"
  by (simp add: vec_remove_def)

lemma mset_vec_swap_remove [simp]: "mset (vec_swap_remove (length ys) (ys @ x # zs)) = mset (ys @ zs)"
proof (cases zs rule: rev_cases)
  case (snoc as a)
  then show ?thesis by (simp add: vec_swap_remove_def butlast_append)
qed (simp add: vec_swap_remove_def butlast_append)

lemma length_vec_swap_remove [simp]: "i < length xs \<Longrightarrow> length (vec_swap_remove i xs) = length xs - 1"
  by (simp add: vec_swap_remove_def)

lemma set_vec_swap_remove [simp]: "set (vec_swap_remove (length ys) (ys @ x # zs)) = set (ys @ zs)"
  by (metis mset_vec_swap_remove set_mset_mset)

lemma distinct_vec_swap_remove [simp]:
  "distinct (map f (vec_swap_remove (length ys) (ys @ x # zs))) \<longleftrightarrow> distinct (map f (ys @ zs))"
  by (metis distinct_count_atmost_1 mset_map mset_vec_swap_remove set_mset_mset)

subsection \<open>Lists as byte buffers\<close>

definition buf_slice :: "nat \<Rightarrow> nat \<Rightarrow> 'a list \<Rightarrow> 'a list" where
  "buf_slice off n xs = take n (drop off xs)"

definition buf_write :: "nat \<Rightarrow> 'a list \<Rightarrow> 'a list \<Rightarrow> 'a list" where
  "buf_write off ys xs = take off xs @ ys @ drop (off + length ys) xs"

lemma length_buf_write [simp]: "off + length ys \<le> length xs \<Longrightarrow> length (buf_write off ys xs) = length xs"
  by (simp add: buf_write_def)

lemma nth_buf_write:
  "off + length ys \<le> length xs \<Longrightarrow> i < length xs \<Longrightarrow>
   buf_write off ys xs ! i = (if off \<le> i \<and> i < off + length ys then ys ! (i - off) else xs ! i)"
  by (auto simp: buf_write_def nth_append min_def)

lemma length_buf_slice [simp]: "length (buf_slice off n xs) = min n (length xs - off)"
  by (simp add: buf_slice_def)

lemma nth_buf_slice: "i < n \<Longrightarrow> off + i < length xs \<Longrightarrow> buf_slice off n xs ! i = xs ! (off + i)"
  by (simp add: buf_slice_def)

lemma slice_write_same:
  "off + length ys \<le> length xs \<Longrightarrow> buf_slice off (length ys) (buf_write off ys xs) = ys"
  by (simp add: buf_slice_def buf_write_def)

lemma slice_write_other:
  assumes "off + length ys \<le> length xs" "a + n \<le> off \<or> off + length ys \<le> a" "a + n \<le> length xs"
  shows "buf_slice a n (buf_write off ys xs) = buf_slice a n xs"
proof (rule nth_equalityI)
  show "length (buf_slice a n (buf_write off ys xs)) = length (buf_slice a n xs)"
    using assms by simp
next
  fix i assume "i < length (buf_slice a n (buf_write off ys xs))"
  then have "i < n" "a + i < length xs" using assms by auto
  then show "buf_slice a n (buf_write off ys xs) ! i = buf_slice a n xs ! i"
    using assms by (auto simp: nth_buf_slice nth_buf_write)
qed

lemma buf_slice_drop: "buf_slice (off + k) (n - k) xs = drop k (buf_slice off n xs)"
  by (simp add: buf_slice_def drop_take add.commute)

lemma buf_write_append:
  "off + length xs + length ys \<le> length b \<Longrightarrow>
   buf_write (off + length xs) ys (buf_write off xs b) = buf_write off (xs @ ys) b"
  by (simp add: buf_write_def ac_simps)

lemma buf_write_Nil [simp]: "off \<le> length xs \<Longrightarrow> buf_write off [] xs = xs"
  by (simp add: buf_write_def)

text \<open>\<open>Display\<close> of an unsigned integer.\<close>

fun decimal :: "nat \<Rightarrow> bytes" where
  "decimal n = (if n < 10 then [0x30 + of_nat n] else decimal (n div 10) @ [0x30 + of_nat (n mod 10)])"

declare decimal.simps [simp del]

end
