(* ===== verification/Completion.thy ===== *)
theory Completion
  imports Rust_Prelude
begin

section \<open>Completion identifiers (\<open>ringline/src/completion.rs\<close>)\<close>

text \<open>
  Every submission carries a 64-bit \<open>user_data\<close> word that the kernel returns with the
  completion. This theory models the operation tags, the packing of tag, connection index
  and payload into that word, and the packing of a pool slot and a truncated connection
  generation into the payload of a send. The feature argument \<open>timestamps\<close> is the Cargo
  feature of the same name, which adds one tag.
\<close>

datatype OpTag =
    RecvMulti
  | Send
  | SendMsgZc
  | Close
  | Shutdown
  | EventFdRead
  | TlsSend
  | Connect
  | Timeout
  | Cancel
  | TickTimeout
  | Timer
  | RecvMsgUdp
  | SendMsgUdp
  | NvmeCmd
  | DirectIo
  | RecvMsgMultiTs
  | Fs
  | PidfdPoll
  | SendRecvBuf
  | SendPollOut
  | RecvUdp
  | SendUdp
  | SendMsgCoalesced
  | SendMsgCoalescedPollOut
  | SendRecvBufsCoalesced
  | SendRecvBufsCoalescedPollOut
  | RecvFallback
  | ForwardWrite
  | ForwardWritePollOut
  | AcceptMulti
  | ParkInstall

definition op_tag_u8 :: "OpTag \<Rightarrow> u8" where
  "op_tag_u8 t = (case t of
      RecvMulti \<Rightarrow> 0
    | Send \<Rightarrow> 2
    | SendMsgZc \<Rightarrow> 3
    | Close \<Rightarrow> 4
    | Shutdown \<Rightarrow> 5
    | EventFdRead \<Rightarrow> 6
    | TlsSend \<Rightarrow> 7
    | Connect \<Rightarrow> 8
    | Timeout \<Rightarrow> 9
    | Cancel \<Rightarrow> 10
    | TickTimeout \<Rightarrow> 11
    | Timer \<Rightarrow> 12
    | RecvMsgUdp \<Rightarrow> 13
    | SendMsgUdp \<Rightarrow> 14
    | NvmeCmd \<Rightarrow> 15
    | DirectIo \<Rightarrow> 16
    | RecvMsgMultiTs \<Rightarrow> 17
    | Fs \<Rightarrow> 18
    | PidfdPoll \<Rightarrow> 19
    | SendRecvBuf \<Rightarrow> 20
    | SendPollOut \<Rightarrow> 21
    | RecvUdp \<Rightarrow> 22
    | SendUdp \<Rightarrow> 23
    | SendMsgCoalesced \<Rightarrow> 24
    | SendMsgCoalescedPollOut \<Rightarrow> 25
    | SendRecvBufsCoalesced \<Rightarrow> 26
    | SendRecvBufsCoalescedPollOut \<Rightarrow> 27
    | RecvFallback \<Rightarrow> 28
    | ForwardWrite \<Rightarrow> 29
    | ForwardWritePollOut \<Rightarrow> 30
    | AcceptMulti \<Rightarrow> 31
    | ParkInstall \<Rightarrow> 32)"

definition op_tag_from_u8 :: "bool \<Rightarrow> u8 \<Rightarrow> OpTag option" where
  "op_tag_from_u8 timestamps v =
    (     if v = 0 then Some RecvMulti
     else if v = 2 then Some Send
     else if v = 3 then Some SendMsgZc
     else if v = 4 then Some Close
     else if v = 5 then Some Shutdown
     else if v = 6 then Some EventFdRead
     else if v = 7 then Some TlsSend
     else if v = 8 then Some Connect
     else if v = 9 then Some Timeout
     else if v = 10 then Some Cancel
     else if v = 11 then Some TickTimeout
     else if v = 12 then Some Timer
     else if v = 13 then Some RecvMsgUdp
     else if v = 14 then Some SendMsgUdp
     else if v = 15 then Some NvmeCmd
     else if v = 16 then Some DirectIo
     else if timestamps \<and> v = 17 then Some RecvMsgMultiTs
     else if v = 18 then Some Fs
     else if v = 19 then Some PidfdPoll
     else if v = 20 then Some SendRecvBuf
     else if v = 21 then Some SendPollOut
     else if v = 22 then Some RecvUdp
     else if v = 23 then Some SendUdp
     else if v = 24 then Some SendMsgCoalesced
     else if v = 25 then Some SendMsgCoalescedPollOut
     else if v = 26 then Some SendRecvBufsCoalesced
     else if v = 27 then Some SendRecvBufsCoalescedPollOut
     else if v = 28 then Some RecvFallback
     else if v = 29 then Some ForwardWrite
     else if v = 30 then Some ForwardWritePollOut
     else if v = 31 then Some AcceptMulti
     else if v = 32 then Some ParkInstall
     else None)"

definition op_tag_as_str :: "OpTag \<Rightarrow> string" where
  "op_tag_as_str t = (case t of
      RecvMulti \<Rightarrow> ''recv_multi''
    | Send \<Rightarrow> ''send''
    | SendMsgZc \<Rightarrow> ''send_msg_zc''
    | Close \<Rightarrow> ''close''
    | Shutdown \<Rightarrow> ''shutdown''
    | EventFdRead \<Rightarrow> ''event_fd_read''
    | TlsSend \<Rightarrow> ''tls_send''
    | Connect \<Rightarrow> ''connect''
    | Timeout \<Rightarrow> ''timeout''
    | Cancel \<Rightarrow> ''cancel''
    | TickTimeout \<Rightarrow> ''tick_timeout''
    | Timer \<Rightarrow> ''timer''
    | RecvMsgUdp \<Rightarrow> ''recv_msg_udp''
    | SendMsgUdp \<Rightarrow> ''send_msg_udp''
    | NvmeCmd \<Rightarrow> ''nvme_cmd''
    | DirectIo \<Rightarrow> ''direct_io''
    | RecvMsgMultiTs \<Rightarrow> ''recv_msg_multi_ts''
    | Fs \<Rightarrow> ''fs''
    | PidfdPoll \<Rightarrow> ''pidfd_poll''
    | SendRecvBuf \<Rightarrow> ''send_recv_buf''
    | SendPollOut \<Rightarrow> ''send_poll_out''
    | RecvUdp \<Rightarrow> ''recv_udp''
    | SendUdp \<Rightarrow> ''send_udp''
    | SendMsgCoalesced \<Rightarrow> ''send_msg_coalesced''
    | SendMsgCoalescedPollOut \<Rightarrow> ''send_msg_coalesced_poll_out''
    | SendRecvBufsCoalesced \<Rightarrow> ''send_recv_bufs_coalesced''
    | SendRecvBufsCoalescedPollOut \<Rightarrow> ''send_recv_bufs_coalesced_poll_out''
    | RecvFallback \<Rightarrow> ''recv_fallback''
    | ForwardWrite \<Rightarrow> ''forward_write''
    | ForwardWritePollOut \<Rightarrow> ''forward_write_poll_out''
    | AcceptMulti \<Rightarrow> ''accept_multi''
    | ParkInstall \<Rightarrow> ''park_install'')"

subsection \<open>The user data word\<close>

definition TAG_SHIFT :: nat where "TAG_SHIFT = 56"
definition CONN_SHIFT :: nat where "CONN_SHIFT = 32"
definition TAG_MASK :: u64 where "TAG_MASK = push_bit TAG_SHIFT 0xFF"
definition CONN_MASK :: u64 where "CONN_MASK = push_bit CONN_SHIFT 0x00FFFFFF"
definition PAYLOAD_MASK :: u64 where "PAYLOAD_MASK = 0xFFFFFFFF"

definition user_data_encode :: "profile \<Rightarrow> OpTag \<Rightarrow> u32 \<Rightarrow> u32 \<Rightarrow> u64 outcome" where
  "user_data_encode dbg tag conn_index payload =
     debug_assert dbg (conn_index < push_bit 24 1)
       (Ret (push_bit TAG_SHIFT (ucast (op_tag_u8 tag)) OR
             push_bit CONN_SHIFT (ucast conn_index AND 0x00FFFFFF) OR
             ucast payload))"

definition user_data_tag :: "bool \<Rightarrow> u64 \<Rightarrow> OpTag option" where
  "user_data_tag timestamps ud =
     op_tag_from_u8 timestamps (ucast (drop_bit TAG_SHIFT (ud AND TAG_MASK)))"

definition user_data_conn_index :: "u64 \<Rightarrow> u32" where
  "user_data_conn_index ud = ucast (drop_bit CONN_SHIFT (ud AND CONN_MASK))"

definition user_data_payload :: "u64 \<Rightarrow> u32" where
  "user_data_payload ud = ucast (ud AND PAYLOAD_MASK)"

definition send_payload :: "u16 \<Rightarrow> u32 \<Rightarrow> u32" where
  "send_payload slot generation = ucast slot OR push_bit 16 (generation AND 0xFFFF)"

definition send_payload_slot :: "u32 \<Rightarrow> u16" where
  "send_payload_slot payload = ucast payload"

definition send_payload_gen :: "u32 \<Rightarrow> u16" where
  "send_payload_gen payload = ucast (drop_bit 16 payload)"

definition send_pollout_payload :: "u16 \<Rightarrow> bool \<Rightarrow> u32 \<Rightarrow> u32" where
  "send_pollout_payload slot is_tls generation =
     ucast slot OR push_bit 16 (of_bool is_tls) OR push_bit 17 (generation AND 0x7FFF)"

definition send_pollout_is_tls :: "u32 \<Rightarrow> bool" where
  "send_pollout_is_tls payload \<longleftrightarrow> drop_bit 16 payload AND 1 = 1"

definition send_pollout_gen :: "u32 \<Rightarrow> u16" where
  "send_pollout_gen payload = ucast (drop_bit 17 payload) AND 0x7FFF"

subsection \<open>Tags\<close>

lemma op_tag_from_u8_all: "op_tag_from_u8 True (op_tag_u8 tag) = Some tag"
  by (cases tag) (simp_all add: op_tag_u8_def op_tag_from_u8_def)

lemma op_tag_from_u8_base: "tag \<noteq> RecvMsgMultiTs \<Longrightarrow> op_tag_from_u8 False (op_tag_u8 tag) = Some tag"
  by (cases tag) (simp_all add: op_tag_u8_def op_tag_from_u8_def)

lemma op_tag_from_u8_u8:
  assumes "tag = RecvMsgMultiTs \<Longrightarrow> timestamps"
  shows "op_tag_from_u8 timestamps (op_tag_u8 tag) = Some tag"
proof (cases timestamps)
  case True
  then show ?thesis by (simp only: op_tag_from_u8_all)
next
  case False
  with assms have "tag \<noteq> RecvMsgMultiTs" by blast
  with False op_tag_from_u8_base [of tag] show ?thesis by metis
qed

lemma op_tag_u8_inj: "op_tag_u8 a = op_tag_u8 b \<Longrightarrow> a = b"
  by (metis op_tag_from_u8_all option.inject)

subsection \<open>Round trips\<close>

lemma mask_consts:
  "(0xFF :: u64) = mask 8" "(0x00FFFFFF :: u64) = mask 24" "(0xFFFFFFFF :: u64) = mask 32"
  "(0xFFFF :: u32) = mask 16" "(0x7FFF :: u32) = mask 15" "(0x7FFF :: u16) = mask 15"
  by (simp_all add: mask_eq_exp_minus_1)

lemmas user_data_defs = TAG_SHIFT_def CONN_SHIFT_def TAG_MASK_def CONN_MASK_def PAYLOAD_MASK_def mask_consts

lemma bit_beyond: "LENGTH('l) \<le> n \<Longrightarrow> \<not> bit (w :: 'l::len word) n"
  using bit_imp_le_length not_le by blast

lemma tag_bits:
  fixes t :: u8 and c :: u32 and p :: u32
  shows "ucast (drop_bit 56 ((push_bit 56 (ucast t) OR push_bit 32 (ucast c AND mask 24) OR ucast p :: u64)
           AND push_bit 56 (mask 8))) = t"
  by (rule bit_word_eqI) (auto simp: bit_simps bit_beyond)

lemma conn_bits:
  fixes t :: u8 and c :: u32 and p :: u32
  shows "ucast (drop_bit 32 ((push_bit 56 (ucast t) OR push_bit 32 (ucast c AND mask 24) OR ucast p :: u64)
           AND push_bit 32 (mask 24))) = c AND mask 24"
  by (rule bit_word_eqI) (auto simp: bit_simps bit_beyond)

lemma payload_bits:
  fixes t :: u8 and c :: u32 and p :: u32
  shows "ucast ((push_bit 56 (ucast t) OR push_bit 32 (ucast c AND mask 24) OR ucast p :: u64)
           AND mask 32) = p"
  by (rule bit_word_eqI) (auto simp: bit_simps bit_beyond)

lemma conn_index_fits: "c < (push_bit 24 1 :: u32) \<Longrightarrow> c AND mask 24 = c"
proof -
  assume "c < (push_bit 24 1 :: u32)"
  then have "c < 2 ^ 24" by (simp add: push_bit_eq_mult)
  then show ?thesis by (rule less_mask_eq)
qed

text \<open>
  C1. Completion identity: for every operation tag, every connection index below the
  24-bit limit and every payload, encoding never panics in either build profile and the
  three decoders give back exactly the tag, the index and the payload.
\<close>

theorem user_data_round_trip:
  assumes "conn_index < push_bit 24 1" and "tag = RecvMsgMultiTs \<Longrightarrow> timestamps"
  shows "\<exists>ud. user_data_encode dbg tag conn_index payload = Ret ud
     \<and> user_data_tag timestamps ud = Some tag
     \<and> user_data_conn_index ud = conn_index
     \<and> user_data_payload ud = payload"
proof -
  let ?ud = "push_bit 56 (ucast (op_tag_u8 tag)) OR push_bit 32 (ucast conn_index AND mask 24) OR ucast payload :: u64"
  have "user_data_encode dbg tag conn_index payload = Ret ?ud"
    using assms(1) by (simp only: user_data_encode_def user_data_defs debug_assert_True)
  moreover have "user_data_tag timestamps ?ud = Some tag"
    unfolding user_data_tag_def user_data_defs tag_bits using assms(2) by (rule op_tag_from_u8_u8)
  moreover have "user_data_conn_index ?ud = conn_index"
    unfolding user_data_conn_index_def user_data_defs conn_bits using assms(1) by (rule conn_index_fits)
  moreover have "user_data_payload ?ud = payload"
    unfolding user_data_payload_def user_data_defs by (rule payload_bits)
  ultimately show ?thesis by blast
qed

theorem user_data_round_trip_witness:
  "\<exists>ud. user_data_encode True SendMsgZc 0xABCDEF 0xDEADBEEF = Ret ud
     \<and> user_data_tag False ud = Some SendMsgZc
     \<and> user_data_conn_index ud = 0xABCDEF
     \<and> user_data_payload ud = 0xDEADBEEF"
  by (rule user_data_round_trip) (simp_all add: push_bit_eq_mult)

lemma send_payload_slot_gen:
  "send_payload_slot (send_payload slot g) = slot" "send_payload_gen (send_payload slot g) = ucast g"
  unfolding send_payload_slot_def send_payload_gen_def send_payload_def mask_consts
  by (rule bit_word_eqI, auto simp: bit_simps bit_beyond)+

lemma send_pollout_fields:
  "send_payload_slot (send_pollout_payload slot is_tls g) = slot"
  "send_pollout_is_tls (send_pollout_payload slot is_tls g) = is_tls"
  "send_pollout_gen (send_pollout_payload slot is_tls g) = ucast g AND 0x7FFF"
proof -
  show "send_payload_slot (send_pollout_payload slot is_tls g) = slot"
    unfolding send_payload_slot_def send_pollout_payload_def mask_consts
    by (rule bit_word_eqI, auto simp: bit_simps bit_beyond)
  show "send_pollout_gen (send_pollout_payload slot is_tls g) = ucast g AND 0x7FFF"
    unfolding send_pollout_gen_def send_pollout_payload_def mask_consts
    by (rule bit_word_eqI, auto simp: bit_simps bit_beyond)
  have "drop_bit 16 (send_pollout_payload slot is_tls g) AND 1 = (of_bool is_tls :: u32)"
    unfolding send_pollout_payload_def mask_consts
    by (rule bit_word_eqI, auto simp: bit_simps bit_beyond)
  then show "send_pollout_is_tls (send_pollout_payload slot is_tls g) = is_tls"
    by (simp add: send_pollout_is_tls_def)
qed

end
