(* ===== verification/Slot_Pool.thy ===== *)
theory Slot_Pool
  imports Rust_Prelude
begin

section \<open>The slot pool contract\<close>

text \<open>
  The runtime keeps its connections, send buffers, in-flight sends, standalone tasks and
  timers in fixed arrays with a free list. Every one of them is used through the same
  contract, stated here once: acquiring hands out a slot nobody holds, releasing a held
  slot frees exactly that slot, and a request that fits is refused only when every slot is
  taken. The components interpret the locale on their own operations; the lemmas proved
  here (no slot has two holders, the held slots never exceed the capacity, a full pool
  recovers) then hold for each of them.
\<close>

datatype 'a pool_op = Acquire 'a | Give nat

text \<open>
  A client session: the slots the client holds are recorded in acquisition order, and the
  client only gives back a slot it holds.
\<close>

fun pool_run ::
  "('a \<Rightarrow> 's \<Rightarrow> (nat \<times> 's) option) \<Rightarrow> (nat \<Rightarrow> 's \<Rightarrow> 's) \<Rightarrow> 'a pool_op list \<Rightarrow> 's \<times> nat list \<Rightarrow> 's \<times> nat list"
where
  "pool_run acq rel [] st = st"
| "pool_run acq rel (Acquire a # ops) (s, held) =
     (case acq a s of
        None \<Rightarrow> pool_run acq rel ops (s, held)
      | Some (i, s') \<Rightarrow> pool_run acq rel ops (s', held @ [i]))"
| "pool_run acq rel (Give i # ops) (s, held) =
     (if i \<in> set held then pool_run acq rel ops (rel i s, removeAll i held)
      else pool_run acq rel ops (s, held))"

locale slot_pool =
  fixes inv :: "'s \<Rightarrow> bool"
    and cap :: "'s \<Rightarrow> nat"
    and used :: "'s \<Rightarrow> nat \<Rightarrow> bool"
    and fits :: "'a \<Rightarrow> 's \<Rightarrow> bool"
    and acquire :: "'a \<Rightarrow> 's \<Rightarrow> (nat \<times> 's) option"
    and release :: "nat \<Rightarrow> 's \<Rightarrow> 's"
  assumes used_bound: "inv s \<Longrightarrow> used s i \<Longrightarrow> i < cap s"
    and acquire_fresh: "inv s \<Longrightarrow> acquire a s = Some (i, s') \<Longrightarrow> i < cap s \<and> \<not> used s i"
    and acquire_used: "inv s \<Longrightarrow> acquire a s = Some (i, s') \<Longrightarrow> used s' = (used s)(i := True)"
    and acquire_cap: "inv s \<Longrightarrow> acquire a s = Some (i, s') \<Longrightarrow> cap s' = cap s"
    and acquire_inv: "inv s \<Longrightarrow> acquire a s = Some (i, s') \<Longrightarrow> inv s'"
    and acquire_full: "inv s \<Longrightarrow> acquire a s = None \<Longrightarrow> fits a s \<Longrightarrow> i < cap s \<Longrightarrow> used s i"
    and release_used: "inv s \<Longrightarrow> used s i \<Longrightarrow> used (release i s) = (used s)(i := False)"
    and release_cap: "inv s \<Longrightarrow> used s i \<Longrightarrow> cap (release i s) = cap s"
    and release_inv: "inv s \<Longrightarrow> used s i \<Longrightarrow> inv (release i s)"
begin

lemma used_finite: "inv s \<Longrightarrow> finite {i. used s i}"
  by (rule finite_subset [where B = "{..<cap s}"]) (auto dest: used_bound)

lemma used_card: "inv s \<Longrightarrow> card {i. used s i} \<le> cap s"
  using card_mono [of "{..<cap s}" "{i. used s i}"] by (auto dest: used_bound)

text \<open>The ledger: the client's list names each held slot once, and nothing else is taken.\<close>

definition ledger :: "'s \<times> nat list \<Rightarrow> bool" where
  "ledger st \<longleftrightarrow> inv (fst st) \<and> distinct (snd st) \<and> set (snd st) = {i. used (fst st) i}"

lemma ledger_acquire:
  "ledger (s, held) \<Longrightarrow> acquire a s = Some (i, s') \<Longrightarrow> ledger (s', held @ [i])"
  using acquire_fresh [of s a i s'] acquire_used [of s a i s'] acquire_inv [of s a i s']
  by (auto simp: ledger_def)

lemma ledger_give: "ledger (s, held) \<Longrightarrow> i \<in> set held \<Longrightarrow> ledger (release i s, removeAll i held)"
  using release_used [of s i] release_inv [of s i]
  by (auto simp: ledger_def distinct_removeAll)

lemma ledger_run: "ledger st \<Longrightarrow> ledger (pool_run acquire release ops st)"
proof (induction ops arbitrary: st)
  case (Cons x ops)
  obtain s held where st: "st = (s, held)" by (cases st)
  show ?case
  proof (cases x)
    case (Acquire a)
    then show ?thesis
      using Cons st by (auto dest: ledger_acquire split: option.splits)
  next
    case (Give i)
    then show ?thesis
      using Cons st by (auto dest: ledger_give)
  qed
qed simp

lemma cap_run: "ledger st \<Longrightarrow> cap (fst (pool_run acquire release ops st)) = cap (fst st)"
proof (induction ops arbitrary: st)
  case (Cons x ops)
  obtain s held where st: "st = (s, held)" by (cases st)
  have inv: "inv s" and h: "i \<in> set held \<Longrightarrow> used s i" for i
    using Cons.prems by (auto simp: st ledger_def)
  show ?case
  proof (cases x)
    case (Acquire a)
    then show ?thesis
      using Cons st inv by (auto dest: ledger_acquire simp: acquire_cap split: option.splits)
  next
    case (Give i)
    then show ?thesis
      using Cons st ledger_give [of s held i] release_cap [OF inv h] by auto
  qed
qed simp

lemma held_distinct:
  "ledger st \<Longrightarrow> distinct (snd (pool_run acquire release ops st))"
  using ledger_run [of st ops] by (simp add: ledger_def)

lemma held_bounded:
  assumes "ledger st"
  shows "length (snd (pool_run acquire release ops st)) \<le> cap (fst st)"
proof -
  let ?st = "pool_run acquire release ops st"
  from assms have l: "ledger ?st" by (rule ledger_run)
  then have "length (snd ?st) = card {i. used (fst ?st) i}"
    by (metis distinct_card ledger_def)
  also have "\<dots> \<le> cap (fst ?st)"
    using l by (intro used_card) (simp add: ledger_def)
  finally show ?thesis using assms by (simp add: cap_run)
qed

text \<open>A request that fits is refused only when the client's own holdings fill the pool.\<close>

lemma refused_full:
  assumes "ledger (s, held)" "acquire a s = None" "fits a s"
  shows "length held = cap s"
proof -
  from assms have i: "inv s" and h: "distinct held" "set held = {i. used s i}"
    by (auto simp: ledger_def)
  have "{i. used s i} = {..<cap s}"
    using i assms(2,3) by (auto dest: used_bound acquire_full)
  then show ?thesis using h by (metis card_lessThan distinct_card)
qed

lemma release_then_acquire:
  assumes "inv s" "used s i" "fits a (release i s)"
  shows "acquire a (release i s) \<noteq> None"
proof
  assume "acquire a (release i s) = None"
  then have "used (release i s) i"
    using assms by (intro acquire_full) (auto intro: release_inv simp: release_cap dest: used_bound)
  then show False using assms by (simp add: release_used)
qed

end

text \<open>Pools whose \<open>release\<close> guards against a slot that is already free.\<close>

locale guarded_slot_pool = slot_pool +
  assumes release_idle: "inv s \<Longrightarrow> \<not> used s i \<Longrightarrow> release i s = s"
begin

lemma release_twice: "inv s \<Longrightarrow> release i (release i s) = release i s"
  by (metis fun_upd_same release_idle release_inv release_used)

lemma release_total_inv: "inv s \<Longrightarrow> inv (release i s)"
  by (metis release_idle release_inv)

end

subsection \<open>Free lists\<close>

text \<open>
  The representation the pools share: a vector of free indices, each index of an unused
  slot exactly once.
\<close>

definition free_list_ok :: "nat \<Rightarrow> (nat \<Rightarrow> bool) \<Rightarrow> nat list \<Rightarrow> bool" where
  "free_list_ok n taken fl \<longleftrightarrow> distinct fl \<and> set fl = {i. i < n \<and> \<not> taken i}"

lemma free_list_ok_pop:
  assumes "free_list_ok n taken (fl @ [i])"
  shows "i < n" "\<not> taken i" "free_list_ok n (taken(i := True)) fl"
  using assms unfolding free_list_ok_def by auto

lemma free_list_ok_push:
  "free_list_ok n taken fl \<Longrightarrow> i < n \<Longrightarrow> taken i \<Longrightarrow> free_list_ok n (taken(i := False)) (vec_push fl i)"
  unfolding free_list_ok_def by auto

lemma free_list_ok_empty: "free_list_ok n taken [] \<Longrightarrow> i < n \<Longrightarrow> taken i"
  unfolding free_list_ok_def by auto

lemma free_list_ok_length: "free_list_ok n taken fl \<Longrightarrow> length fl = card {i. i < n \<and> \<not> taken i}"
  unfolding free_list_ok_def by (metis distinct_card)

lemma free_list_ok_le: "free_list_ok n taken fl \<Longrightarrow> length fl \<le> n"
  using card_mono [of "{..<n}" "{i. i < n \<and> \<not> taken i}"]
  by (auto simp: free_list_ok_length)

lemma free_list_ok_count:
  assumes "free_list_ok n taken fl"
  shows "n - length fl = card {i. i < n \<and> taken i}"
proof -
  have "card {..<n} = card ({i. i < n \<and> \<not> taken i} \<union> {i. i < n \<and> taken i})"
    by (rule arg_cong [where f = card]) auto
  also have "\<dots> = card {i. i < n \<and> \<not> taken i} + card {i. i < n \<and> taken i}"
    by (rule card_Un_disjoint) auto
  finally show ?thesis by (simp add: free_list_ok_length [OF assms])
qed

lemma free_list_ok_init: "free_list_ok n (\<lambda>_. False) [0..<n]" "free_list_ok n (\<lambda>_. False) (rev [0..<n])"
  by (auto simp: free_list_ok_def)

lemma free_list_ok_cong:
  "free_list_ok n taken fl \<Longrightarrow> (\<And>i. i < n \<Longrightarrow> taken i = taken' i) \<Longrightarrow> free_list_ok n taken' fl"
  unfolding free_list_ok_def by auto

end
