(* ===== verification/Connection.thy ===== *)
theory Connection
  imports Slot_Pool
begin

section \<open>Connections and their table (\<open>ringline/src/connection.rs\<close>)\<close>

text \<open>
  The per-connection state with its lifecycle, read half and write half, and the table that
  hands out connection slots from a free list. The model is the io_uring build with the
  \<open>timestamps\<close> feature, so every field of the struct is present. A peer address is a
  standard-library socket address or a path.
\<close>

datatype SocketAddr = SocketAddrV4 u32 u16 | SocketAddrV6 "128 word" u16 u32 u32

datatype PeerAddr = Tcp SocketAddr | Unix string

datatype RecvArm = ArmIdle | ArmMulti | ArmMsgMulti

datatype ReadHalf = ReadOpen | ReadEof bool | ReadError | ReadCancelled

datatype Lifecycle = LifeInactive | LifeConnecting | LifeOpen | LifeClosing

datatype WriteHalf = WriteOpen | WriteShutdownPending | WriteShutdown

record ConnectionState =
  cs_recv_arm :: RecvArm
  cs_read :: ReadHalf
  cs_lifecycle :: Lifecycle
  cs_write :: WriteHalf
  cs_active :: bool
  cs_generation :: u32
  cs_outbound :: bool
  cs_established :: bool
  cs_peer_addr :: "PeerAddr option"
  cs_listener :: "u32 option"
  cs_connect_timeout_armed :: bool
  cs_recv_timestamp_ns :: u64
  cs_direct_echo :: bool
  cs_recv_multishot_armed :: bool

definition conn_state_new :: ConnectionState where
  "conn_state_new = \<lparr>cs_recv_arm = ArmIdle, cs_read = ReadOpen, cs_lifecycle = LifeInactive,
     cs_write = WriteOpen, cs_active = False, cs_generation = 0, cs_outbound = False,
     cs_established = False, cs_peer_addr = None, cs_listener = None,
     cs_connect_timeout_armed = False, cs_recv_timestamp_ns = 0, cs_direct_echo = False,
     cs_recv_multishot_armed = False\<rparr>"

definition conn_activate :: "ConnectionState \<Rightarrow> ConnectionState" where
  "conn_activate c = c\<lparr>cs_active := True, cs_lifecycle := LifeOpen, cs_read := ReadOpen,
     cs_recv_arm := ArmMulti, cs_write := WriteOpen\<rparr>"

definition conn_activate_outbound :: "ConnectionState \<Rightarrow> ConnectionState" where
  "conn_activate_outbound c = c\<lparr>cs_active := True, cs_outbound := True, cs_established := False,
     cs_lifecycle := LifeConnecting, cs_read := ReadOpen, cs_recv_arm := ArmIdle,
     cs_write := WriteOpen\<rparr>"

definition conn_mark_connected :: "ConnectionState \<Rightarrow> ConnectionState" where
  "conn_mark_connected c = c\<lparr>cs_lifecycle := LifeOpen, cs_read := ReadOpen, cs_recv_arm := ArmMulti\<rparr>"

definition conn_recv_finished :: "ConnectionState \<Rightarrow> bool" where
  "conn_recv_finished c \<longleftrightarrow> cs_read c \<noteq> ReadOpen \<or> cs_lifecycle c = LifeClosing"

definition conn_close_requested :: "ConnectionState \<Rightarrow> bool" where
  "conn_close_requested c \<longleftrightarrow> cs_lifecycle c = LifeClosing"

definition conn_note_eof :: "bool \<Rightarrow> ConnectionState \<Rightarrow> ConnectionState" where
  "conn_note_eof truncated c =
     (if cs_read c \<noteq> ReadEof True then c\<lparr>cs_read := ReadEof truncated\<rparr> else c)"

definition conn_deactivate :: "ConnectionState \<Rightarrow> ConnectionState" where
  "conn_deactivate c = c\<lparr>cs_active := False, cs_lifecycle := LifeInactive, cs_read := ReadOpen,
     cs_recv_arm := ArmIdle, cs_write := WriteOpen, cs_outbound := False, cs_established := False,
     cs_peer_addr := None, cs_listener := None, cs_connect_timeout_armed := False,
     cs_recv_timestamp_ns := 0, cs_direct_echo := False, cs_recv_multishot_armed := False,
     cs_generation := cs_generation c + 1\<rparr>"

subsection \<open>The table\<close>

record ConnectionTable =
  ct_slots :: "ConnectionState list"
  ct_free_list :: "nat list"

definition conn_table_new :: "nat \<Rightarrow> ConnectionTable" where
  "conn_table_new max_connections =
     \<lparr>ct_slots = replicate max_connections conn_state_new, ct_free_list = rev [0..<max_connections]\<rparr>"

definition conn_allocate_with ::
  "(ConnectionState \<Rightarrow> ConnectionState) \<Rightarrow> ConnectionTable \<Rightarrow> (nat option \<times> ConnectionTable) outcome" where
  "conn_allocate_with act t =
     (case vec_pop (ct_free_list t) of
        None \<Rightarrow> Ret (None, t)
      | Some (idx, fl) \<Rightarrow>
          ensure (idx < length (ct_slots t))
            (Ret (Some idx, t\<lparr>ct_free_list := fl, ct_slots := (ct_slots t)[idx := act (ct_slots t ! idx)]\<rparr>)))"

definition conn_allocate :: "ConnectionTable \<Rightarrow> (nat option \<times> ConnectionTable) outcome" where
  "conn_allocate t = conn_allocate_with conn_activate t"

definition conn_allocate_outbound :: "ConnectionTable \<Rightarrow> (nat option \<times> ConnectionTable) outcome" where
  "conn_allocate_outbound t = conn_allocate_with conn_activate_outbound t"

definition conn_release :: "nat \<Rightarrow> ConnectionTable \<Rightarrow> ConnectionTable" where
  "conn_release idx t =
     (if idx < length (ct_slots t) then
        (if \<not> cs_active (ct_slots t ! idx) then t
         else t\<lparr>ct_slots := (ct_slots t)[idx := conn_deactivate (ct_slots t ! idx)],
                ct_free_list := vec_push (ct_free_list t) idx\<rparr>)
      else t)"

definition conn_get :: "ConnectionTable \<Rightarrow> nat \<Rightarrow> ConnectionState option" where
  "conn_get t idx =
     (if idx < length (ct_slots t) \<and> cs_active (ct_slots t ! idx) then Some (ct_slots t ! idx) else None)"

text \<open>\<open>get_mut\<close> lends the slot to the caller, who writes it: \<open>f\<close> is the write.\<close>

definition conn_get_mut :: "nat \<Rightarrow> (ConnectionState \<Rightarrow> ConnectionState) \<Rightarrow> ConnectionTable \<Rightarrow> ConnectionTable" where
  "conn_get_mut idx f t =
     (case conn_get t idx of None \<Rightarrow> t | Some c \<Rightarrow> t\<lparr>ct_slots := (ct_slots t)[idx := f c]\<rparr>)"

definition conn_active_count :: "ConnectionTable \<Rightarrow> nat" where
  "conn_active_count t = length (ct_slots t) - length (ct_free_list t)"

definition conn_max_slots :: "ConnectionTable \<Rightarrow> nat" where
  "conn_max_slots t = length (ct_slots t)"

definition conn_generation :: "ConnectionTable \<Rightarrow> nat \<Rightarrow> u32 outcome" where
  "conn_generation t idx = ensure (idx < length (ct_slots t)) (Ret (cs_generation (ct_slots t ! idx)))"

lemmas conn_state_defs = conn_state_new_def conn_activate_def conn_activate_outbound_def
  conn_mark_connected_def conn_recv_finished_def conn_close_requested_def conn_note_eof_def
  conn_deactivate_def

subsection \<open>Sequences of table operations\<close>

datatype conn_event =
    EvAllocate
  | EvAllocateOutbound
  | EvRelease nat
  | EvWrite nat "ConnectionState \<Rightarrow> ConnectionState"

text \<open>
  A step returns what the call returned: the index an allocator handed out (none when it
  refused), and none for the calls that return nothing. A run collects these answers.
\<close>

fun conn_step :: "conn_event \<Rightarrow> ConnectionTable \<Rightarrow> (nat option \<times> ConnectionTable) outcome" where
  "conn_step EvAllocate t = conn_allocate t"
| "conn_step EvAllocateOutbound t = conn_allocate_outbound t"
| "conn_step (EvRelease idx) t = Ret (None, conn_release idx t)"
| "conn_step (EvWrite idx f) t = Ret (None, conn_get_mut idx f t)"

fun conn_run :: "conn_event list \<Rightarrow> ConnectionTable \<Rightarrow> (nat option list \<times> ConnectionTable) outcome" where
  "conn_run [] t = Ret ([], t)"
| "conn_run (e # es) t = outcome_bind (conn_step e t) (\<lambda>(r, t').
     outcome_bind (conn_run es t') (\<lambda>(rs, t''). Ret (r # rs, t'')))"

text \<open>
  What a table of \<open>n\<close> slots promises, over the set \<open>L\<close> of the slots handed out and not
  yet released: an allocator answers with a slot below \<open>n\<close> that nobody holds, and
  refuses only when all \<open>n\<close> are held.
\<close>

fun conn_answer_ok :: "nat \<Rightarrow> nat set \<Rightarrow> conn_event \<Rightarrow> nat option \<Rightarrow> bool" where
  "conn_answer_ok n L (EvRelease idx) r = (r = None)"
| "conn_answer_ok n L (EvWrite idx f) r = (r = None)"
| "conn_answer_ok n L e (Some i) = (i < n \<and> i \<notin> L)"
| "conn_answer_ok n L e None = (L = {..<n})"

fun conn_held :: "nat set \<Rightarrow> conn_event \<Rightarrow> nat option \<Rightarrow> nat set" where
  "conn_held L (EvRelease idx) r = L - {idx}"
| "conn_held L (EvWrite idx f) r = L"
| "conn_held L e (Some i) = insert i L"
| "conn_held L e None = L"

fun conn_trace_ok :: "nat \<Rightarrow> nat set \<Rightarrow> conn_event list \<Rightarrow> nat option list \<Rightarrow> nat set \<Rightarrow> bool" where
  "conn_trace_ok n L [] [] L' = (L' = L)"
| "conn_trace_ok n L (e # es) (r # rs) L' = (conn_answer_ok n L e r \<and> conn_trace_ok n (conn_held L e r) es rs L')"
| "conn_trace_ok n L _ _ L' = False"

text \<open>
  The driver writes slots through \<open>get_mut\<close> but leaves \<open>active\<close> and \<open>generation\<close> to the
  table: the event sequences below are restricted to such writes.
\<close>

definition keeps_slot_identity :: "(ConnectionState \<Rightarrow> ConnectionState) \<Rightarrow> bool" where
  "keeps_slot_identity f \<longleftrightarrow> (\<forall>c. cs_active (f c) = cs_active c \<and> cs_generation (f c) = cs_generation c)"

fun conn_event_ok :: "conn_event \<Rightarrow> bool" where
  "conn_event_ok (EvWrite idx f) = keeps_slot_identity f"
| "conn_event_ok e = True"

subsection \<open>Invariant\<close>

definition slot_active :: "ConnectionTable \<Rightarrow> nat \<Rightarrow> bool" where
  "slot_active t i \<longleftrightarrow> i < length (ct_slots t) \<and> cs_active (ct_slots t ! i)"

text \<open>
  Free list and activity flags agree, and a free slot carries nothing of its last
  occupant except the generation counter.
\<close>

definition conn_table_ok :: "ConnectionTable \<Rightarrow> bool" where
  "conn_table_ok t \<longleftrightarrow>
     free_list_ok (length (ct_slots t)) (slot_active t) (ct_free_list t) \<and>
     (\<forall>i < length (ct_slots t). \<not> slot_active t i \<longrightarrow>
        ct_slots t ! i = conn_state_new\<lparr>cs_generation := cs_generation (ct_slots t ! i)\<rparr>)"

lemma conn_table_new_ok: "conn_table_ok (conn_table_new n)"
  unfolding conn_table_ok_def
  by (auto simp: conn_table_new_def slot_active_def conn_state_new_def free_list_ok_def)

lemma conn_allocate_with_cases:
  assumes "conn_table_ok t"
  obtains (full) "conn_allocate_with act t = Ret (None, t)" "ct_free_list t = []"
  | (slot) idx fl where "ct_free_list t = fl @ [idx]" "idx < length (ct_slots t)" "\<not> slot_active t idx"
      "conn_allocate_with act t =
         Ret (Some idx, t\<lparr>ct_free_list := fl, ct_slots := (ct_slots t)[idx := act (ct_slots t ! idx)]\<rparr>)"
proof (cases "vec_pop (ct_free_list t)")
  case None
  then show ?thesis using full by (simp add: conn_allocate_with_def)
next
  case (Some p)
  then obtain idx fl where p: "vec_pop (ct_free_list t) = Some (idx, fl)" by (cases p) auto
  then have "ct_free_list t = fl @ [idx]" by (simp add: vec_pop_Some_iff)
  moreover have "idx < length (ct_slots t)" "\<not> slot_active t idx"
    using assms calculation by (auto simp: conn_table_ok_def dest: free_list_ok_pop)
  ultimately show ?thesis using slot p by (simp add: conn_allocate_with_def)
qed

lemma slot_active_update:
  "i < length (ct_slots t) \<Longrightarrow>
   slot_active (t\<lparr>ct_slots := (ct_slots t)[i := c]\<rparr>) = (slot_active t)(i := cs_active c)"
  by (auto simp: slot_active_def fun_eq_iff nth_list_update)

lemma slot_active_free_list [simp]: "slot_active (t\<lparr>ct_free_list := fl\<rparr>) = slot_active t"
  by (simp add: slot_active_def fun_eq_iff)

lemma conn_table_ok_activate:
  assumes "conn_table_ok t" "ct_free_list t = fl @ [idx]" "cs_active (act (ct_slots t ! idx))"
  shows "conn_table_ok (t\<lparr>ct_free_list := fl, ct_slots := (ct_slots t)[idx := act (ct_slots t ! idx)]\<rparr>)"
proof -
  have fl: "free_list_ok (length (ct_slots t)) (slot_active t) (fl @ [idx])"
    using assms by (simp add: conn_table_ok_def)
  let ?t = "t\<lparr>ct_free_list := fl\<rparr>"
  have "slot_active (?t\<lparr>ct_slots := (ct_slots ?t)[idx := act (ct_slots t ! idx)]\<rparr>) = (slot_active t)(idx := True)"
    using free_list_ok_pop(1) [OF fl] assms(3) by (subst slot_active_update) simp_all
  then show ?thesis
    using free_list_ok_pop [OF fl] assms(1) by (auto simp: conn_table_ok_def nth_list_update)
qed

lemma conn_release_active:
  "slot_active t idx \<Longrightarrow> conn_release idx t =
     t\<lparr>ct_slots := (ct_slots t)[idx := conn_deactivate (ct_slots t ! idx)],
       ct_free_list := vec_push (ct_free_list t) idx\<rparr>"
  by (simp add: conn_release_def slot_active_def)

lemma conn_release_idle: "\<not> slot_active t idx \<Longrightarrow> conn_release idx t = t"
  by (auto simp: conn_release_def slot_active_def)

lemma length_conn_release [simp]: "length (ct_slots (conn_release idx t)) = length (ct_slots t)"
  by (simp add: conn_release_def)

lemma slot_active_release: "slot_active (conn_release idx t) = (slot_active t)(idx := False)"
  by (cases "slot_active t idx")
    (auto simp: conn_release_active conn_release_idle slot_active_def fun_eq_iff nth_list_update conn_deactivate_def)

lemma conn_release_ok: "conn_table_ok t \<Longrightarrow> conn_table_ok (conn_release idx t)"
proof (cases "slot_active t idx")
  case True
  assume ok: "conn_table_ok t"
  have "free_list_ok (length (ct_slots t)) ((slot_active t)(idx := False)) (vec_push (ct_free_list t) idx)"
    using ok True by (auto simp: conn_table_ok_def slot_active_def intro!: free_list_ok_push)
  then show ?thesis
    using ok True slot_active_release [of idx t]
    by (auto simp: conn_table_ok_def conn_release_active nth_list_update conn_state_new_def conn_deactivate_def)
qed (simp add: conn_release_idle)

lemma conn_get_mut_slot_active:
  "keeps_slot_identity f \<Longrightarrow> slot_active (conn_get_mut idx f t) = slot_active t"
  by (auto simp: conn_get_mut_def conn_get_def slot_active_def keeps_slot_identity_def
      fun_eq_iff nth_list_update)

lemma conn_get_mut_ok: "conn_table_ok t \<Longrightarrow> keeps_slot_identity f \<Longrightarrow> conn_table_ok (conn_get_mut idx f t)"
  using conn_get_mut_slot_active [of f idx t]
  by (auto simp: conn_table_ok_def conn_get_mut_def conn_get_def nth_list_update slot_active_def)

text \<open>Both allocators give an active slot.\<close>

lemma activates [simp]:
  "cs_active (conn_activate c)" "cs_active (conn_activate_outbound c)"
  "cs_generation (conn_activate c) = cs_generation c" "cs_generation (conn_activate_outbound c) = cs_generation c"
  by (simp_all add: conn_state_defs)

subsection \<open>The table as a slot pool\<close>

definition conn_acquire :: "bool \<Rightarrow> ConnectionTable \<Rightarrow> (nat \<times> ConnectionTable) option" where
  "conn_acquire outbound t =
     (case (if outbound then conn_allocate_outbound t else conn_allocate t) of
        Ret (Some i, t') \<Rightarrow> Some (i, t')
      | _ \<Rightarrow> None)"

lemma conn_acquire_conv:
  "conn_acquire outbound t =
     (case conn_allocate_with (if outbound then conn_activate_outbound else conn_activate) t of
        Ret (Some i, t') \<Rightarrow> Some (i, t') | _ \<Rightarrow> None)"
  by (simp add: conn_acquire_def conn_allocate_def conn_allocate_outbound_def)

lemma conn_acquire_Some:
  assumes "conn_table_ok t" "conn_acquire outbound t = Some (i, t')"
  obtains fl act where "act = (if outbound then conn_activate_outbound else conn_activate)"
    "ct_free_list t = fl @ [i]" "i < length (ct_slots t)" "\<not> slot_active t i"
    "t' = t\<lparr>ct_free_list := fl, ct_slots := (ct_slots t)[i := act (ct_slots t ! i)]\<rparr>"
  using assms(2) unfolding conn_acquire_conv
  by (rule_tac act = "if outbound then conn_activate_outbound else conn_activate"
      in conn_allocate_with_cases [OF assms(1)]) (auto intro: that)

interpretation conn_pool: guarded_slot_pool conn_table_ok conn_max_slots slot_active "\<lambda>_ _. True"
  conn_acquire conn_release
proof unfold_locales
  fix t i assume "conn_table_ok t" "slot_active t i"
  then show "i < conn_max_slots t" by (simp add: slot_active_def conn_max_slots_def)
next
  fix t a i t' assume *: "conn_table_ok t" "conn_acquire a t = Some (i, t')"
  from * show "i < conn_max_slots t \<and> \<not> slot_active t i"
    by (rule conn_acquire_Some) (simp add: conn_max_slots_def)
  from * show "slot_active t' = (slot_active t)(i := True)"
    by (rule conn_acquire_Some) (auto simp: slot_active_def fun_eq_iff nth_list_update)
  from * show "conn_max_slots t' = conn_max_slots t"
    by (rule conn_acquire_Some) (simp add: conn_max_slots_def)
  from * show "conn_table_ok t'"
    by (rule conn_acquire_Some) (auto intro!: conn_table_ok_activate *(1))
next
  fix t a i assume "conn_table_ok t" "conn_acquire a t = None" "i < conn_max_slots t"
  then show "slot_active t i"
    by (cases rule: conn_allocate_with_cases
        [OF \<open>conn_table_ok t\<close>, where act = "if a then conn_activate_outbound else conn_activate"])
      (auto simp: conn_acquire_conv conn_max_slots_def conn_table_ok_def dest: free_list_ok_empty)
next
  fix t i assume *: "conn_table_ok t" "slot_active t i"
  show "slot_active (conn_release i t) = (slot_active t)(i := False)" by (rule slot_active_release)
  show "conn_max_slots (conn_release i t) = conn_max_slots t"
    by (simp add: conn_max_slots_def)
  show "conn_table_ok (conn_release i t)" using *(1) by (rule conn_release_ok)
next
  fix t i assume "\<not> slot_active t i"
  then show "conn_release i t = t" by (rule conn_release_idle)
qed

subsection \<open>Runs of the table\<close>

fun is_release_of :: "nat \<Rightarrow> conn_event \<Rightarrow> bool" where
  "is_release_of idx (EvRelease j) = (j = idx)"
| "is_release_of idx _ = False"

definition releases_of :: "nat \<Rightarrow> conn_event list \<Rightarrow> nat" where
  "releases_of idx es = length (filter (is_release_of idx) es)"

lemma conn_alloc_progress:
  assumes ok: "conn_table_ok t" and act: "\<And>c. cs_active (act c)" and e: "e = EvAllocate \<or> e = EvAllocateOutbound"
  shows "\<exists>r t'. conn_allocate_with act t = Ret (r, t') \<and> conn_table_ok t' \<and> length (ct_slots t') = length (ct_slots t)
    \<and> conn_answer_ok (length (ct_slots t)) {i. slot_active t i} e r
    \<and> {i. slot_active t' i} = conn_held {i. slot_active t i} e r"
  using ok
proof (cases rule: conn_allocate_with_cases [of t act, case_names full slot, consumes 1])
  case full
  have "free_list_ok (length (ct_slots t)) (slot_active t) []" using ok full(2) by (simp add: conn_table_ok_def)
  then have "slot_active t i \<longleftrightarrow> i < length (ct_slots t)" for i
    using free_list_ok_empty slot_active_def by blast
  then have "{i. slot_active t i} = {..<length (ct_slots t)}" by auto
  then have "conn_answer_ok (length (ct_slots t)) {i. slot_active t i} e None"
    using e conn_answer_ok.simps(5,6) by metis
  moreover have "conn_held {i. slot_active t i} e None = {i. slot_active t i}" using e by auto
  ultimately show ?thesis using full(1) ok by (intro exI [of _ None] exI [of _ t]) simp
next
  case (slot idx fl)
  let ?t = "t\<lparr>ct_free_list := fl, ct_slots := (ct_slots t)[idx := act (ct_slots t ! idx)]\<rparr>"
  have "{i. slot_active ?t i} = insert idx {i. slot_active t i}"
    using slot(2) act by (auto simp: slot_active_def nth_list_update)
  moreover have "conn_held {i. slot_active t i} e (Some idx) = insert idx {i. slot_active t i}" using e by auto
  moreover have "conn_answer_ok (length (ct_slots t)) {i. slot_active t i} e (Some idx)" using slot(2,3) e by auto
  ultimately show ?thesis
    using slot(4) conn_table_ok_activate [OF ok slot(1), of act] act by (intro exI [of _ "Some idx"] exI [of _ ?t]) simp
qed

lemma conn_step_progress:
  assumes "conn_table_ok t" "conn_event_ok e"
  obtains r t' where "conn_step e t = Ret (r, t')" "conn_table_ok t'" "length (ct_slots t') = length (ct_slots t)"
    "conn_answer_ok (length (ct_slots t)) {i. slot_active t i} e r"
    "{i. slot_active t' i} = conn_held {i. slot_active t i} e r"
proof -
  have "\<exists>r t'. conn_step e t = Ret (r, t') \<and> conn_table_ok t' \<and> length (ct_slots t') = length (ct_slots t)
    \<and> conn_answer_ok (length (ct_slots t)) {i. slot_active t i} e r
    \<and> {i. slot_active t' i} = conn_held {i. slot_active t i} e r"
  proof (cases e)
    case EvAllocate
    then show ?thesis using conn_alloc_progress [OF assms(1), of conn_activate e] by (simp add: conn_allocate_def)
  next
    case EvAllocateOutbound
    then show ?thesis using conn_alloc_progress [OF assms(1), of conn_activate_outbound e] by (simp add: conn_allocate_outbound_def)
  next
    case (EvRelease idx)
    then show ?thesis using assms by (auto simp: conn_release_ok slot_active_release split: if_splits)
  next
    case (EvWrite idx f)
    have "length (ct_slots (conn_get_mut idx f t)) = length (ct_slots t)" by (simp add: conn_get_mut_def split: option.split)
    then show ?thesis using EvWrite assms conn_get_mut_ok [of t f idx] conn_get_mut_slot_active [of f idx t] by simp
  qed
  then show ?thesis using that by blast
qed

lemma conn_step_ok:
  "conn_table_ok t \<Longrightarrow> conn_event_ok e \<Longrightarrow> conn_step e t = Ret (r, t') \<Longrightarrow>
   conn_table_ok t' \<and> length (ct_slots t') = length (ct_slots t)"
  by (rule conn_step_progress) auto

lemma conn_run_progress:
  "conn_table_ok t \<Longrightarrow> list_all conn_event_ok es \<Longrightarrow>
   \<exists>rs t'. conn_run es t = Ret (rs, t') \<and> conn_table_ok t' \<and> length (ct_slots t') = length (ct_slots t)
     \<and> conn_trace_ok (length (ct_slots t)) {i. slot_active t i} es rs {i. slot_active t' i}"
proof (induction es arbitrary: t)
  case (Cons e es)
  from Cons.prems obtain r t' where "conn_step e t = Ret (r, t')" "conn_table_ok t'"
    "length (ct_slots t') = length (ct_slots t)" "conn_answer_ok (length (ct_slots t)) {i. slot_active t i} e r"
    "{i. slot_active t' i} = conn_held {i. slot_active t i} e r"
    by (auto elim: conn_step_progress)
  then show ?case using Cons.IH [of t'] Cons.prems by auto
qed simp

lemma conn_active_count_card:
  "conn_table_ok t \<Longrightarrow> conn_active_count t = card {i. slot_active t i}"
  using free_list_ok_count [of "length (ct_slots t)" "slot_active t" "ct_free_list t"]
  by (simp add: conn_table_ok_def conn_active_count_def slot_active_def)

text \<open>
  C2. Soundness of the connection table: from a fresh table of \<open>n\<close> slots, any sequence of
  accepts, outbound connects, releases (of any index, repeated or out of range) and driver
  writes runs without an index panic. Every index an allocator hands out is below \<open>n\<close> and
  is held by nobody at that moment (it was never handed out, or was released since), and an
  allocator refuses only when all \<open>n\<close> slots are held. At the end the active slots are
  exactly those handed out and not released, the free list agrees with the activity flags,
  every free slot is reset apart from its generation, and \<open>active_count\<close> is the number of
  active slots.
\<close>

theorem conn_table_run_sound:
  assumes "list_all conn_event_ok es"
  shows "\<exists>rs t. conn_run es (conn_table_new n) = Ret (rs, t) \<and> conn_table_ok t
     \<and> conn_max_slots t = n \<and> conn_trace_ok n {} es rs {i. slot_active t i}
     \<and> conn_active_count t = card {i. slot_active t i}"
proof -
  have "{i. slot_active (conn_table_new n) i} = {}" by (auto simp: slot_active_def conn_table_new_def conn_state_new_def)
  then show ?thesis
    using conn_run_progress [OF conn_table_new_ok assms, of n]
    by (auto simp: conn_active_count_card conn_max_slots_def conn_table_new_def)
qed

theorem conn_table_run_sound_witness:
  "\<exists>rs t. conn_run [EvAllocate, EvRelease 0, EvRelease 0, EvRelease 7, EvAllocateOutbound,
       EvWrite 0 (cs_established_update (\<lambda>_. True)), EvAllocate, EvAllocate] (conn_table_new 2) = Ret (rs, t)
     \<and> conn_table_ok t \<and> conn_max_slots t = 2
     \<and> conn_trace_ok 2 {} [EvAllocate, EvRelease 0, EvRelease 0, EvRelease 7, EvAllocateOutbound,
       EvWrite 0 (cs_established_update (\<lambda>_. True)), EvAllocate, EvAllocate] rs {i. slot_active t i}
     \<and> conn_active_count t = card {i. slot_active t i}"
  by (rule conn_table_run_sound) (simp add: keeps_slot_identity_def)

subsection \<open>Generations\<close>

abbreviation gen_of :: "ConnectionTable \<Rightarrow> nat \<Rightarrow> u32" where
  "gen_of t i \<equiv> cs_generation (ct_slots t ! i)"

lemma conn_step_generation:
  assumes "conn_table_ok t" "conn_event_ok e" "conn_step e t = Ret (r, t')" "idx < length (ct_slots t)"
  shows "gen_of t' idx = (if is_release_of idx e \<and> slot_active t idx then gen_of t idx + 1 else gen_of t idx)"
proof -
  have alloc: "gen_of t' idx = gen_of t idx"
    if "conn_allocate_with act t = Ret (r, t')"
      "\<And>c. cs_generation (act c) = cs_generation c" for act
    using that
    by (rule_tac act = act in conn_allocate_with_cases [OF assms(1)]) (auto simp: nth_list_update)
  show ?thesis
  proof (cases e)
    case (EvRelease j)
    then show ?thesis
      using assms by (auto simp: conn_release_def slot_active_def nth_list_update conn_deactivate_def)
  next
    case (EvWrite j f)
    then show ?thesis
      using assms by (auto simp: conn_get_mut_def conn_get_def nth_list_update keeps_slot_identity_def split: option.splits if_splits)
  qed (use assms alloc in \<open>auto simp: conn_allocate_def conn_allocate_outbound_def\<close>)
qed

lemma conn_step_stays_active:
  assumes "conn_table_ok t" "conn_event_ok e" "conn_step e t = Ret (r, t')" "slot_active t idx" "\<not> is_release_of idx e"
  shows "slot_active t' idx"
proof -
  have alloc: "slot_active t' idx"
    if "conn_allocate_with act t = Ret (r, t')" "\<And>c. cs_active (act c)" for act
    using that assms(4)
    by (rule_tac act = act in conn_allocate_with_cases [OF assms(1)]) (auto simp: slot_active_def nth_list_update)
  show ?thesis
    using assms alloc
    by (cases e) (auto simp: conn_allocate_def conn_allocate_outbound_def slot_active_release conn_get_mut_slot_active)
qed

text \<open>The generation of a slot counts the releases that found it active.\<close>

lemma conn_run_generation:
  assumes "conn_table_ok t" "list_all conn_event_ok es" "conn_run es t = Ret (rs, t')" "idx < length (ct_slots t)"
  shows "\<exists>k. gen_of t' idx = gen_of t idx + of_nat k \<and> k \<le> releases_of idx es
      \<and> (slot_active t idx \<longrightarrow> (k = 0 \<longleftrightarrow> releases_of idx es = 0))"
  using assms
proof (induction es arbitrary: t rs)
  case Nil
  then show ?case by (auto simp: releases_of_def intro!: exI [of _ 0])
next
  case (Cons e es)
  from Cons.prems obtain r t1 rs1 where t1: "conn_step e t = Ret (r, t1)" "conn_run es t1 = Ret (rs1, t')"
    by (auto simp: outcome_bind_Ret_iff)
  have ok1: "conn_table_ok t1" "length (ct_slots t1) = length (ct_slots t)"
    using Cons.prems t1 by (auto dest: conn_step_ok)
  from Cons.IH [OF ok1(1) _ t1(2)] Cons.prems ok1(2)
  obtain k where k: "gen_of t' idx = gen_of t1 idx + of_nat k" "k \<le> releases_of idx es"
    "slot_active t1 idx \<longrightarrow> (k = 0 \<longleftrightarrow> releases_of idx es = 0)" by auto
  show ?case
  proof (cases "is_release_of idx e \<and> slot_active t idx")
    case True
    then have "gen_of t1 idx = gen_of t idx + 1"
      using conn_step_generation [OF Cons.prems(1) _ t1(1)] Cons.prems by auto
    with True k show ?thesis
      by (intro exI [of _ "Suc k"]) (auto simp: releases_of_def)
  next
    case False
    then have "gen_of t1 idx = gen_of t idx"
      using conn_step_generation [OF Cons.prems(1) _ t1(1)] Cons.prems by auto
    moreover have "slot_active t idx \<Longrightarrow> slot_active t1 idx"
      using False conn_step_stays_active [OF Cons.prems(1) _ t1(1)] Cons.prems by auto
    ultimately show ?thesis
      using False k by (intro exI [of _ k]) (auto simp: releases_of_def)
  qed
qed

text \<open>
  C3. Stale handles are recognised: a handle that recorded the generation \<open>g\<close> of an
  active slot passes the generation check after a sequence of table operations exactly
  when that slot has not been released in between, as long as the slot is released fewer
  than 2^32 times meanwhile (the width of the counter).
\<close>

theorem conn_generation_detects_reuse:
  assumes "conn_table_ok t" "list_all conn_event_ok es" "slot_active t idx"
    and "conn_generation t idx = Ret g" "releases_of idx es < 2 ^ 32"
  shows "\<exists>rs t' g'. conn_run es t = Ret (rs, t') \<and> conn_generation t' idx = Ret g'
     \<and> (g' = g \<longleftrightarrow> releases_of idx es = 0)"
proof -
  from assms have i: "idx < length (ct_slots t)" and g: "g = gen_of t idx"
    by (auto simp: slot_active_def conn_generation_def)
  from conn_run_progress [OF assms(1,2)] obtain rs t' where
    t': "conn_run es t = Ret (rs, t')" "length (ct_slots t') = length (ct_slots t)" by auto
  from conn_run_generation [OF assms(1,2) t'(1) i] assms(3) obtain k where
    k: "gen_of t' idx = g + of_nat k" "k \<le> releases_of idx es" "k = 0 \<longleftrightarrow> releases_of idx es = 0"
    using g by auto
  have "(of_nat k :: u32) = 0 \<longleftrightarrow> k = 0"
    using k(2) assms(5) by (intro of_nat_word_eq_0) simp
  then have "gen_of t' idx = g \<longleftrightarrow> releases_of idx es = 0"
    using k by simp
  then show ?thesis
    using t' i by (auto simp: conn_generation_def)
qed

theorem conn_generation_detects_reuse_witness:
  "\<exists>rs t' g'. conn_run [EvRelease 0, EvAllocate]
        \<lparr>ct_slots = [conn_activate conn_state_new, conn_state_new], ct_free_list = [1]\<rparr> = Ret (rs, t')
     \<and> conn_generation t' 0 = Ret g' \<and> (g' = 0 \<longleftrightarrow> releases_of 0 [EvRelease 0, EvAllocate] = 0)"
proof (rule conn_generation_detects_reuse)
  show "conn_table_ok \<lparr>ct_slots = [conn_activate conn_state_new, conn_state_new], ct_free_list = [1]\<rparr>"
    by (auto simp: conn_table_ok_def free_list_ok_def slot_active_def conn_state_defs less_Suc_eq)
qed (simp_all add: slot_active_def conn_generation_def conn_state_defs releases_of_def)

end
