(* ===== verification/Send_Chain.thy ===== *)
theory Send_Chain
  imports Rust_Prelude
begin

section \<open>Linked send chains (\<open>ringline/src/chain.rs\<close>)\<close>

text \<open>
  Submissions linked with \<open>IOSQE_IO_LINK\<close> produce one completion each, and a zero-copy
  send a second, notification, completion. The table tracks one chain per connection and
  reports the aggregate once. A completion result is an \<open>i32\<close>: a byte count or a negative
  error number, modelled as an \<open>int\<close> (the cast \<open>result as u32\<close> is \<open>word_of_int\<close>).
\<close>

datatype ChainEvent = ChainPending | ChainAllOpsComplete | ChainComplete u32 "int option"

record ChainState =
  ch_total_sqes :: u16
  ch_cqes_received :: u16
  ch_bytes_sent :: u32
  ch_total_bytes :: u32
  ch_broken :: bool
  ch_first_error :: "int option"
  ch_zc_notifs_pending :: u16

type_synonym SendChainTable = "ChainState option list"

definition chain_is_complete :: "ChainState \<Rightarrow> bool" where
  "chain_is_complete c \<longleftrightarrow> ch_cqes_received c = ch_total_sqes c \<and> ch_zc_notifs_pending c = 0"

definition chain_to_event :: "ChainState \<Rightarrow> ChainEvent" where
  "chain_to_event c =
     (if chain_is_complete c then ChainComplete (ch_bytes_sent c) (ch_first_error c)
      else if ch_cqes_received c = ch_total_sqes c then ChainAllOpsComplete
      else ChainPending)"

definition chain_table_new :: "nat \<Rightarrow> SendChainTable" where
  "chain_table_new max_connections = replicate max_connections None"

definition chain_start :: "profile \<Rightarrow> nat \<Rightarrow> u16 \<Rightarrow> u32 \<Rightarrow> SendChainTable \<Rightarrow> SendChainTable outcome" where
  "chain_start dbg conn total_sqes total_bytes t =
     (if conn < length t then
        debug_assert dbg (t ! conn = None)
          (Ret (t[conn := Some \<lparr>ch_total_sqes = total_sqes, ch_cqes_received = 0, ch_bytes_sent = 0,
             ch_total_bytes = total_bytes, ch_broken = False, ch_first_error = None,
             ch_zc_notifs_pending = 0\<rparr>]))
      else debug_assert dbg False (Ret t))"

definition chain_is_active :: "nat \<Rightarrow> SendChainTable \<Rightarrow> bool" where
  "chain_is_active conn t \<longleftrightarrow> conn < length t \<and> t ! conn \<noteq> None"

definition chain_on_operation_cqe :: "profile \<Rightarrow> nat \<Rightarrow> int \<Rightarrow> SendChainTable \<Rightarrow> (ChainEvent \<times> SendChainTable) outcome" where
  "chain_on_operation_cqe dbg conn result t =
     (if conn < length t then
        (case t ! conn of
           None \<Rightarrow> Ret (ChainPending, t)
         | Some c \<Rightarrow>
             arith_add dbg (ch_cqes_received c) 1 (\<lambda>received.
               let c1 = c\<lparr>ch_cqes_received := received\<rparr> in
               if 0 \<le> result then
                 arith_add dbg (ch_bytes_sent c1) (word_of_int result) (\<lambda>sent.
                   let c2 = c1\<lparr>ch_bytes_sent := sent\<rparr> in
                   Ret (chain_to_event c2, t[conn := Some c2]))
               else
                 let c2 = c1\<lparr>ch_broken := True,
                     ch_first_error := (if ch_first_error c1 = None then Some result else ch_first_error c1)\<rparr> in
                 Ret (chain_to_event c2, t[conn := Some c2])))
      else Ret (ChainPending, t))"

definition chain_inc_zc_notif :: "profile \<Rightarrow> nat \<Rightarrow> SendChainTable \<Rightarrow> SendChainTable outcome" where
  "chain_inc_zc_notif dbg conn t =
     (if conn < length t then
        (case t ! conn of
           None \<Rightarrow> Ret t
         | Some c \<Rightarrow> arith_add dbg (ch_zc_notifs_pending c) 1
             (\<lambda>n. Ret (t[conn := Some (c\<lparr>ch_zc_notifs_pending := n\<rparr>)])))
      else Ret t)"

definition chain_on_notif_cqe :: "profile \<Rightarrow> nat \<Rightarrow> SendChainTable \<Rightarrow> (ChainEvent \<times> SendChainTable) outcome" where
  "chain_on_notif_cqe dbg conn t =
     (if conn < length t then
        (case t ! conn of
           None \<Rightarrow> Ret (ChainPending, t)
         | Some c \<Rightarrow>
             debug_assert dbg (0 < ch_zc_notifs_pending c)
               (arith_sub dbg (ch_zc_notifs_pending c) 1 (\<lambda>n.
                  let c1 = c\<lparr>ch_zc_notifs_pending := n\<rparr> in
                  Ret (chain_to_event c1, t[conn := Some c1]))))
      else Ret (ChainPending, t))"

definition chain_take :: "nat \<Rightarrow> SendChainTable \<Rightarrow> ChainState option \<times> SendChainTable" where
  "chain_take conn t = (if conn < length t then (t ! conn, t[conn := None]) else (None, t))"

definition chain_cancel :: "nat \<Rightarrow> SendChainTable \<Rightarrow> u32 \<times> SendChainTable" where
  "chain_cancel conn t =
     (case chain_take conn t of
        (Some c, t') \<Rightarrow> (ch_total_bytes c, t')
      | (None, t') \<Rightarrow> (0, t'))"

subsection \<open>Completion sequences\<close>

text \<open>
  The completion handler of a zero-copy send announces the expected notification before it
  records the operation result; a notification completion arrives later.
\<close>

datatype chain_cqe = OpCqe int | ZcAnnounce | NotifCqe

fun chain_feed1 :: "profile \<Rightarrow> nat \<Rightarrow> chain_cqe \<Rightarrow> SendChainTable \<Rightarrow> (ChainEvent option \<times> SendChainTable) outcome" where
  "chain_feed1 dbg conn (OpCqe r) t =
     outcome_bind (chain_on_operation_cqe dbg conn r t) (\<lambda>(e, t'). Ret (Some e, t'))"
| "chain_feed1 dbg conn ZcAnnounce t = outcome_bind (chain_inc_zc_notif dbg conn t) (\<lambda>t'. Ret (None, t'))"
| "chain_feed1 dbg conn NotifCqe t =
     outcome_bind (chain_on_notif_cqe dbg conn t) (\<lambda>(e, t'). Ret (Some e, t'))"

fun chain_feed :: "profile \<Rightarrow> nat \<Rightarrow> chain_cqe list \<Rightarrow> SendChainTable \<Rightarrow> (ChainEvent list \<times> SendChainTable) outcome" where
  "chain_feed dbg conn [] t = Ret ([], t)"
| "chain_feed dbg conn (q # qs) t =
     outcome_bind (chain_feed1 dbg conn q t) (\<lambda>(e, t').
       outcome_bind (chain_feed dbg conn qs t') (\<lambda>(es, t''). Ret (case e of None \<Rightarrow> es | Some x \<Rightarrow> x # es, t'')))"

text \<open>What the sequence itself says: operations seen, bytes written, first failure, notifications outstanding.\<close>

fun op_results :: "chain_cqe list \<Rightarrow> int list" where
  "op_results [] = []"
| "op_results (OpCqe r # qs) = r # op_results qs"
| "op_results (_ # qs) = op_results qs"

definition bytes_of :: "int list \<Rightarrow> nat" where
  "bytes_of rs = sum_list (map nat (filter (\<lambda>r. 0 \<le> r) rs))"

definition first_failure :: "int list \<Rightarrow> int option" where
  "first_failure rs = find (\<lambda>r. r < 0) rs"

fun notifs_outstanding :: "chain_cqe list \<Rightarrow> nat \<Rightarrow> nat option" where
  "notifs_outstanding [] n = Some n"
| "notifs_outstanding (ZcAnnounce # qs) n = notifs_outstanding qs (Suc n)"
| "notifs_outstanding (NotifCqe # qs) n = (if n = 0 then None else notifs_outstanding qs (n - 1))"
| "notifs_outstanding (OpCqe r # qs) n = notifs_outstanding qs n"

fun announced :: "chain_cqe list \<Rightarrow> nat" where
  "announced [] = 0"
| "announced (ZcAnnounce # qs) = Suc (announced qs)"
| "announced (_ # qs) = announced qs"

definition chain_after :: "u16 \<Rightarrow> u32 \<Rightarrow> int list \<Rightarrow> nat \<Rightarrow> bool \<Rightarrow> ChainState" where
  "chain_after total_sqes total_bytes rs notifs broken =
     \<lparr>ch_total_sqes = total_sqes, ch_cqes_received = of_nat (length rs), ch_bytes_sent = of_nat (bytes_of rs),
      ch_total_bytes = total_bytes, ch_broken = broken, ch_first_error = first_failure rs,
      ch_zc_notifs_pending = of_nat notifs\<rparr>"

lemma bytes_of_append: "bytes_of (xs @ ys) = bytes_of xs + bytes_of ys"
  by (simp add: bytes_of_def)

lemma bytes_of_single: "bytes_of [r] = (if 0 \<le> r then nat r else 0)"
  by (simp add: bytes_of_def)

lemma first_failure_snoc:
  "first_failure (rs @ [r]) = (case first_failure rs of None \<Rightarrow> (if r < 0 then Some r else None) | Some e \<Rightarrow> Some e)"
  by (induction rs) (auto simp: first_failure_def)

lemma first_failure_broken: "first_failure rs = None \<longleftrightarrow> (\<forall>r \<in> set rs. 0 \<le> r)"
  by (induction rs) (auto simp: first_failure_def)

lemma add_result:
  assumes "0 \<le> r" "bytes_of (rs @ [r]) < 2 ^ 32"
  shows "arith_add dbg (of_nat (bytes_of rs) :: u32) (word_of_int r) k = k (of_nat (bytes_of (rs @ [r])))"
proof -
  have "(word_of_int r :: u32) = of_nat (nat r)" using assms(1) by simp
  moreover have "bytes_of (rs @ [r]) = bytes_of rs + nat r"
    using assms(1) by (simp only: bytes_of_append bytes_of_single if_True)
  ultimately show ?thesis using assms(2) arith_add_of_nat [of "bytes_of rs" "nat r" dbg k] by simp
qed

lemma feed_op:
  assumes "conn < length t" "t ! conn = Some (chain_after n b rs z (\<exists>r \<in> set rs. r < 0))"
    and "Suc (length rs) < 2 ^ 16" "bytes_of (rs @ [r]) < 2 ^ 32"
  shows "chain_on_operation_cqe dbg conn r t =
    (let c = chain_after n b (rs @ [r]) z (\<exists>r' \<in> set (rs @ [r]). r' < 0) in
     Ret (chain_to_event c, t[conn := Some c]))"
proof -
  have rec: "arith_add dbg (of_nat (length rs) :: u16) 1 k = k (of_nat (Suc (length rs)))" for k :: "u16 \<Rightarrow> 'b outcome"
    using assms(3) by (intro arith_add_one) simp
  show ?thesis
  proof (cases "0 \<le> r")
    case True
    have "first_failure (rs @ [r]) = first_failure rs"
      using True by (auto simp: first_failure_snoc split: option.splits)
    moreover have "(\<exists>r' \<in> set (rs @ [r]). r' < 0) = (\<exists>r \<in> set rs. r < 0)" using True by auto
    ultimately show ?thesis
      using assms(1,2) True
      by (simp add: chain_on_operation_cqe_def chain_after_def Let_def rec add_result [OF True assms(4)] del: of_nat_Suc)
  next
    case False
    then have "bytes_of (rs @ [r]) = bytes_of rs" "(\<exists>r' \<in> set (rs @ [r]). r' < 0) = True"
      by (auto simp: bytes_of_append bytes_of_single)
    moreover have "first_failure (rs @ [r]) = (if first_failure rs = None then Some r else first_failure rs)"
      using False by (auto simp: first_failure_snoc split: option.splits)
    ultimately show ?thesis
      using assms(1,2) False by (simp add: chain_on_operation_cqe_def chain_after_def Let_def rec del: of_nat_Suc)
  qed
qed

abbreviation chain_at :: "SendChainTable \<Rightarrow> nat \<Rightarrow> u16 \<Rightarrow> u32 \<Rightarrow> int list \<Rightarrow> nat \<Rightarrow> bool" where
  "chain_at t conn n b rs z \<equiv> conn < length t \<and> t ! conn = Some (chain_after n b rs z (\<exists>r \<in> set rs. r < 0))"

lemma feed_announce:
  assumes "chain_at t conn n b rs z" "Suc z < 2 ^ 16"
  shows "chain_inc_zc_notif dbg conn t = Ret (t[conn := Some (chain_after n b rs (Suc z) (\<exists>r \<in> set rs. r < 0))])"
proof -
  have "arith_add dbg (of_nat z :: u16) 1 k = k (of_nat (Suc z))" for k :: "u16 \<Rightarrow> 'b outcome"
    using assms(2) by (intro arith_add_one) simp
  then show ?thesis using assms(1) by (simp add: chain_inc_zc_notif_def chain_after_def del: of_nat_Suc)
qed

lemma feed_notif:
  assumes "chain_at t conn n b rs z" "0 < z" "z < 2 ^ 16"
  shows "chain_on_notif_cqe dbg conn t =
    (let c = chain_after n b rs (z - 1) (\<exists>r \<in> set rs. r < 0) in Ret (chain_to_event c, t[conn := Some c]))"
proof -
  have "arith_sub dbg (of_nat z :: u16) 1 k = k (of_nat (z - 1))" for k :: "u16 \<Rightarrow> 'b outcome"
    using assms(2,3) by (intro arith_sub_one) simp_all
  moreover have "0 < (of_nat z :: u16)"
    using assms(2,3) of_nat_word_less_iff [of 0 z, where 'l = 16] by simp
  ultimately show ?thesis
    using assms(1) by (simp add: chain_on_notif_cqe_def chain_after_def Let_def)
qed

subsection \<open>The reported events\<close>

text \<open>The event a chain of \<open>n\<close> operations reports once the results \<open>rs\<close> are in and \<open>z\<close> notifications are out.\<close>

definition chain_event :: "nat \<Rightarrow> int list \<Rightarrow> nat \<Rightarrow> ChainEvent" where
  "chain_event n rs z =
     (if length rs = n \<and> z = 0 then ChainComplete (of_nat (bytes_of rs)) (first_failure rs)
      else if length rs = n then ChainAllOpsComplete else ChainPending)"

fun chain_events :: "nat \<Rightarrow> int list \<Rightarrow> nat \<Rightarrow> chain_cqe list \<Rightarrow> ChainEvent list" where
  "chain_events n rs z [] = []"
| "chain_events n rs z (OpCqe r # qs) = chain_event n (rs @ [r]) z # chain_events n (rs @ [r]) z qs"
| "chain_events n rs z (ZcAnnounce # qs) = chain_events n rs (Suc z) qs"
| "chain_events n rs z (NotifCqe # qs) = chain_event n rs (z - 1) # chain_events n rs (z - 1) qs"

lemma chain_to_event_after:
  assumes "length rs < 2 ^ 16" "n < 2 ^ 16" "z < 2 ^ 16"
  shows "chain_to_event (chain_after (of_nat n) b rs z br) = chain_event n rs z"
proof -
  have "(of_nat (length rs) :: u16) = of_nat n \<longleftrightarrow> length rs = n"
    using assms by (intro of_nat_word_eq_iff) simp_all
  moreover have "(of_nat z :: u16) = 0 \<longleftrightarrow> z = 0"
    using assms by (intro of_nat_word_eq_0) simp
  ultimately show ?thesis
    by (simp add: chain_to_event_def chain_is_complete_def chain_after_def chain_event_def)
qed

lemma chain_feed_events:
  assumes "chain_at t conn (of_nat n) b rs z" "n < 2 ^ 16"
    and "length rs + length (op_results qs) < 2 ^ 16" "bytes_of (rs @ op_results qs) < 2 ^ 32"
    and "notifs_outstanding qs z = Some z'" "z + announced qs < 2 ^ 16"
  shows "chain_feed dbg conn qs t = Ret (chain_events n rs z qs,
     t[conn := Some (chain_after (of_nat n) b (rs @ op_results qs) z' (\<exists>r \<in> set (rs @ op_results qs). r < 0))])"
  using assms
proof (induction qs arbitrary: t rs z)
  case Nil
  then show ?case using list_update_id [of t conn] by simp
next
  case (Cons q qs)
  show ?case
  proof (cases q)
    case (OpCqe r)
    have b: "bytes_of (rs @ [r]) < 2 ^ 32"
      using Cons.prems(4) OpCqe bytes_of_append [of "rs @ [r]" "op_results qs"] by simp
    have "chain_on_operation_cqe dbg conn r t =
        Ret (chain_event n (rs @ [r]) z, t[conn := Some (chain_after (of_nat n) b (rs @ [r]) z (\<exists>r' \<in> set (rs @ [r]). r' < 0))])"
      using Cons.prems OpCqe by (subst feed_op [OF _ _ _ b]) (auto simp: chain_to_event_after Let_def)
    then show ?thesis
      using Cons.prems OpCqe
        Cons.IH [of "t[conn := Some (chain_after (of_nat n) b (rs @ [r]) z (\<exists>r' \<in> set (rs @ [r]). r' < 0))]" "rs @ [r]" z]
      by simp
  next
    case ZcAnnounce
    have "chain_inc_zc_notif dbg conn t = Ret (t[conn := Some (chain_after (of_nat n) b rs (Suc z) (\<exists>r \<in> set rs. r < 0))])"
      using Cons.prems ZcAnnounce by (intro feed_announce) auto
    then show ?thesis
      using Cons.prems ZcAnnounce
        Cons.IH [of "t[conn := Some (chain_after (of_nat n) b rs (Suc z) (\<exists>r \<in> set rs. r < 0))]" rs "Suc z"]
      by simp
  next
    case NotifCqe
    then have "0 < z" using Cons.prems(5) by (simp split: if_splits)
    then have "chain_on_notif_cqe dbg conn t = Ret (chain_event n rs (z - 1),
        t[conn := Some (chain_after (of_nat n) b rs (z - 1) (\<exists>r \<in> set rs. r < 0))])"
      using Cons.prems feed_notif [of conn t "of_nat n" b rs z dbg] by (auto simp: chain_to_event_after Let_def)
    then show ?thesis
      using Cons.prems NotifCqe \<open>0 < z\<close>
        Cons.IH [of "t[conn := Some (chain_after (of_nat n) b rs (z - 1) (\<exists>r \<in> set rs. r < 0))]" rs "z - 1"]
      by simp
  qed
qed

lemma chain_events_append:
  "notifs_outstanding xs z = Some z' \<Longrightarrow>
   chain_events n rs z (xs @ ys) = chain_events n rs z xs @ chain_events n (rs @ op_results xs) z' ys"
proof (induction xs arbitrary: rs z)
  case (Cons q xs)
  then show ?case by (cases q) (auto split: if_splits)
qed simp

lemma notifs_outstanding_append:
  "notifs_outstanding (xs @ ys) z = Option.bind (notifs_outstanding xs z) (notifs_outstanding ys)"
  by (induction xs z rule: notifs_outstanding.induct) auto

lemma op_results_append: "op_results (xs @ ys) = op_results xs @ op_results ys"
  by (induction xs rule: op_results.induct) auto

lemma announced_append: "announced (xs @ ys) = announced xs + announced ys"
  by (induction xs rule: announced.induct) auto

lemma op_results_notifs [simp]: "op_results (replicate m NotifCqe) = []" "announced (replicate m NotifCqe) = 0"
  by (induction m) auto

lemma notifs_outstanding_notifs:
  "notifs_outstanding (replicate m NotifCqe) z = (if m \<le> z then Some (z - m) else None)"
  by (induction m arbitrary: z) auto

lemma chain_events_pending:
  "length rs + length (op_results qs) < n \<Longrightarrow> \<forall>e \<in> set (chain_events n rs z qs). e = ChainPending"
  by (induction n rs z qs rule: chain_events.induct) (auto simp: chain_event_def)

lemma chain_events_drain:
  "chain_events (length rs) rs (Suc m) (replicate (Suc m) NotifCqe) =
   replicate m ChainAllOpsComplete @ [ChainComplete (of_nat (bytes_of rs)) (first_failure rs)]"
  by (induction m) (simp_all add: chain_event_def)

lemma chain_events_last_op:
  "Suc (length rs) = n \<Longrightarrow>
   \<exists>es. chain_events n rs m (OpCqe r # replicate m NotifCqe) =
         es @ [ChainComplete (of_nat (bytes_of (rs @ [r]))) (first_failure (rs @ [r]))] \<and>
       set es \<subseteq> {ChainPending, ChainAllOpsComplete}"
proof (cases m)
  case 0
  then show "Suc (length rs) = n \<Longrightarrow> ?thesis" by (simp add: chain_event_def)
next
  case (Suc k)
  assume n: "Suc (length rs) = n"
  have "chain_events n rs m (OpCqe r # replicate m NotifCqe) = ChainAllOpsComplete # replicate k ChainAllOpsComplete @
      [ChainComplete (of_nat (bytes_of (rs @ [r]))) (first_failure (rs @ [r]))]"
    using n Suc chain_events_drain [of "rs @ [r]" k] by (simp add: chain_event_def del: replicate_Suc)
  then show ?thesis
    by (intro exI [of _ "ChainAllOpsComplete # replicate k ChainAllOpsComplete"]) auto
qed

text \<open>
  C4. A send chain completes exactly once, with the right totals. Start a chain of \<open>n\<close> linked
  operations on an idle connection and feed it any completions of the first \<open>n - 1\<close>
  operations (with their announcements and whatever notifications have already come), the
  last operation's completion, and the notifications still owed, in a sequence where no
  notification precedes its announcement and the counters' widths are respected. Then no
  step panics in any build; the last event is \<open>Complete\<close> with the sum of the non-negative
  results and the first negative one; no earlier event is \<open>Complete\<close>; other connections'
  chains are untouched; and \<open>take\<close> afterwards leaves the connection idle.
\<close>

theorem send_chain_completes_once:
  assumes "conn < length t" "t ! conn = None" "n < 2 ^ 16"
    and qs: "qs = pre @ OpCqe r # replicate m NotifCqe"
    and "Suc (length (op_results pre)) = n"
    and "notifs_outstanding pre 0 = Some m" "announced pre < 2 ^ 16"
    and "bytes_of (op_results qs) < 2 ^ 32"
  shows "\<exists>es t'. outcome_bind (chain_start dbg conn (of_nat n) nbytes t) (chain_feed dbg conn qs) =
        Ret (es @ [ChainComplete (of_nat (bytes_of (op_results qs))) (first_failure (op_results qs))], t') \<and>
      set es \<subseteq> {ChainPending, ChainAllOpsComplete} \<and>
      (\<forall>c. c \<noteq> conn \<longrightarrow> t' ! c = t ! c) \<and> snd (chain_take conn t') = t"
proof -
  define t0 where "t0 = t[conn := Some (chain_after (of_nat n) nbytes [] 0 False)]"
  have start: "chain_start dbg conn (of_nat n) nbytes t = Ret t0"
    using assms(1,2) by (simp add: chain_start_def t0_def chain_after_def bytes_of_def first_failure_def debug_assert_def)
  have results: "op_results qs = op_results pre @ [r]" by (simp add: qs op_results_append)
  obtain es where es: "chain_events n (op_results pre) m (OpCqe r # replicate m NotifCqe) =
      es @ [ChainComplete (of_nat (bytes_of (op_results qs))) (first_failure (op_results qs))]"
      "set es \<subseteq> {ChainPending, ChainAllOpsComplete}"
    using chain_events_last_op [of "op_results pre" n m r] assms(5) results by auto
  have events: "chain_events n [] 0 qs = (chain_events n [] 0 pre @ es) @
      [ChainComplete (of_nat (bytes_of (op_results qs))) (first_failure (op_results qs))]"
    using chain_events_append [OF assms(6), of n "[]"] es(1) by (simp add: qs)
  have "set (chain_events n [] 0 pre) \<subseteq> {ChainPending}"
    using chain_events_pending [of "[]" pre n 0] assms(5) by auto
  moreover have "chain_feed dbg conn qs t0 = Ret (chain_events n [] 0 qs,
      t0[conn := Some (chain_after (of_nat n) nbytes (op_results qs) 0 (\<exists>r \<in> set (op_results qs). r < 0))])"
    using chain_feed_events [of conn t0 n nbytes "[]" 0 qs 0 dbg] assms results
    by (auto simp: t0_def qs notifs_outstanding_append notifs_outstanding_notifs announced_append)
  ultimately show ?thesis
    using es(2) assms(1,2) list_update_id [of t conn]
    by (intro exI [of _ "chain_events n [] 0 pre @ es"] exI) (auto simp: start events t0_def chain_take_def)
qed

theorem send_chain_completes_once_witness:
  "\<exists>es t'. outcome_bind (chain_start True 0 2 100 (chain_table_new 2))
        (chain_feed True 0 ([ZcAnnounce, OpCqe 60] @ OpCqe (-32) # replicate 1 NotifCqe)) =
        Ret (es @ [ChainComplete 60 (Some (-32))], t') \<and> snd (chain_take 0 t') = chain_table_new 2"
  using send_chain_completes_once [of 0 "chain_table_new 2" 2 _ "[ZcAnnounce, OpCqe 60]" "-32" 1 True 100, OF _ _ _ refl]
  by (auto simp: chain_table_new_def bytes_of_def first_failure_def)

end
