(* ===== verification/Send_Capacity.thy ===== *)
theory Send_Capacity
  imports Rust_Prelude "HOL-Library.Sublist"
begin

section \<open>The bounded-send admission queue (\<open>ringline/src/runtime/send_capacity.rs\<close>)\<close>

text \<open>
  Bounded sends wait in arrival order for copy-pool capacity; only the head may be
  admitted. An admitted operation stays in \<open>submitted\<close> until its future takes the result.
  The operations return the task ids to wake, as in the source. Ids are natural numbers
  below \<open>2 ^ 64\<close> (\<open>checked_add\<close> panics at the end of the id space); connection indices,
  generations and task ids are only compared and masked, so they keep their \<open>u32\<close> width.
\<close>

type_synonym BoundedSendId = nat

text \<open>An \<open>io::Error\<close> is its kind and message; \<open>io::Result<u32>\<close> the number of bytes or an error.\<close>

datatype io_error = IoError string string
type_synonym io_result = "io_error + nat"

definition STANDALONE_BIT :: u32 where
  "STANDALONE_BIT = push_bit 31 1"

record Waiter =
  w_id :: BoundedSendId
  w_conn_index :: u32
  w_generation :: u32
  w_required_slots :: nat
  w_task_id :: u32

datatype Completion = InFlight | Done io_result | Aborted io_error | Abandoned

record Submitted =
  s_id :: BoundedSendId
  s_conn_index :: u32
  s_task_id :: u32
  s_state :: Completion

record SendCapacityQueue =
  scq_waiting :: "Waiter list"
  scq_submitted :: "Submitted list"
  scq_next_id :: nat

definition scq_new :: SendCapacityQueue where
  "scq_new = \<lparr>scq_waiting = [], scq_submitted = [], scq_next_id = 0\<rparr>"

definition connection_aborted :: io_error where
  "connection_aborted = IoError ''ConnectionAborted'' ''connection closed''"

definition scq_enqueue :: "u32 \<Rightarrow> u32 \<Rightarrow> nat \<Rightarrow> u32 \<Rightarrow> SendCapacityQueue \<Rightarrow> (BoundedSendId \<times> SendCapacityQueue) outcome" where
  "scq_enqueue conn_index generation required_slots task_id q =
     (let i = scq_next_id q in
      ensure (scq_next_id q + 1 < 2 ^ 64)
        (Ret (i, q\<lparr>scq_next_id := scq_next_id q + 1,
            scq_waiting := scq_waiting q @ [\<lparr>w_id = i, w_conn_index = conn_index, w_generation = generation,
              w_required_slots = required_slots, w_task_id = task_id\<rparr>]\<rparr>)))"

definition scq_set_owner :: "BoundedSendId \<Rightarrow> u32 \<Rightarrow> SendCapacityQueue \<Rightarrow> SendCapacityQueue" where
  "scq_set_owner i task_id q =
     (case vec_position (\<lambda>w. w_id w = i) (scq_waiting q) of
        Some pos \<Rightarrow> q\<lparr>scq_waiting := (scq_waiting q)[pos := (scq_waiting q ! pos)\<lparr>w_task_id := task_id\<rparr>]\<rparr>
      | None \<Rightarrow>
          (case vec_position (\<lambda>s. s_id s = i) (scq_submitted q) of
             Some pos \<Rightarrow> q\<lparr>scq_submitted := (scq_submitted q)[pos := (scq_submitted q ! pos)\<lparr>s_task_id := task_id\<rparr>]\<rparr>
           | None \<Rightarrow> q))"

definition scq_front :: "SendCapacityQueue \<Rightarrow> Waiter option" where
  "scq_front q = (case scq_waiting q of [] \<Rightarrow> None | w # _ \<Rightarrow> Some w)"

definition scq_turn :: "BoundedSendId \<Rightarrow> nat \<Rightarrow> SendCapacityQueue \<Rightarrow> bool" where
  "scq_turn i free_slots q =
     (case scq_front q of None \<Rightarrow> False | Some head \<Rightarrow> w_id head = i \<and> w_required_slots head \<le> free_slots)"

definition submit_waiter :: "Waiter \<Rightarrow> Completion \<Rightarrow> Submitted" where
  "submit_waiter w st = \<lparr>s_id = w_id w, s_conn_index = w_conn_index w, s_task_id = w_task_id w, s_state = st\<rparr>"

definition scq_mark_submitted :: "BoundedSendId \<Rightarrow> SendCapacityQueue \<Rightarrow> u32 option \<times> SendCapacityQueue" where
  "scq_mark_submitted i q =
     (case vec_position (\<lambda>w. w_id w = i) (scq_waiting q) of
        None \<Rightarrow> (None, q)
      | Some pos \<Rightarrow>
          let w = scq_waiting q ! pos;
              q' = q\<lparr>scq_waiting := vec_remove pos (scq_waiting q),
                     scq_submitted := vec_push (scq_submitted q) (submit_waiter w InFlight)\<rparr>
          in (if pos = 0 then map_option w_task_id (scq_front q') else None, q'))"

definition scq_complete :: "BoundedSendId \<Rightarrow> io_result \<Rightarrow> SendCapacityQueue \<Rightarrow> u32 option \<times> SendCapacityQueue" where
  "scq_complete i result q =
     (case vec_position (\<lambda>s. s_id s = i) (scq_submitted q) of
        None \<Rightarrow> (None, q)
      | Some pos \<Rightarrow>
          let s = scq_submitted q ! pos in
          case s_state s of
            InFlight \<Rightarrow> (Some (s_task_id s), q\<lparr>scq_submitted := (scq_submitted q)[pos := s\<lparr>s_state := Done result\<rparr>]\<rparr>)
          | Aborted _ \<Rightarrow> (Some (s_task_id s), q\<lparr>scq_submitted := (scq_submitted q)[pos := s\<lparr>s_state := Done result\<rparr>]\<rparr>)
          | Abandoned \<Rightarrow> (None, q\<lparr>scq_submitted := vec_swap_remove pos (scq_submitted q)\<rparr>)
          | Done _ \<Rightarrow> (None, q))"

fun resolved :: "Completion \<Rightarrow> io_result option" where
  "resolved (Done r) = Some r"
| "resolved (Aborted e) = Some (Inl e)"
| "resolved InFlight = None"
| "resolved Abandoned = None"

definition scq_take_result :: "BoundedSendId \<Rightarrow> SendCapacityQueue \<Rightarrow> io_result option \<times> SendCapacityQueue" where
  "scq_take_result i q =
     (case vec_position (\<lambda>s. s_id s = i \<and> resolved (s_state s) \<noteq> None) (scq_submitted q) of
        None \<Rightarrow> (None, q)
      | Some pos \<Rightarrow> (resolved (s_state (scq_submitted q ! pos)),
                     q\<lparr>scq_submitted := vec_swap_remove pos (scq_submitted q)\<rparr>))"

definition scq_cancel :: "BoundedSendId \<Rightarrow> SendCapacityQueue \<Rightarrow> u32 option \<times> SendCapacityQueue" where
  "scq_cancel i q =
     (case vec_position (\<lambda>w. w_id w = i) (scq_waiting q) of
        Some pos \<Rightarrow>
          let q' = q\<lparr>scq_waiting := vec_remove pos (scq_waiting q)\<rparr> in
          (if pos = 0 then map_option w_task_id (scq_front q') else None, q')
      | None \<Rightarrow>
          (case vec_position (\<lambda>s. s_id s = i) (scq_submitted q) of
             None \<Rightarrow> (None, q)
           | Some pos \<Rightarrow>
               let s = scq_submitted q ! pos in
               (None,
                case s_state s of
                  InFlight \<Rightarrow> q\<lparr>scq_submitted := (scq_submitted q)[pos := s\<lparr>s_state := Abandoned\<rparr>]\<rparr>
                | Done _ \<Rightarrow> q\<lparr>scq_submitted := vec_swap_remove pos (scq_submitted q)\<rparr>
                | Aborted _ \<Rightarrow> q\<lparr>scq_submitted := vec_swap_remove pos (scq_submitted q)\<rparr>
                | Abandoned \<Rightarrow> q)))"

definition scq_head_ready :: "nat \<Rightarrow> SendCapacityQueue \<Rightarrow> u32 option" where
  "scq_head_ready free_slots q =
     (case scq_front q of
        None \<Rightarrow> None
      | Some head \<Rightarrow> if w_required_slots head \<le> free_slots then Some (w_task_id head) else None)"

text \<open>The closure \<open>dead_owner\<close> of \<open>remove_connection\<close>.\<close>

definition dead_owner :: "u32 \<Rightarrow> u32 \<Rightarrow> u32 \<Rightarrow> bool" where
  "dead_owner conn_index w_conn task_id \<longleftrightarrow>
     w_conn = conn_index \<or> (task_id AND STANDALONE_BIT = 0 \<and> task_id = conn_index)"

text \<open>
  The two \<open>retain\<close> passes of \<open>remove_connection\<close>. The first moves the aborted waiters to
  the end of \<open>submitted\<close>, the second sees them there.
\<close>

fun abort_submitted :: "u32 \<Rightarrow> Submitted list \<Rightarrow> u32 list \<times> Submitted list" where
  "abort_submitted c [] = ([], [])"
| "abort_submitted c (s # ss) =
     (let (wakes, ss') = abort_submitted c ss; owner_gone = (s_task_id s = c) in
      if \<not> dead_owner c (s_conn_index s) (s_task_id s) then (wakes, s # ss')
      else case s_state s of
          InFlight \<Rightarrow>
            if owner_gone then (wakes, s\<lparr>s_state := Abandoned\<rparr> # ss')
            else (s_task_id s # wakes, s\<lparr>s_state := Aborted connection_aborted\<rparr> # ss')
        | Done _ \<Rightarrow> (wakes, if owner_gone then ss' else s # ss')
        | Aborted _ \<Rightarrow> (wakes, if owner_gone then ss' else s # ss')
        | Abandoned \<Rightarrow> (wakes, ss'))"

definition scq_remove_connection :: "u32 \<Rightarrow> SendCapacityQueue \<Rightarrow> u32 list \<times> SendCapacityQueue" where
  "scq_remove_connection c q =
     (let dead = (\<lambda>w. dead_owner c (w_conn_index w) (w_task_id w));
          head_removed = (case scq_front q of None \<Rightarrow> False | Some w \<Rightarrow> dead w);
          outliving = filter (\<lambda>w. dead w \<and> w_task_id w \<noteq> c) (scq_waiting q);
          waiting' = filter (\<lambda>w. \<not> dead w) (scq_waiting q);
          (wakes2, submitted') = abort_submitted c
             (scq_submitted q @ map (\<lambda>w. submit_waiter w (Aborted connection_aborted)) outliving);
          q' = q\<lparr>scq_waiting := waiting', scq_submitted := submitted'\<rparr>;
          next_wake = (if head_removed then (case scq_front q' of None \<Rightarrow> [] | Some w \<Rightarrow> [w_task_id w]) else [])
      in (map w_task_id outliving @ wakes2 @ next_wake, q'))"

definition scq_fail_waiting :: "u32 \<Rightarrow> u32 \<Rightarrow> string \<Rightarrow> string \<Rightarrow> SendCapacityQueue \<Rightarrow> u32 list \<times> SendCapacityQueue" where
  "scq_fail_waiting c g kind msg q =
     (let failed = (\<lambda>w. w_conn_index w = c \<and> w_generation w = g);
          head_removed = (case scq_front q of None \<Rightarrow> False | Some w \<Rightarrow> failed w);
          out = filter failed (scq_waiting q);
          q' = q\<lparr>scq_waiting := filter (\<lambda>w. \<not> failed w) (scq_waiting q),
                 scq_submitted := scq_submitted q @ map (\<lambda>w. submit_waiter w (Done (Inl (IoError kind msg)))) out\<rparr>;
          next_wake = (if head_removed then (case scq_front q' of None \<Rightarrow> [] | Some w \<Rightarrow> [w_task_id w]) else [])
      in (map w_task_id out @ next_wake, q'))"

subsection \<open>The life of one bounded send\<close>

text \<open>
  The specification forgets the two containers: it maps an id to the connection it targets,
  the task that owns it and where it stands. \<open>life_step\<close> is the state diagram of the module
  documentation, one arrow per clause; \<open>None\<close> is the state \<open>gone\<close>.
\<close>

datatype standing = Queued u32 nat | Admitted Completion
type_synonym bounded_send = "u32 \<times> u32 \<times> standing"

datatype scq_event =
    Enqueue u32 u32 nat u32
  | SetOwner BoundedSendId u32
  | MarkSubmitted BoundedSendId
  | Complete BoundedSendId io_result
  | TakeResult BoundedSendId
  | Cancel BoundedSendId
  | RemoveConnection u32
  | FailWaiting u32 u32 string string

fun mark_life :: "standing \<Rightarrow> standing" where
  "mark_life (Queued g n) = Admitted InFlight"
| "mark_life s = s"

fun complete_life :: "io_result \<Rightarrow> standing \<Rightarrow> standing option" where
  "complete_life r (Admitted InFlight) = Some (Admitted (Done r))"
| "complete_life r (Admitted (Aborted e)) = Some (Admitted (Done r))"
| "complete_life r (Admitted Abandoned) = None"
| "complete_life r s = Some s"

fun take_life :: "standing \<Rightarrow> standing option" where
  "take_life (Admitted (Done r)) = None"
| "take_life (Admitted (Aborted e)) = None"
| "take_life s = Some s"

fun cancel_life :: "standing \<Rightarrow> standing option" where
  "cancel_life (Admitted InFlight) = Some (Admitted Abandoned)"
| "cancel_life (Admitted Abandoned) = Some (Admitted Abandoned)"
| "cancel_life s = None"

fun abort_life :: "bool \<Rightarrow> standing \<Rightarrow> standing option" where
  "abort_life owner_gone (Queued g n) = (if owner_gone then None else Some (Admitted (Aborted connection_aborted)))"
| "abort_life owner_gone (Admitted InFlight) =
     Some (Admitted (if owner_gone then Abandoned else Aborted connection_aborted))"
| "abort_life owner_gone (Admitted Abandoned) = None"
| "abort_life owner_gone s = (if owner_gone then None else Some s)"

fun fail_life :: "u32 \<Rightarrow> io_error \<Rightarrow> standing \<Rightarrow> standing" where
  "fail_life g e (Queued g' n) = (if g = g' then Admitted (Done (Inl e)) else Queued g' n)"
| "fail_life g e s = s"

fun life_step :: "scq_event \<Rightarrow> BoundedSendId \<Rightarrow> bounded_send \<Rightarrow> bounded_send option" where
  "life_step (Enqueue c g n t) i b = Some b"
| "life_step (SetOwner j t) i (c, own, s) = Some (c, if i = j then t else own, s)"
| "life_step (MarkSubmitted j) i (c, own, s) = Some (c, own, if i = j then mark_life s else s)"
| "life_step (Complete j r) i (c, own, s) = map_option (\<lambda>s. (c, own, s)) (if i = j then complete_life r s else Some s)"
| "life_step (TakeResult j) i (c, own, s) = map_option (\<lambda>s. (c, own, s)) (if i = j then take_life s else Some s)"
| "life_step (Cancel j) i (c, own, s) = map_option (\<lambda>s. (c, own, s)) (if i = j then cancel_life s else Some s)"
| "life_step (RemoveConnection d) i (c, own, s) =
     map_option (\<lambda>s. (c, own, s)) (if dead_owner d c own then abort_life (own = d) s else Some s)"
| "life_step (FailWaiting d g k m) i (c, own, s) = Some (c, own, if c = d then fail_life g (IoError k m) s else s)"

fun opt_list :: "'a option \<Rightarrow> 'a list" where
  "opt_list None = []"
| "opt_list (Some x) = [x]"

text \<open>The queue's operations on one event: the tasks to wake and the new queue.\<close>

fun scq_step :: "scq_event \<Rightarrow> SendCapacityQueue \<Rightarrow> (u32 list \<times> SendCapacityQueue) outcome" where
  "scq_step (Enqueue c g n t) q = outcome_bind (scq_enqueue c g n t q) (\<lambda>(_, q'). Ret ([], q'))"
| "scq_step (SetOwner i t) q = Ret ([], scq_set_owner i t q)"
| "scq_step (MarkSubmitted i) q = (case scq_mark_submitted i q of (w, q') \<Rightarrow> Ret (opt_list w, q'))"
| "scq_step (Complete i r) q = (case scq_complete i r q of (w, q') \<Rightarrow> Ret (opt_list w, q'))"
| "scq_step (TakeResult i) q = (case scq_take_result i q of (_, q') \<Rightarrow> Ret ([], q'))"
| "scq_step (Cancel i) q = (case scq_cancel i q of (w, q') \<Rightarrow> Ret (opt_list w, q'))"
| "scq_step (RemoveConnection c) q = Ret (scq_remove_connection c q)"
| "scq_step (FailWaiting c g k m) q = Ret (scq_fail_waiting c g k m q)"

text \<open>The abstraction: every entry of either container, with its id.\<close>

definition waiter_life :: "Waiter \<Rightarrow> BoundedSendId \<times> bounded_send" where
  "waiter_life w = (w_id w, w_conn_index w, w_task_id w, Queued (w_generation w) (w_required_slots w))"

definition submitted_life :: "Submitted \<Rightarrow> BoundedSendId \<times> bounded_send" where
  "submitted_life s = (s_id s, s_conn_index s, s_task_id s, Admitted (s_state s))"

definition scq_lives :: "SendCapacityQueue \<Rightarrow> (BoundedSendId \<times> bounded_send) list" where
  "scq_lives q = map waiter_life (scq_waiting q) @ map submitted_life (scq_submitted q)"

definition scq_ok :: "SendCapacityQueue \<Rightarrow> bool" where
  "scq_ok q \<longleftrightarrow> distinct (map fst (scq_lives q)) \<and> (\<forall>i \<in> fst ` set (scq_lives q). i < scq_next_id q) \<and>
     sorted (map w_id (scq_waiting q))"

definition lives_after :: "scq_event \<Rightarrow> (BoundedSendId \<times> bounded_send) list \<Rightarrow> (BoundedSendId \<times> bounded_send) list" where
  "lives_after ev L = List.map_filter (\<lambda>(i, b). map_option (Pair i) (life_step ev i b)) L"

lemma lives_after_Nil [simp]: "lives_after ev [] = []"
  by (simp add: lives_after_def map_filter_simps)

lemma lives_after_Cons [simp]:
  "lives_after ev ((i, b) # L) = map (Pair i) (opt_list (life_step ev i b)) @ lives_after ev L"
  by (simp add: lives_after_def map_filter_simps split: option.splits)

lemma lives_after_append [simp]: "lives_after ev (L @ M) = lives_after ev L @ lives_after ev M"
  by (induction L) (auto simp: lives_after_def map_filter_simps split: option.splits)

lemma lives_after_id: "(\<And>i b. (i, b) \<in> set L \<Longrightarrow> life_step ev i b = Some b) \<Longrightarrow> lives_after ev L = L"
proof (induction L)
  case (Cons x L)
  then show ?case by (cases x) auto
qed simp

lemma fst_lives_after: "subseq (map fst (lives_after ev L)) (map fst L)"
proof (induction L)
  case (Cons x L)
  then show ?case by (cases x; cases "life_step ev (fst x) (snd x)") auto
qed simp

lemma mem_lives_after: "(i, b') \<in> set (lives_after ev L) \<longleftrightarrow> (\<exists>b. (i, b) \<in> set L \<and> life_step ev i b = Some b')"
proof (induction L)
  case (Cons x L)
  obtain j b where x: "x = (j, b)" by (cases x)
  show ?case by (cases "life_step ev j b") (auto simp: x Cons.IH simp del: split_paired_Ex)
qed simp

text \<open>An event about one id changes the entry of that id only.\<close>

fun event_id :: "scq_event \<Rightarrow> BoundedSendId option" where
  "event_id (SetOwner i t) = Some i"
| "event_id (MarkSubmitted i) = Some i"
| "event_id (Complete i r) = Some i"
| "event_id (TakeResult i) = Some i"
| "event_id (Cancel i) = Some i"
| "event_id _ = None"

lemma life_step_other: "event_id ev = Some i \<Longrightarrow> j \<noteq> i \<Longrightarrow> life_step ev j b = Some b"
  by (cases b; cases ev) auto

lemma lives_after_absent: "event_id ev = Some i \<Longrightarrow> i \<notin> fst ` set L \<Longrightarrow> lives_after ev L = L"
  by (rule lives_after_id) (metis fst_conv image_eqI life_step_other)

lemma lives_after_at:
  assumes "event_id ev = Some i" "distinct (map fst (L @ (i, b) # M))"
  shows "lives_after ev (L @ (i, b) # M) = L @ map (Pair i) (opt_list (life_step ev i b)) @ M"
proof -
  have "i \<notin> fst ` set L" "i \<notin> fst ` set M" using assms(2) by auto
  then show ?thesis using assms(1) by (simp add: lives_after_absent)
qed

subsection \<open>Each operation follows the diagram\<close>

lemma waiter_split:
  assumes "vec_position (\<lambda>w. w_id w = i) (scq_waiting q) = Some pos"
  obtains ys w zs where "scq_waiting q = ys @ w # zs" "pos = length ys" "w_id w = i"
    "scq_lives q = map waiter_life ys @ (i, w_conn_index w, w_task_id w, Queued (w_generation w) (w_required_slots w)) #
       (map waiter_life zs @ map submitted_life (scq_submitted q))"
  using vec_position_SomeD [OF assms] by (fastforce simp: scq_lives_def waiter_life_def)

lemma submitted_split:
  assumes "vec_position (\<lambda>s. s_id s = i \<and> P s) (scq_submitted q) = Some pos"
  obtains ys s zs where "scq_submitted q = ys @ s # zs" "pos = length ys" "s_id s = i" "P s"
    "scq_lives q = (map waiter_life (scq_waiting q) @ map submitted_life ys) @
       (i, s_conn_index s, s_task_id s, Admitted (s_state s)) # map submitted_life zs"
  using vec_position_SomeD [OF assms] by (fastforce simp: scq_lives_def submitted_life_def)

lemma submitted_split_id:
  assumes "vec_position (\<lambda>s. s_id s = i) (scq_submitted q) = Some pos"
  obtains ys s zs where "scq_submitted q = ys @ s # zs" "pos = length ys" "s_id s = i"
    "scq_lives q = (map waiter_life (scq_waiting q) @ map submitted_life ys) @
       (i, s_conn_index s, s_task_id s, Admitted (s_state s)) # map submitted_life zs"
  using submitted_split [where P = "\<lambda>_. True" and i = i and q = q and pos = pos] assms by auto

lemma absent_lives:
  "vec_position (\<lambda>w. w_id w = i) (scq_waiting q) = None \<Longrightarrow> vec_position (\<lambda>s. s_id s = i) (scq_submitted q) = None \<Longrightarrow>
   i \<notin> fst ` set (scq_lives q)"
  by (auto simp: scq_lives_def waiter_life_def submitted_life_def vec_position_None_iff)

lemmas life_defs = waiter_life_def submitted_life_def submit_waiter_def

lemma set_owner_lives:
  assumes "scq_ok q"
  shows "mset (scq_lives (scq_set_owner i t q)) = mset (lives_after (SetOwner i t) (scq_lives q))"
proof (cases "vec_position (\<lambda>w. w_id w = i) (scq_waiting q)")
  case None
  note waiting = this
  show ?thesis
  proof (cases "vec_position (\<lambda>s. s_id s = i) (scq_submitted q)")
    case None
    then show ?thesis
      using waiting absent_lives [of i q] by (simp add: scq_set_owner_def lives_after_absent)
  next
    case (Some pos)
    obtain ys s zs where s: "scq_submitted q = ys @ s # zs" "pos = length ys" "s_id s = i"
      and l: "scq_lives q = (map waiter_life (scq_waiting q) @ map submitted_life ys) @
         (i, s_conn_index s, s_task_id s, Admitted (s_state s)) # map submitted_life zs"
      using Some by (rule submitted_split_id)
    show ?thesis
      using assms waiting Some s unfolding scq_ok_def l
      by (subst lives_after_at) (auto simp: scq_set_owner_def scq_lives_def life_defs)
  qed
next
  case (Some pos)
  obtain ys w zs where w: "scq_waiting q = ys @ w # zs" "pos = length ys" "w_id w = i"
    and l: "scq_lives q = map waiter_life ys @ (i, w_conn_index w, w_task_id w, Queued (w_generation w) (w_required_slots w)) #
       (map waiter_life zs @ map submitted_life (scq_submitted q))"
    using Some by (rule waiter_split)
  show ?thesis
    using assms Some w unfolding scq_ok_def l
    by (subst lives_after_at) (auto simp: scq_set_owner_def scq_lives_def life_defs)
qed

lemma mark_submitted_lives:
  assumes "scq_ok q"
  shows "mset (scq_lives (snd (scq_mark_submitted i q))) = mset (lives_after (MarkSubmitted i) (scq_lives q))"
proof (cases "vec_position (\<lambda>w. w_id w = i) (scq_waiting q)")
  case None
  have "life_step (MarkSubmitted i) j b = Some b" if "(j, b) \<in> set (scq_lives q)" for j b
    using that None by (auto simp: scq_lives_def life_defs vec_position_None_iff)
  then show ?thesis using None by (simp add: scq_mark_submitted_def lives_after_id)
next
  case (Some pos)
  obtain ys w zs where w: "scq_waiting q = ys @ w # zs" "pos = length ys" "w_id w = i"
    and l: "scq_lives q = map waiter_life ys @ (i, w_conn_index w, w_task_id w, Queued (w_generation w) (w_required_slots w)) #
       (map waiter_life zs @ map submitted_life (scq_submitted q))"
    using Some by (rule waiter_split)
  show ?thesis
    using assms Some w unfolding scq_ok_def l
    by (subst lives_after_at) (auto simp: scq_mark_submitted_def scq_lives_def life_defs vec_push_def Let_def)
qed

lemma complete_lives:
  assumes "scq_ok q"
  shows "mset (scq_lives (snd (scq_complete i r q))) = mset (lives_after (Complete i r) (scq_lives q))"
proof (cases "vec_position (\<lambda>s. s_id s = i) (scq_submitted q)")
  case None
  have "life_step (Complete i r) j b = Some b" if "(j, b) \<in> set (scq_lives q)" for j b
    using that None by (auto simp: scq_lives_def life_defs vec_position_None_iff)
  then show ?thesis using None by (simp add: scq_complete_def lives_after_id)
next
  case (Some pos)
  obtain ys s zs where s: "scq_submitted q = ys @ s # zs" "pos = length ys" "s_id s = i"
    and l: "scq_lives q = (map waiter_life (scq_waiting q) @ map submitted_life ys) @
       (i, s_conn_index s, s_task_id s, Admitted (s_state s)) # map submitted_life zs"
    using Some by (rule submitted_split_id)
  show ?thesis
    using assms Some s unfolding scq_ok_def l
    by (subst lives_after_at) (auto simp: scq_complete_def scq_lives_def life_defs Let_def split: Completion.splits)
qed

lemma resolved_life: "resolved st = None \<Longrightarrow> take_life (Admitted st) = Some (Admitted st)"
  "resolved st \<noteq> None \<Longrightarrow> take_life (Admitted st) = None"
  by (cases st; simp)+

lemma take_result_lives:
  assumes "scq_ok q"
  shows "mset (scq_lives (snd (scq_take_result i q))) = mset (lives_after (TakeResult i) (scq_lives q))"
proof (cases "vec_position (\<lambda>s. s_id s = i \<and> resolved (s_state s) \<noteq> None) (scq_submitted q)")
  case None
  have "life_step (TakeResult i) j b = Some b" if "(j, b) \<in> set (scq_lives q)" for j b
    using that None by (auto simp: scq_lives_def life_defs vec_position_None_iff resolved_life)
  then show ?thesis using None by (simp add: scq_take_result_def lives_after_id)
next
  case (Some pos)
  obtain ys s zs where s: "scq_submitted q = ys @ s # zs" "pos = length ys" "s_id s = i" "resolved (s_state s) \<noteq> None"
    and l: "scq_lives q = (map waiter_life (scq_waiting q) @ map submitted_life ys) @
       (i, s_conn_index s, s_task_id s, Admitted (s_state s)) # map submitted_life zs"
    using Some by (rule submitted_split)
  show ?thesis
    using assms Some s unfolding scq_ok_def l
    by (subst lives_after_at) (auto simp: scq_take_result_def scq_lives_def life_defs resolved_life)
qed

lemma cancel_lives:
  assumes "scq_ok q"
  shows "mset (scq_lives (snd (scq_cancel i q))) = mset (lives_after (Cancel i) (scq_lives q))"
proof (cases "vec_position (\<lambda>w. w_id w = i) (scq_waiting q)")
  case None
  note waiting = this
  show ?thesis
  proof (cases "vec_position (\<lambda>s. s_id s = i) (scq_submitted q)")
    case None
    then show ?thesis
      using waiting absent_lives [of i q] by (simp add: scq_cancel_def lives_after_absent)
  next
    case (Some pos)
    obtain ys s zs where s: "scq_submitted q = ys @ s # zs" "pos = length ys" "s_id s = i"
      and l: "scq_lives q = (map waiter_life (scq_waiting q) @ map submitted_life ys) @
         (i, s_conn_index s, s_task_id s, Admitted (s_state s)) # map submitted_life zs"
      using Some by (rule submitted_split_id)
    show ?thesis
      using assms waiting Some s unfolding scq_ok_def l
      by (subst lives_after_at) (auto simp: scq_cancel_def scq_lives_def life_defs Let_def split: Completion.splits)
  qed
next
  case (Some pos)
  obtain ys w zs where w: "scq_waiting q = ys @ w # zs" "pos = length ys" "w_id w = i"
    and l: "scq_lives q = map waiter_life ys @ (i, w_conn_index w, w_task_id w, Queued (w_generation w) (w_required_slots w)) #
       (map waiter_life zs @ map submitted_life (scq_submitted q))"
    using Some by (rule waiter_split)
  show ?thesis
    using assms Some w unfolding scq_ok_def l
    by (subst lives_after_at) (auto simp: scq_cancel_def scq_lives_def life_defs Let_def)
qed

lemma abort_submitted_lives:
  "map submitted_life (snd (abort_submitted c ss)) = lives_after (RemoveConnection c) (map submitted_life ss)"
proof (induction ss)
  case (Cons s ss)
  obtain wakes ss' where "abort_submitted c ss = (wakes, ss')" by (cases "abort_submitted c ss")
  then show ?case using Cons by (cases "s_state s") (auto simp: life_defs)
qed simp

lemma abort_waiting_lives:
  "mset (lives_after (RemoveConnection c) (map waiter_life ws)) =
   mset (map waiter_life (filter (\<lambda>w. \<not> dead_owner c (w_conn_index w) (w_task_id w)) ws)) +
   mset (map submitted_life (map (\<lambda>w. submit_waiter w (Aborted connection_aborted))
     (filter (\<lambda>w. dead_owner c (w_conn_index w) (w_task_id w) \<and> w_task_id w \<noteq> c) ws)))"
  by (induction ws) (auto simp: life_defs)

lemma remove_connection_lives:
  "mset (scq_lives (snd (scq_remove_connection c q))) = mset (lives_after (RemoveConnection c) (scq_lives q))"
proof -
  let ?out = "map (\<lambda>w. submit_waiter w (Aborted connection_aborted))
     (filter (\<lambda>w. dead_owner c (w_conn_index w) (w_task_id w) \<and> w_task_id w \<noteq> c) (scq_waiting q))"
  have "lives_after (RemoveConnection c) (map submitted_life ?out) = map submitted_life ?out"
    by (rule lives_after_id) (auto simp: life_defs)
  then have "mset (map submitted_life (snd (abort_submitted c (scq_submitted q @ ?out)))) =
      mset (lives_after (RemoveConnection c) (map submitted_life (scq_submitted q))) + mset (map submitted_life ?out)"
    by (simp only: abort_submitted_lives map_append lives_after_append mset_append)
  moreover have "scq_lives (snd (scq_remove_connection c q)) =
      map waiter_life (filter (\<lambda>w. \<not> dead_owner c (w_conn_index w) (w_task_id w)) (scq_waiting q)) @
      map submitted_life (snd (abort_submitted c (scq_submitted q @ ?out)))"
    by (simp add: scq_remove_connection_def Let_def scq_lives_def split: prod.splits)
  ultimately show ?thesis
    by (simp only: scq_lives_def lives_after_append mset_append abort_waiting_lives ac_simps)
qed

lemma fail_waiting_lives_ws:
  "mset (lives_after (FailWaiting c g k m) (map waiter_life ws)) =
   mset (map waiter_life (filter (\<lambda>w. \<not> (w_conn_index w = c \<and> w_generation w = g)) ws)) +
   mset (map submitted_life (map (\<lambda>w. submit_waiter w (Done (Inl (IoError k m))))
     (filter (\<lambda>w. w_conn_index w = c \<and> w_generation w = g) ws)))"
  by (induction ws) (auto simp: life_defs)

lemma fail_waiting_lives:
  "mset (scq_lives (snd (scq_fail_waiting c g k m q))) = mset (lives_after (FailWaiting c g k m) (scq_lives q))"
proof -
  have "lives_after (FailWaiting c g k m) (map submitted_life (scq_submitted q)) = map submitted_life (scq_submitted q)"
    by (rule lives_after_id) (auto simp: life_defs)
  then show ?thesis
    unfolding scq_lives_def lives_after_append mset_append fail_waiting_lives_ws
    by (simp add: scq_fail_waiting_def Let_def ac_simps)
qed

subsection \<open>Refinement of the life cycle\<close>

definition fresh_life :: "scq_event \<Rightarrow> nat \<Rightarrow> (BoundedSendId \<times> bounded_send) list" where
  "fresh_life ev n = (case ev of Enqueue c g k t \<Rightarrow> [(n, c, t, Queued g k)] | _ \<Rightarrow> [])"

lemma scq_step_lives:
  assumes "scq_ok q" "scq_step ev q = Ret (ws, q')"
  shows "mset (scq_lives q') = mset (lives_after ev (scq_lives q) @ fresh_life ev (scq_next_id q))"
proof (cases ev)
  case (Enqueue c g n t)
  then show ?thesis
    using assms(2) lives_after_id [of "scq_lives q" ev]
    by (auto simp: scq_enqueue_def Let_def scq_lives_def waiter_life_def fresh_life_def ensure_def split: if_splits)
qed ((use assms set_owner_lives [of q] mark_submitted_lives [of q] complete_lives [of q] take_result_lives [of q]
       cancel_lives [of q] remove_connection_lives [of _ q] fail_waiting_lives [of _ _ _ _ q] in
     \<open>auto simp: fresh_life_def split: prod.splits\<close>), (metis snd_conv)+)

lemma scq_step_next_id:
  "scq_step ev q = Ret (ws, q') \<Longrightarrow> scq_next_id q' = scq_next_id q + length (fresh_life ev (scq_next_id q))"
  by (cases ev)
    (auto simp: fresh_life_def scq_enqueue_def scq_set_owner_def scq_mark_submitted_def scq_complete_def
       scq_take_result_def scq_cancel_def scq_remove_connection_def scq_fail_waiting_def Let_def ensure_def
       split: prod.splits option.splits Completion.splits if_splits)

lemma vec_remove_subseq: "subseq (vec_remove pos xs) xs"
proof -
  have "subseq (take pos xs @ drop (Suc pos) xs) (take pos xs @ drop pos xs)"
    using suffix_drop [of 1 "drop pos xs"] by (intro list_emb_append_mono suffix_imp_subseq) auto
  then show ?thesis by (simp add: vec_remove_def)
qed

lemma subseq_distinct: "subseq xs ys \<Longrightarrow> distinct ys \<Longrightarrow> distinct xs"
  by (induction rule: list_emb.induct) (auto dest: list_emb_set)

lemma subseq_set: "subseq xs ys \<Longrightarrow> set xs \<subseteq> set ys"
  by (auto dest: list_emb_set)

lemma subseq_sorted: "subseq xs ys \<Longrightarrow> sorted ys \<Longrightarrow> sorted (xs :: nat list)"
  by (induction rule: list_emb.induct) (auto dest: list_emb_set)

lemma scq_step_waiting:
  assumes "scq_step ev q = Ret (ws, q')" "fresh_life ev (scq_next_id q) = []"
  shows "subseq (map w_id (scq_waiting q')) (map w_id (scq_waiting q))"
proof (cases ev)
  case (SetOwner i t)
  then have "map w_id (scq_waiting q') = map w_id (scq_waiting q)"
    using assms(1)
    by (auto simp: scq_set_owner_def map_update dest!: vec_position_SomeD split: option.splits)
  then show ?thesis by simp
qed (use assms in \<open>auto simp: fresh_life_def scq_mark_submitted_def scq_complete_def
       scq_take_result_def scq_cancel_def scq_remove_connection_def scq_fail_waiting_def Let_def
       intro!: subseq_map vec_remove_subseq subseq_filter_left
       split: prod.splits option.splits Completion.splits if_splits\<close>)

lemma scq_step_ok:
  assumes ok: "scq_ok q" and step: "scq_step ev q = Ret (ws, q')"
  shows "scq_ok q'"
proof -
  let ?L = "lives_after ev (scq_lives q) @ fresh_life ev (scq_next_id q)"
  have L: "mset (scq_lives q') = mset ?L" using assms by (rule scq_step_lives)
  have sub: "set (map fst (lives_after ev (scq_lives q))) \<subseteq> fst ` set (scq_lives q)"
    using subseq_set [OF fst_lives_after [of ev "scq_lives q"]] by simp
  have old: "\<forall>i \<in> fst ` set (scq_lives q). i < scq_next_id q" using ok by (simp add: scq_ok_def)
  have new: "map fst (fresh_life ev (scq_next_id q)) = (if fresh_life ev (scq_next_id q) = [] then [] else [scq_next_id q])"
    by (auto simp: fresh_life_def split: scq_event.splits)
  have "distinct (map fst (lives_after ev (scq_lives q)))"
    using ok fst_lives_after [of ev "scq_lives q"] subseq_distinct unfolding scq_ok_def by blast
  moreover have "scq_next_id q \<notin> set (map fst (lives_after ev (scq_lives q)))" using sub old by fastforce
  ultimately have "distinct (map fst ?L)" using new by (simp only: map_append distinct_append) simp
  moreover have "mset (map fst (scq_lives q')) = mset (map fst ?L)" using L by (simp only: mset_map)
  ultimately have d: "distinct (map fst (scq_lives q'))" by (metis mset_eq_imp_distinct_iff)
  have ids: "set (map fst (scq_lives q')) = set (map fst ?L)"
    using L by (metis mset_map set_mset_mset)
  have lt: "i < scq_next_id q" if "i \<in> set (map fst (lives_after ev (scq_lives q)))" for i
    using that sub old by blast
  have "i < scq_next_id q'" if "i \<in> set (map fst ?L)" for i
  proof (cases "fresh_life ev (scq_next_id q)")
    case Nil
    then show ?thesis using that lt [of i] by (simp add: scq_step_next_id [OF step])
  next
    case (Cons x xs)
    then have "fst x = scq_next_id q" "xs = []" using new by auto
    then have "scq_next_id q' = Suc (scq_next_id q)" using Cons by (simp add: scq_step_next_id [OF step])
    moreover have "i = scq_next_id q \<or> i \<in> set (map fst (lives_after ev (scq_lives q)))"
      using that Cons \<open>fst x = scq_next_id q\<close> \<open>xs = []\<close> by (simp only: map_append set_append list.map list.set) blast
    ultimately show ?thesis using lt [of i] by linarith
  qed
  then have b: "\<forall>i \<in> fst ` set (scq_lives q'). i < scq_next_id q'" using ids by (metis set_map)
  have "sorted (map w_id (scq_waiting q'))"
  proof (cases "fresh_life ev (scq_next_id q)")
    case Nil
    show ?thesis
      using subseq_sorted [OF scq_step_waiting [OF step Nil]] ok by (simp add: scq_ok_def)
  next
    case (Cons x xs)
    then obtain c g n t where ev: "ev = Enqueue c g n t"
      by (auto simp: fresh_life_def split: scq_event.splits)
    have "\<forall>w \<in> set (scq_waiting q). w_id w < scq_next_id q"
      using old by (force simp: scq_lives_def waiter_life_def)
    then show ?thesis
      using ok step unfolding scq_ok_def ev
      by (auto simp: scq_enqueue_def Let_def ensure_def sorted_append less_imp_le split: if_splits)
  qed
  with d b show ?thesis by (simp add: scq_ok_def)
qed

fun scq_run :: "scq_event list \<Rightarrow> SendCapacityQueue \<Rightarrow> SendCapacityQueue outcome" where
  "scq_run [] q = Ret q"
| "scq_run (ev # evs) q = outcome_bind (scq_step ev q) (\<lambda>(_, q'). scq_run evs q')"

definition scq_abs :: "SendCapacityQueue \<Rightarrow> (BoundedSendId \<Rightarrow> bounded_send option) \<times> nat" where
  "scq_abs q = (map_of (scq_lives q), scq_next_id q)"

fun spec_step :: "scq_event \<Rightarrow> (BoundedSendId \<Rightarrow> bounded_send option) \<times> nat \<Rightarrow> (BoundedSendId \<Rightarrow> bounded_send option) \<times> nat" where
  "spec_step ev (m, n) =
     (let m' = (\<lambda>i. Option.bind (m i) (life_step ev i)) in
      case ev of Enqueue c g k t \<Rightarrow> (m'(n \<mapsto> (c, t, Queued g k)), n + 1) | _ \<Rightarrow> (m', n))"

lemma map_of_mset: "distinct (map fst xs) \<Longrightarrow> mset xs = mset ys \<Longrightarrow> map_of xs = map_of ys"
proof -
  assume d: "distinct (map fst xs)" and m: "mset xs = mset ys"
  have "mset (map fst xs) = mset (map fst ys)" using m by simp
  then have "distinct (map fst ys)" using d mset_eq_imp_distinct_iff by blast
  moreover have "set xs = set ys" using m by (rule mset_eq_setD)
  ultimately show ?thesis using d map_of_inject_set by blast
qed

lemma map_of_lives_after:
  assumes "distinct (map fst L)"
  shows "map_of (lives_after ev L) i = Option.bind (map_of L i) (life_step ev i)"
proof -
  have "distinct (map fst (lives_after ev L))"
    using assms fst_lives_after [of ev L] subseq_distinct by blast
  then have "map_of (lives_after ev L) i = Some b' \<longleftrightarrow> Option.bind (map_of L i) (life_step ev i) = Some b'" for b'
    using assms mem_lives_after [of i b' ev L] by (simp add: bind_eq_Some_conv del: split_paired_Ex)
  then show ?thesis by (rule option_eqI)
qed

lemma scq_step_abs:
  assumes ok: "scq_ok q" and step: "scq_step ev q = Ret (ws, q')"
  shows "scq_abs q' = spec_step ev (scq_abs q)"
proof -
  let ?L = "lives_after ev (scq_lives q)"
  have "map_of (scq_lives q') = map_of (?L @ fresh_life ev (scq_next_id q))"
    using scq_step_lives [OF assms] scq_step_ok [OF assms] by (intro map_of_mset) (auto simp: scq_ok_def)
  also have "\<dots> = map_of (fresh_life ev (scq_next_id q)) ++ map_of ?L" by simp
  also have "map_of ?L = (\<lambda>i. Option.bind (map_of (scq_lives q) i) (life_step ev i))"
    using ok map_of_lives_after by (auto simp: scq_ok_def)
  finally have m: "map_of (scq_lives q') =
      map_of (fresh_life ev (scq_next_id q)) ++ (\<lambda>i. Option.bind (map_of (scq_lives q) i) (life_step ev i))" .
  have "map_of (scq_lives q) (scq_next_id q) = None"
    using ok by (auto simp: scq_ok_def map_of_eq_None_iff)
  then show ?thesis
    using m scq_step_next_id [OF step]
    by (cases ev) (auto simp: scq_abs_def fresh_life_def Let_def map_add_def fun_eq_iff split: option.splits)
qed

fun enqueues :: "scq_event list \<Rightarrow> nat" where
  "enqueues [] = 0"
| "enqueues (Enqueue c g n t # evs) = Suc (enqueues evs)"
| "enqueues (_ # evs) = enqueues evs"

lemma scq_step_total: "(\<And>c g n t. ev = Enqueue c g n t \<Longrightarrow> scq_next_id q + 1 < 2 ^ 64) \<Longrightarrow> \<exists>ws q'. scq_step ev q = Ret (ws, q')"
  by (cases ev) (auto simp: scq_enqueue_def Let_def split: prod.splits)

lemma scq_run_abs:
  assumes "scq_ok q" "scq_next_id q + enqueues evs < 2 ^ 64"
  shows "\<exists>q'. scq_run evs q = Ret q' \<and> scq_ok q' \<and> scq_abs q' = fold spec_step evs (scq_abs q)"
  using assms
proof (induction evs arbitrary: q)
  case (Cons ev evs)
  have "\<exists>ws q'. scq_step ev q = Ret (ws, q')"
    using Cons.prems(2) by (intro scq_step_total) (cases ev; simp)
  then obtain ws q1 where step: "scq_step ev q = Ret (ws, q1)" by blast
  have "scq_next_id q1 + enqueues evs < 2 ^ 64"
    using Cons.prems(2) scq_step_next_id [OF step] by (cases ev) (auto simp: fresh_life_def)
  then show ?case
    using Cons.IH [OF scq_step_ok [OF Cons.prems(1) step]] step scq_step_abs [OF Cons.prems(1) step] by simp
qed simp

lemma scq_new_ok: "scq_ok scq_new" "scq_abs scq_new = (Map.empty, 0)"
  by (simp_all add: scq_ok_def scq_new_def scq_lives_def scq_abs_def)

text \<open>
  C5. The admission queue implements the documented life cycle. From an empty queue, every
  sequence of operations (on known, stale or never-issued ids) that enqueues fewer than
  \<open>2 ^ 64\<close> sends runs without a panic; it keeps ids unique and the waiters in arrival order;
  and for every id the queue's entry is exactly the one the state diagram prescribes:
  \<open>swap_remove\<close>, the two containers and the two \<open>retain\<close> passes are invisible.
\<close>

theorem scq_refines_life_cycle:
  assumes "enqueues evs < 2 ^ 64"
  shows "\<exists>q. scq_run evs scq_new = Ret q \<and> scq_ok q \<and> scq_abs q = fold spec_step evs (Map.empty, 0)"
  using scq_run_abs [OF scq_new_ok(1), of evs] assms scq_new_ok(2) by (simp add: scq_new_def)

theorem scq_refines_life_cycle_witness:
  "\<exists>q. scq_run [Enqueue 1 0 2 5, Enqueue 3 0 1 6, MarkSubmitted 0, RemoveConnection 1, Complete 0 (Inr 9), TakeResult 7] scq_new = Ret q \<and>
     scq_ok q \<and> fst (scq_abs q) 0 = Some (1, 5, Admitted (Done (Inr 9))) \<and> fst (scq_abs q) 1 = Some (3, 6, Queued 0 1)"
  using scq_refines_life_cycle [of "[Enqueue 1 0 2 5, Enqueue 3 0 1 6, MarkSubmitted 0, RemoveConnection 1, Complete 0 (Inr 9), TakeResult 7]"]
  by (auto simp: dead_owner_def STANDALONE_BIT_def)

subsection \<open>Wake-ups\<close>

text \<open>The wake list of the two teardown operations: the owners of what was resolved, and a new head.\<close>

definition head_wake :: "(Waiter \<Rightarrow> bool) \<Rightarrow> SendCapacityQueue \<Rightarrow> SendCapacityQueue \<Rightarrow> u32 list" where
  "head_wake P q q' =
     (if case scq_front q of None \<Rightarrow> False | Some w \<Rightarrow> P w
      then (case scq_front q' of None \<Rightarrow> [] | Some w \<Rightarrow> [w_task_id w]) else [])"

abbreviation dead_waiter :: "u32 \<Rightarrow> Waiter \<Rightarrow> bool" where
  "dead_waiter c w \<equiv> dead_owner c (w_conn_index w) (w_task_id w)"

abbreviation failed_waiter :: "u32 \<Rightarrow> u32 \<Rightarrow> Waiter \<Rightarrow> bool" where
  "failed_waiter c g w \<equiv> w_conn_index w = c \<and> w_generation w = g"

lemma remove_connection_parts:
  assumes "scq_remove_connection c q = (ws, q')"
  shows "scq_waiting q' = filter (\<lambda>w. \<not> dead_waiter c w) (scq_waiting q)"
    and "ws = map w_task_id (filter (\<lambda>w. dead_waiter c w \<and> w_task_id w \<noteq> c) (scq_waiting q)) @
       fst (abort_submitted c (scq_submitted q @ map (\<lambda>w. submit_waiter w (Aborted connection_aborted))
          (filter (\<lambda>w. dead_waiter c w \<and> w_task_id w \<noteq> c) (scq_waiting q)))) @ head_wake (dead_waiter c) q q'"
  using assms unfolding scq_remove_connection_def Let_def head_wake_def by (auto simp: split_beta)

lemma fail_waiting_parts:
  assumes "scq_fail_waiting c g k m q = (ws, q')"
  shows "scq_waiting q' = filter (\<lambda>w. \<not> failed_waiter c g w) (scq_waiting q)"
    and "ws = map w_task_id (filter (failed_waiter c g) (scq_waiting q)) @ head_wake (failed_waiter c g) q q'"
  using assms unfolding scq_fail_waiting_def Let_def head_wake_def by auto

lemma front_filter_kept:
  "scq_front q = Some w \<Longrightarrow> \<not> P w \<Longrightarrow> scq_waiting q' = filter (\<lambda>w. \<not> P w) (scq_waiting q) \<Longrightarrow> scq_front q' = Some w"
  by (auto simp: scq_front_def split: list.splits)

lemma front_filter_empty: "scq_front q = None \<Longrightarrow> scq_waiting q' = filter P (scq_waiting q) \<Longrightarrow> scq_front q' = None"
  by (auto simp: scq_front_def split: list.splits)

lemma head_wake_new:
  assumes "scq_waiting q' = filter (\<lambda>w. \<not> P w) (scq_waiting q)"
    and "scq_front q' = Some w'" "map_option w_id (scq_front q) \<noteq> Some (w_id w')"
  shows "w_task_id w' \<in> set (head_wake P q q')"
proof -
  obtain w where w: "scq_front q = Some w"
    using assms(2) front_filter_empty [OF _ assms(1)] by (cases "scq_front q") auto
  then have "P w" using front_filter_kept [of q w P q'] assms by auto
  then show ?thesis using w assms(2) by (simp add: head_wake_def)
qed

lemma front_vec_remove:
  assumes "vec_position P (scq_waiting q) = Some pos" "scq_waiting q' = vec_remove pos (scq_waiting q)" "pos \<noteq> 0"
  shows "scq_front q' = scq_front q"
  using vec_position_bound [OF assms(1)] assms(2,3)
  by (cases "scq_waiting q"; cases pos) (auto simp: scq_front_def vec_remove_def)

lemma new_head_woken:
  assumes "scq_step ev q = Ret (ws, q')" "event_id ev \<noteq> None \<or> (\<exists>c. ev = RemoveConnection c) \<or> (\<exists>c g k m. ev = FailWaiting c g k m)"
    and "scq_front q' = Some w'" "map_option w_id (scq_front q) \<noteq> Some (w_id w')"
  shows "w_task_id w' \<in> set ws"
proof (cases ev)
  case (SetOwner i t)
  then have "map w_id (scq_waiting q') = map w_id (scq_waiting q)"
    using assms(1) by (auto simp: scq_set_owner_def map_update dest!: vec_position_SomeD split: option.splits)
  then show ?thesis using assms(3,4) by (auto simp: scq_front_def split: list.splits)
next
  case (MarkSubmitted i)
  then show ?thesis
    using assms front_vec_remove [of "\<lambda>w. w_id w = i" q _ q']
    by (auto simp: scq_mark_submitted_def Let_def scq_front_def split: option.splits if_splits)
next
  case (Cancel i)
  then show ?thesis
    using assms front_vec_remove [of "\<lambda>w. w_id w = i" q _ q']
    by (auto simp: scq_cancel_def Let_def scq_front_def split: option.splits if_splits Completion.splits)
next
  case (RemoveConnection c)
  note parts = remove_connection_parts [of c q ws q']
  have q': "scq_waiting q' = filter (\<lambda>w. \<not> dead_waiter c w) (scq_waiting q)"
    using assms(1) RemoveConnection parts by simp
  have "set (head_wake (dead_waiter c) q q') \<subseteq> set ws" using assms(1) RemoveConnection parts by auto
  then show ?thesis using head_wake_new [OF q' assms(3,4)] by blast
next
  case (FailWaiting c g k m)
  note parts = fail_waiting_parts [of c g k m q ws q']
  have q': "scq_waiting q' = filter (\<lambda>w. \<not> failed_waiter c g w) (scq_waiting q)"
    using assms(1) FailWaiting parts by simp
  have "set (head_wake (failed_waiter c g) q q') \<subseteq> set ws" using assms(1) FailWaiting parts by auto
  then show ?thesis using head_wake_new [OF q' assms(3,4)] by blast
qed (use assms in \<open>auto simp: scq_complete_def scq_take_result_def scq_front_def Let_def split: option.splits prod.splits Completion.splits\<close>)

lemma abort_submitted_wakes:
  "s \<in> set ss \<Longrightarrow> dead_owner c (s_conn_index s) (s_task_id s) \<Longrightarrow> s_task_id s \<noteq> c \<Longrightarrow> s_state s = InFlight \<Longrightarrow>
   s_task_id s \<in> set (fst (abort_submitted c ss))"
proof (induction ss)
  case (Cons a ss)
  obtain wakes ss' where "abort_submitted c ss = (wakes, ss')" by (cases "abort_submitted c ss")
  then show ?case using Cons by (auto simp: Let_def split: Completion.splits)
qed simp

fun unresolved :: "standing \<Rightarrow> bool" where
  "unresolved (Queued g n) = True"
| "unresolved (Admitted st) = (st = InFlight)"

lemma life_resolves:
  assumes "life_step ev i (c, own, s) = Some (c', own', Admitted st)" "unresolved s" "resolved st \<noteq> None"
  shows "own' = own \<and> ((\<exists>r. ev = Complete i r \<and> s = Admitted InFlight) \<or>
    (\<exists>d. ev = RemoveConnection d \<and> dead_owner d c own \<and> own \<noteq> d) \<or>
    (\<exists>g k m n. ev = FailWaiting c g k m \<and> s = Queued g n))"
proof (cases s)
  case (Queued g n)
  then show ?thesis using assms by (cases ev) (auto split: if_splits)
next
  case (Admitted st')
  then have "st' = InFlight" using assms(2) by simp
  then show ?thesis using assms Admitted by (cases ev) (auto split: if_splits)
qed

lemma resolved_woken:
  assumes ok: "scq_ok q" and step: "scq_step ev q = Ret (ws, q')"
    and mem: "(i, c, own, s) \<in> set (scq_lives q)" and u: "unresolved s"
    and life: "life_step ev i (c, own, s) = Some (c', own', Admitted st)" and r: "resolved st \<noteq> None"
  shows "own' \<in> set ws"
proof -
  consider (complete) r where "ev = Complete i r" "s = Admitted InFlight" "own' = own"
    | (remove) d where "ev = RemoveConnection d" "dead_owner d c own" "own \<noteq> d" "own' = own"
    | (fail) g k m n where "ev = FailWaiting c g k m" "s = Queued g n" "own' = own"
    using life_resolves [OF life u r] by blast
  then show ?thesis
  proof cases
    case (complete r)
    have "i \<in> s_id ` set (scq_submitted q)"
      using mem complete by (auto simp: scq_lives_def life_defs image_iff)
    then obtain pos where pos: "vec_position (\<lambda>s. s_id s = i) (scq_submitted q) = Some pos"
      by (cases "vec_position (\<lambda>s. s_id s = i) (scq_submitted q)") (auto simp: vec_position_None_iff)
    then obtain ys x zs where x: "scq_submitted q = ys @ x # zs" "pos = length ys" "s_id x = i"
        "scq_lives q = (map waiter_life (scq_waiting q) @ map submitted_life ys) @
         (i, s_conn_index x, s_task_id x, Admitted (s_state x)) # map submitted_life zs"
      by (rule submitted_split_id)
    have "(i, s_conn_index x, s_task_id x, Admitted (s_state x)) \<in> set (scq_lives q)" unfolding x(4) by simp
    then have "(s_conn_index x, s_task_id x, Admitted (s_state x)) = (c, own, s)"
      using ok mem unfolding scq_ok_def by (metis map_of_eq_Some_iff option.inject)
    then show ?thesis using step complete pos x by (auto simp: scq_complete_def Let_def)
  next
    case (remove d)
    note parts = remove_connection_parts [of d q ws q']
    show ?thesis
    proof (cases s)
      case (Queued g n)
      then have "own \<in> set (map w_task_id (filter (\<lambda>w. dead_waiter d w \<and> w_task_id w \<noteq> d) (scq_waiting q)))"
        using mem remove by (auto simp: scq_lives_def life_defs image_iff)
      then show ?thesis using step remove parts(2) by simp
    next
      case (Admitted st')
      then obtain x where x: "x \<in> set (scq_submitted q)" "s_conn_index x = c" "s_task_id x = own" "s_state x = InFlight"
        using mem u by (auto simp: scq_lives_def life_defs)
      then show ?thesis
        using step remove parts(2) abort_submitted_wakes [of x _ d] by simp
    qed
  next
    case (fail g k m n)
    then have "own \<in> set (map w_task_id (filter (failed_waiter c g) (scq_waiting q)))"
      using mem by (auto simp: scq_lives_def life_defs image_iff)
    then show ?thesis using step fail fail_waiting_parts(2) [of c g k m q ws q'] by simp
  qed
qed

lemma scq_run_ok: "scq_ok q \<Longrightarrow> scq_run evs q = Ret q' \<Longrightarrow> scq_ok q'"
proof (induction evs arbitrary: q)
  case (Cons ev evs)
  then obtain ws q1 where "scq_step ev q = Ret (ws, q1)" "scq_run evs q1 = Ret q'"
    by (cases "scq_step ev q") auto
  then show ?case using Cons scq_step_ok by blast
qed simp

lemma scq_step_entry:
  assumes "scq_ok q" "scq_step ev q = Ret (ws, q')" "fst (scq_abs q) i = Some b"
  shows "fst (scq_abs q') i = life_step ev i b"
proof -
  have "i < scq_next_id q"
    using assms(1,3) by (force simp: scq_ok_def scq_abs_def dest: map_of_SomeD)
  then show ?thesis
    using scq_step_abs [OF assms(1,2)] assms(3) by (cases ev) (auto simp: scq_abs_def Let_def)
qed

text \<open>
  C6. No wake-up is lost. At every queue reached from the empty one, an operation that
  resolves a bounded send (a driver completion, a teardown, a failed write half) returns its
  owner's task id for waking; and an operation other than \<open>enqueue\<close> that brings a different
  waiter to the head of the queue returns the new head's task id, so the admission queue
  never stalls behind a task nobody polls.
\<close>

theorem scq_no_lost_wake:
  assumes "scq_run evs scq_new = Ret q" "scq_step ev q = Ret (ws, q')"
  shows "(\<forall>i c own s c' own' st. fst (scq_abs q) i = Some (c, own, s) \<longrightarrow> unresolved s \<longrightarrow>
            fst (scq_abs q') i = Some (c', own', Admitted st) \<longrightarrow> resolved st \<noteq> None \<longrightarrow> own' \<in> set ws) \<and>
         (\<forall>w'. (\<nexists>c g n t. ev = Enqueue c g n t) \<longrightarrow> scq_front q' = Some w' \<longrightarrow>
            map_option w_id (scq_front q) \<noteq> Some (w_id w') \<longrightarrow> w_task_id w' \<in> set ws)"
proof (intro conjI allI impI)
  have ok: "scq_ok q" using assms(1) scq_new_ok(1) scq_run_ok by blast
  fix i c own s c' own' st
  assume "fst (scq_abs q) i = Some (c, own, s)" "unresolved s" "fst (scq_abs q') i = Some (c', own', Admitted st)" "resolved st \<noteq> None"
  moreover from this have "(i, c, own, s) \<in> set (scq_lives q)" by (auto simp: scq_abs_def dest: map_of_SomeD)
  ultimately show "own' \<in> set ws"
    using scq_step_entry [OF ok assms(2)] resolved_woken [OF ok assms(2)] by metis
next
  fix w'
  assume "\<nexists>c g n t. ev = Enqueue c g n t" "scq_front q' = Some w'" "map_option w_id (scq_front q) \<noteq> Some (w_id w')"
  then show "w_task_id w' \<in> set ws"
    using assms(2) new_head_woken [of ev q ws q' w'] by (cases ev) auto
qed

theorem scq_no_lost_wake_witness:
  "\<exists>q ws q'. scq_run [Enqueue 1 0 2 5, Enqueue 3 0 1 6, MarkSubmitted 0, Enqueue 4 0 1 7] scq_new = Ret q \<and>
     scq_step (FailWaiting 3 0 ''BrokenPipe'' ''write half closed'') q = Ret (ws, q') \<and> 6 \<in> set ws \<and> 7 \<in> set ws"
proof -
  let ?evs = "[Enqueue 1 0 2 5, Enqueue 3 0 1 6, MarkSubmitted 0, Enqueue 4 0 1 7]"
  let ?ev = "FailWaiting 3 0 ''BrokenPipe'' ''write half closed''"
  obtain q ws q' where q: "scq_run ?evs scq_new = Ret q" "scq_step ?ev q = Ret (ws, q')"
    "fst (scq_abs q) 1 = Some (3, 6, Queued 0 1)" "scq_front q = Some \<lparr>w_id = 1, w_conn_index = 3, w_generation = 0, w_required_slots = 1, w_task_id = 6\<rparr>"
    "scq_front q' = Some \<lparr>w_id = 2, w_conn_index = 4, w_generation = 0, w_required_slots = 1, w_task_id = 7\<rparr>"
    "fst (scq_abs q') 1 = Some (3, 6, Admitted (Done (Inl (IoError ''BrokenPipe'' ''write half closed''))))"
    by (simp add: scq_new_def scq_enqueue_def scq_mark_submitted_def scq_fail_waiting_def Let_def scq_front_def
        scq_abs_def scq_lives_def life_defs vec_remove_def vec_push_def)
  have "6 \<in> set ws" using conjunct1 [OF scq_no_lost_wake [OF q(1,2)]] q(3,6) by fastforce
  moreover have "7 \<in> set ws" using conjunct2 [OF scq_no_lost_wake [OF q(1,2)]] q(4,5) by fastforce
  ultimately show ?thesis using q(1,2) by blast
qed

subsection \<open>The driver's result reaches the caller\<close>

text \<open>The operations after which the caller of the send \<open>i\<close>, owned by task \<open>own\<close>, is still there to collect.\<close>

fun leaves_caller :: "BoundedSendId \<Rightarrow> u32 \<Rightarrow> scq_event \<Rightarrow> bool" where
  "leaves_caller i own (TakeResult j) = (j \<noteq> i)"
| "leaves_caller i own (Cancel j) = (j \<noteq> i)"
| "leaves_caller i own (SetOwner j t) = (j \<noteq> i)"
| "leaves_caller i own (RemoveConnection c) = (c \<noteq> own)"
| "leaves_caller i own _ = True"

lemma done_stays:
  "leaves_caller i own ev \<Longrightarrow> life_step ev i (c, own, Admitted (Done r)) = Some (c, own, Admitted (Done r))"
  by (cases ev) auto

lemma done_stays_run:
  "scq_ok q \<Longrightarrow> fst (scq_abs q) i = Some (c, own, Admitted (Done r)) \<Longrightarrow> \<forall>ev \<in> set evs. leaves_caller i own ev \<Longrightarrow>
   scq_run evs q = Ret q' \<Longrightarrow> scq_ok q' \<and> fst (scq_abs q') i = Some (c, own, Admitted (Done r))"
proof (induction evs arbitrary: q)
  case (Cons ev evs)
  obtain ws q1 where s: "scq_step ev q = Ret (ws, q1)" "scq_run evs q1 = Ret q'"
    using Cons.prems(4) by (cases "scq_step ev q") auto
  then show ?case
    using Cons scq_step_ok [of q ev ws q1] scq_step_entry [of q ev ws q1 i] done_stays [of i own ev c r] by simp
qed simp

lemma take_result_done:
  assumes ok: "scq_ok q" and e: "fst (scq_abs q) i = Some (c, own, Admitted st)" and r: "resolved st = Some r"
  shows "fst (scq_take_result i q) = Some r" "fst (scq_abs (snd (scq_take_result i q))) i = None"
proof -
  have m: "(i, c, own, Admitted st) \<in> set (scq_lives q)" using e by (auto simp: scq_abs_def dest: map_of_SomeD)
  then have "\<exists>s \<in> set (scq_submitted q). s_id s = i \<and> resolved (s_state s) \<noteq> None"
    using r by (auto simp: scq_lives_def life_defs image_iff)
  then obtain pos where pos: "vec_position (\<lambda>s. s_id s = i \<and> resolved (s_state s) \<noteq> None) (scq_submitted q) = Some pos"
    by (cases "vec_position (\<lambda>s. s_id s = i \<and> resolved (s_state s) \<noteq> None) (scq_submitted q)") (auto simp: vec_position_None_iff)
  then obtain ys x zs where x: "scq_submitted q = ys @ x # zs" "pos = length ys" "s_id x = i"
      "scq_lives q = (map waiter_life (scq_waiting q) @ map submitted_life ys) @
       (i, s_conn_index x, s_task_id x, Admitted (s_state x)) # map submitted_life zs"
    by (rule submitted_split)
  have "(i, s_conn_index x, s_task_id x, Admitted (s_state x)) \<in> set (scq_lives q)" unfolding x(4) by simp
  then have "(s_conn_index x, s_task_id x, Admitted (s_state x)) = (c, own, Admitted st)"
    using ok m unfolding scq_ok_def by (metis map_of_eq_Some_iff option.inject)
  then show "fst (scq_take_result i q) = Some r" using pos x r by (simp add: scq_take_result_def)
  have "scq_step (TakeResult i) q = Ret ([], snd (scq_take_result i q))" by (simp add: split_beta)
  from scq_step_entry [OF ok this e] show "fst (scq_abs (snd (scq_take_result i q))) i = None"
    using r by (cases st) auto
qed

text \<open>
  C7. A driver completion is what the caller gets. If the driver completes a send that is in
  flight, or that a teardown has provisionally aborted, then whatever happens next (further
  completions of the same id, teardowns of any connection but the caller's own, other sends)
  \<open>take_result\<close> returns exactly that first driver result, once, and the entry is gone: a
  delivered message is never reported as aborted.
\<close>

theorem scq_driver_result_delivered:
  assumes "scq_run pre scq_new = Ret q0" "fst (scq_abs q0) i = Some (c, own, Admitted st)"
    and "st = InFlight \<or> (\<exists>e. st = Aborted e)"
    and "scq_run (Complete i r # evs) q0 = Ret q" "\<forall>ev \<in> set evs. leaves_caller i own ev"
  shows "fst (scq_take_result i q) = Some r \<and> fst (scq_abs (snd (scq_take_result i q))) i = None"
proof -
  have ok: "scq_ok q0" using assms(1) scq_new_ok(1) scq_run_ok by blast
  obtain ws q1 where q1: "scq_step (Complete i r) q0 = Ret (ws, q1)" "scq_run evs q1 = Ret q"
    using assms(4) by (cases "scq_step (Complete i r) q0") auto
  have "fst (scq_abs q1) i = Some (c, own, Admitted (Done r))"
    using scq_step_entry [OF ok q1(1) assms(2)] assms(3) by auto
  then have "scq_ok q \<and> fst (scq_abs q) i = Some (c, own, Admitted (Done r))"
    using done_stays_run [OF scq_step_ok [OF ok q1(1)] _ assms(5) q1(2)] by blast
  then show ?thesis using take_result_done [of q i c own "Done r" r] by simp
qed

theorem scq_driver_result_delivered_witness:
  "\<exists>q0 q. scq_run [Enqueue 1 0 2 5, MarkSubmitted 0, RemoveConnection 1] scq_new = Ret q0 \<and>
     fst (scq_abs q0) 0 = Some (1, 5, Admitted (Aborted connection_aborted)) \<and>
     scq_run (Complete 0 (Inr 9) # [Complete 0 (Inr 4), RemoveConnection 1]) q0 = Ret q \<and>
     fst (scq_take_result 0 q) = Some (Inr 9)"
proof -
  obtain q0 q where q: "scq_run [Enqueue 1 0 2 5, MarkSubmitted 0, RemoveConnection 1] scq_new = Ret q0"
     "fst (scq_abs q0) 0 = Some (1, 5, Admitted (Aborted connection_aborted))"
     "scq_run (Complete 0 (Inr 9) # [Complete 0 (Inr 4), RemoveConnection 1]) q0 = Ret q"
    by (simp add: scq_new_def scq_enqueue_def scq_mark_submitted_def scq_remove_connection_def scq_complete_def Let_def scq_front_def
        scq_abs_def scq_lives_def life_defs vec_remove_def vec_push_def dead_owner_def STANDALONE_BIT_def)
  then show ?thesis using scq_driver_result_delivered [OF q(1,2) _ q(3)] by auto
qed

end
