(* ===== verification/Send_Copy.thy ===== *)
theory Send_Copy
  imports Slot_Pool Send_Capacity
begin

section \<open>The send copy pool (\<open>ringline/src/buffer/send_copy.rs\<close>)\<close>

text \<open>
  A send copies its bytes into a pool slot, so that the submission queue entry points at
  memory the runtime owns until the completion arrives. A pointer is modelled as its offset
  in the backing buffer. Slot indices and byte counts are natural numbers; the subtractions
  and additions that the source performs at \<open>u32\<close> or \<open>usize\<close> width go through \<open>uint_sub\<close>
  and \<open>uint_add\<close>. Metrics are not modelled, and \<open>prefault\<close> does not change contents.
\<close>

record SlotReservation =
  sr_remaining :: nat

datatype ReserveError = ReserveExhausted | ReserveTooLarge nat nat

record SendCopyPool =
  scp_backing :: bytes
  scp_slot_size :: nat
  scp_count :: nat
  scp_free_list :: "nat list"
  scp_slot_offset :: "nat list"
  scp_slot_remaining :: "nat list"
  scp_in_use :: "bool list"
  scp_slot_end_of_send :: "bool list"
  scp_slot_bounded_send :: "(BoundedSendId \<times> nat) option list"
  scp_reserved :: nat

definition scp_reservation_drop :: "profile \<Rightarrow> SlotReservation \<Rightarrow> unit outcome" where
  "scp_reservation_drop dbg r = debug_assert dbg (sr_remaining r = 0) (Ret ())"

definition scp_new :: "nat \<Rightarrow> nat \<Rightarrow> SendCopyPool" where
  "scp_new n slot_size =
     \<lparr>scp_backing = replicate (n * slot_size) 0, scp_slot_size = slot_size, scp_count = n,
      scp_free_list = rev [0..<n], scp_slot_offset = replicate n 0,
      scp_slot_remaining = replicate n 0, scp_in_use = replicate n False,
      scp_slot_end_of_send = replicate n True, scp_slot_bounded_send = replicate n None,
      scp_reserved = 0\<rparr>"

definition scp_free_count :: "profile \<Rightarrow> SendCopyPool \<Rightarrow> nat outcome" where
  "scp_free_count dbg p = uint_sub 64 dbg (length (scp_free_list p)) (scp_reserved p) Ret"

definition scp_slot_count :: "SendCopyPool \<Rightarrow> nat" where
  "scp_slot_count p = scp_count p"

definition scp_pop_unreserved :: "profile \<Rightarrow> SendCopyPool \<Rightarrow> (nat \<times> SendCopyPool) option outcome" where
  "scp_pop_unreserved dbg p =
     outcome_bind (scp_free_count dbg p) (\<lambda>free.
       if free = 0 then Ret None
       else Ret (map_option (\<lambda>(idx, fl). (idx, p\<lparr>scp_free_list := fl\<rparr>)) (vec_pop (scp_free_list p))))"

text \<open>The five tracking entries every allocator initialises; each access is bounds checked.\<close>

definition scp_track :: "nat \<Rightarrow> nat \<Rightarrow> SendCopyPool \<Rightarrow> SendCopyPool outcome" where
  "scp_track idx len p =
     ensure (idx < length (scp_slot_offset p) \<and> idx < length (scp_slot_remaining p) \<and> idx < length (scp_in_use p) \<and>
             idx < length (scp_slot_end_of_send p) \<and> idx < length (scp_slot_bounded_send p))
       (Ret (p\<lparr>scp_slot_offset := (scp_slot_offset p)[idx := 0],
               scp_slot_remaining := (scp_slot_remaining p)[idx := len],
               scp_in_use := (scp_in_use p)[idx := True],
               scp_slot_end_of_send := (scp_slot_end_of_send p)[idx := True],
               scp_slot_bounded_send := (scp_slot_bounded_send p)[idx := None]\<rparr>))"

definition scp_fill_slot :: "nat \<Rightarrow> bytes \<Rightarrow> SendCopyPool \<Rightarrow> ((nat \<times> nat \<times> nat) \<times> SendCopyPool) outcome" where
  "scp_fill_slot idx data p =
     (let offset = idx * scp_slot_size p in
      ensure (offset + length data \<le> length (scp_backing p))
        (outcome_bind (scp_track idx (cast_uint 32 (length data)) (p\<lparr>scp_backing := buf_write offset data (scp_backing p)\<rparr>))
          (\<lambda>p'. Ret ((idx, offset, cast_uint 32 (length data)), p'))))"

definition scp_copy_in :: "profile \<Rightarrow> bytes \<Rightarrow> SendCopyPool \<Rightarrow> ((nat \<times> nat \<times> nat) option \<times> SendCopyPool) outcome" where
  "scp_copy_in dbg data p =
     (if scp_slot_size p < length data then Ret (None, p)
      else outcome_bind (scp_pop_unreserved dbg p) (\<lambda>r.
        case r of
          None \<Rightarrow> Ret (None, p)
        | Some (idx, p1) \<Rightarrow> outcome_bind (scp_fill_slot idx data p1) (\<lambda>(out, p2). Ret (Some out, p2))))"

text \<open>The gather loop: each part is copied after the previous one; a part past the buffer end panics.\<close>

fun gather_copy :: "nat \<Rightarrow> nat \<Rightarrow> bytes list \<Rightarrow> bytes \<Rightarrow> bytes outcome" where
  "gather_copy base dest_offset [] backing = Ret backing"
| "gather_copy base dest_offset (src # parts) backing =
     ensure (base + dest_offset + length src \<le> length backing)
       (gather_copy base (dest_offset + length src) parts (buf_write (base + dest_offset) src backing))"

definition scp_copy_in_gather :: "profile \<Rightarrow> bytes list \<Rightarrow> nat \<Rightarrow> SendCopyPool \<Rightarrow> ((nat \<times> nat \<times> nat) option \<times> SendCopyPool) outcome" where
  "scp_copy_in_gather dbg parts total_len p =
     (if scp_slot_size p < total_len then Ret (None, p)
      else outcome_bind (scp_pop_unreserved dbg p) (\<lambda>r.
        case r of
          None \<Rightarrow> Ret (None, p)
        | Some (idx, p1) \<Rightarrow>
            let base = idx * scp_slot_size p1 in
            outcome_bind (gather_copy base 0 parts (scp_backing p1)) (\<lambda>backing.
              outcome_bind (scp_track idx (cast_uint 32 total_len) (p1\<lparr>scp_backing := backing\<rparr>))
                (\<lambda>p2. Ret (Some (idx, base, cast_uint 32 total_len), p2)))))"

definition scp_alloc_raw :: "profile \<Rightarrow> SendCopyPool \<Rightarrow> ((nat \<times> nat \<times> nat) option \<times> SendCopyPool) outcome" where
  "scp_alloc_raw dbg p =
     outcome_bind (scp_pop_unreserved dbg p) (\<lambda>r.
       case r of
         None \<Rightarrow> Ret (None, p)
       | Some (idx, p1) \<Rightarrow>
           outcome_bind (scp_track idx 0 p1)
             (\<lambda>p2. Ret (Some (idx, idx * scp_slot_size p1, scp_slot_size p1), p2)))"

definition scp_set_filled :: "profile \<Rightarrow> nat \<Rightarrow> nat \<Rightarrow> SendCopyPool \<Rightarrow> SendCopyPool outcome" where
  "scp_set_filled dbg i len p =
     debug_assert dbg (i < length (scp_in_use p) \<and> scp_in_use p ! i)
       (debug_assert dbg (len \<le> scp_slot_size p)
         (ensure (i < length (scp_slot_offset p) \<and> i < length (scp_slot_remaining p))
           (Ret (p\<lparr>scp_slot_offset := (scp_slot_offset p)[i := 0], scp_slot_remaining := (scp_slot_remaining p)[i := len]\<rparr>))))"

definition scp_reserve_slots :: "profile \<Rightarrow> nat \<Rightarrow> SendCopyPool \<Rightarrow> ((ReserveError + SlotReservation) \<times> SendCopyPool) outcome" where
  "scp_reserve_slots dbg n p =
     (let capacity = scp_slot_count p in
      if capacity < n then Ret (Inl (ReserveTooLarge n capacity), p)
      else outcome_bind (scp_free_count dbg p) (\<lambda>free.
        if free < n then Ret (Inl ReserveExhausted, p)
        else uint_add 64 dbg (scp_reserved p) n (\<lambda>m. Ret (Inr \<lparr>sr_remaining = n\<rparr>, p\<lparr>scp_reserved := m\<rparr>))))"

definition scp_copy_in_reserved ::
  "profile \<Rightarrow> SlotReservation \<Rightarrow> bytes \<Rightarrow> SendCopyPool \<Rightarrow> ((nat \<times> nat \<times> nat) \<times> SlotReservation \<times> SendCopyPool) outcome" where
  "scp_copy_in_reserved dbg r data p =
     debug_assert dbg (0 < sr_remaining r)
       (debug_assert dbg (length data \<le> scp_slot_size p)
         (case vec_pop (scp_free_list p) of
            None \<Rightarrow> Panic
          | Some (idx, fl) \<Rightarrow>
              uint_sub 64 dbg (sr_remaining r) 1 (\<lambda>rem.
                uint_sub 64 dbg (scp_reserved p) 1 (\<lambda>res.
                  outcome_bind (scp_fill_slot idx data (p\<lparr>scp_free_list := fl, scp_reserved := res\<rparr>))
                    (\<lambda>(out, p'). Ret (out, r\<lparr>sr_remaining := rem\<rparr>, p'))))))"

definition scp_shrink_reservation ::
  "profile \<Rightarrow> SlotReservation \<Rightarrow> nat \<Rightarrow> SendCopyPool \<Rightarrow> (SlotReservation \<times> SendCopyPool) outcome" where
  "scp_shrink_reservation dbg r keep p =
     debug_assert dbg (keep \<le> sr_remaining r)
       (let returned = sr_remaining r - keep in
        debug_assert dbg (returned \<le> scp_reserved p)
          (uint_sub 64 dbg (scp_reserved p) returned (\<lambda>res.
             uint_sub 64 dbg (sr_remaining r) returned (\<lambda>rem.
               Ret (r\<lparr>sr_remaining := rem\<rparr>, p\<lparr>scp_reserved := res\<rparr>)))))"

definition scp_release_reservation :: "profile \<Rightarrow> SlotReservation \<Rightarrow> SendCopyPool \<Rightarrow> SendCopyPool outcome" where
  "scp_release_reservation dbg r p =
     debug_assert dbg (sr_remaining r \<le> scp_reserved p)
       (uint_sub 64 dbg (scp_reserved p) (sr_remaining r) (\<lambda>res.
          outcome_bind (scp_reservation_drop dbg (r\<lparr>sr_remaining := 0\<rparr>)) (\<lambda>_. Ret (p\<lparr>scp_reserved := res\<rparr>))))"

definition scp_release :: "profile \<Rightarrow> nat \<Rightarrow> SendCopyPool \<Rightarrow> SendCopyPool outcome" where
  "scp_release dbg idx p =
     debug_assert dbg (idx < scp_count p)
       (ensure (idx < length (scp_slot_bounded_send p))
         (let carried = scp_slot_bounded_send p ! idx;
              p1 = p\<lparr>scp_slot_bounded_send := (scp_slot_bounded_send p)[idx := None]\<rparr> in
          debug_assert dbg (carried = None)
            (ensure (idx < length (scp_in_use p))
              (if \<not> scp_in_use p ! idx then Ret p1
               else ensure (idx < length (scp_slot_offset p) \<and> idx < length (scp_slot_remaining p))
                 (Ret (p1\<lparr>scp_in_use := (scp_in_use p)[idx := False],
                          scp_slot_offset := (scp_slot_offset p)[idx := 0],
                          scp_slot_remaining := (scp_slot_remaining p)[idx := 0],
                          scp_free_list := vec_push (scp_free_list p) idx\<rparr>))))))"

definition scp_try_advance :: "profile \<Rightarrow> nat \<Rightarrow> nat \<Rightarrow> SendCopyPool \<Rightarrow> ((nat \<times> nat) option \<times> SendCopyPool) outcome" where
  "scp_try_advance dbg i bytes_sent p =
     debug_assert dbg (i < length (scp_in_use p) \<and> scp_in_use p ! i)
       (ensure (i < length (scp_slot_remaining p) \<and> i < length (scp_slot_offset p))
         (debug_assert dbg (bytes_sent \<le> scp_slot_remaining p ! i)
           (uint_sub 32 dbg (scp_slot_remaining p ! i) bytes_sent (\<lambda>new_remaining.
              if new_remaining = 0 then Ret (None, p)
              else uint_add 32 dbg (scp_slot_offset p ! i) bytes_sent (\<lambda>off.
                Ret (Some (i * scp_slot_size p + off, new_remaining),
                     p\<lparr>scp_slot_offset := (scp_slot_offset p)[i := off],
                       scp_slot_remaining := (scp_slot_remaining p)[i := new_remaining]\<rparr>))))))"

definition scp_is_in_use :: "nat \<Rightarrow> SendCopyPool \<Rightarrow> bool" where
  "scp_is_in_use slot p = (if slot < length (scp_in_use p) then scp_in_use p ! slot else False)"

definition scp_current_ptr_remaining :: "nat \<Rightarrow> SendCopyPool \<Rightarrow> (nat \<times> nat) outcome" where
  "scp_current_ptr_remaining i p =
     ensure (i < length (scp_slot_offset p) \<and> i < length (scp_slot_remaining p))
       (Ret (i * scp_slot_size p + scp_slot_offset p ! i, scp_slot_remaining p ! i))"

definition scp_original_len :: "profile \<Rightarrow> nat \<Rightarrow> SendCopyPool \<Rightarrow> nat outcome" where
  "scp_original_len dbg i p =
     debug_assert dbg (i < length (scp_in_use p) \<and> scp_in_use p ! i)
       (ensure (i < length (scp_slot_offset p) \<and> i < length (scp_slot_remaining p))
         (uint_add 32 dbg (scp_slot_offset p ! i) (scp_slot_remaining p ! i) Ret))"

definition scp_set_end_of_send :: "nat \<Rightarrow> bool \<Rightarrow> SendCopyPool \<Rightarrow> SendCopyPool outcome" where
  "scp_set_end_of_send slot b p =
     ensure (slot < length (scp_slot_end_of_send p))
       (Ret (p\<lparr>scp_slot_end_of_send := (scp_slot_end_of_send p)[slot := b]\<rparr>))"

definition scp_is_end_of_send :: "nat \<Rightarrow> SendCopyPool \<Rightarrow> bool outcome" where
  "scp_is_end_of_send slot p =
     ensure (slot < length (scp_slot_end_of_send p)) (Ret (scp_slot_end_of_send p ! slot))"

definition scp_set_bounded_send :: "nat \<Rightarrow> BoundedSendId \<Rightarrow> nat \<Rightarrow> SendCopyPool \<Rightarrow> SendCopyPool outcome" where
  "scp_set_bounded_send slot i logical_len p =
     ensure (slot < length (scp_slot_bounded_send p))
       (Ret (p\<lparr>scp_slot_bounded_send := (scp_slot_bounded_send p)[slot := Some (i, logical_len)]\<rparr>))"

definition scp_take_bounded_send :: "nat \<Rightarrow> SendCopyPool \<Rightarrow> ((BoundedSendId \<times> nat) option \<times> SendCopyPool) outcome" where
  "scp_take_bounded_send slot p =
     ensure (slot < length (scp_slot_bounded_send p))
       (Ret (scp_slot_bounded_send p ! slot, p\<lparr>scp_slot_bounded_send := (scp_slot_bounded_send p)[slot := None]\<rparr>))"

subsection \<open>The pool's invariant and the bytes it holds\<close>

definition scp_ok :: "SendCopyPool \<Rightarrow> bool" where
  "scp_ok p \<longleftrightarrow> scp_slot_size p < 2 ^ 32 \<and> scp_count p < 2 ^ 16 \<and>
     length (scp_backing p) = scp_count p * scp_slot_size p \<and>
     length (scp_slot_offset p) = scp_count p \<and> length (scp_slot_remaining p) = scp_count p \<and>
     length (scp_in_use p) = scp_count p \<and> length (scp_slot_end_of_send p) = scp_count p \<and>
     length (scp_slot_bounded_send p) = scp_count p \<and>
     free_list_ok (scp_count p) (\<lambda>i. scp_in_use p ! i) (scp_free_list p) \<and>
     scp_reserved p \<le> length (scp_free_list p) \<and>
     (\<forall>i < scp_count p. scp_slot_offset p ! i + scp_slot_remaining p ! i \<le> scp_slot_size p) \<and>
     (\<forall>i < scp_count p. \<not> scp_in_use p ! i \<longrightarrow> scp_slot_bounded_send p ! i = None)"

definition scp_bytes :: "SendCopyPool \<Rightarrow> nat \<Rightarrow> bytes" where
  "scp_bytes p i = buf_slice (i * scp_slot_size p + scp_slot_offset p ! i) (scp_slot_remaining p ! i) (scp_backing p)"

definition scp_used :: "SendCopyPool \<Rightarrow> nat \<Rightarrow> bool" where
  "scp_used p i \<longleftrightarrow> i < scp_count p \<and> scp_in_use p ! i"

definition scp_view :: "SendCopyPool \<Rightarrow> nat \<Rightarrow> bytes option" where
  "scp_view p i = (if scp_used p i then Some (scp_bytes p i) else None)"

lemma slot_end: "i < n \<Longrightarrow> off + k \<le> s \<Longrightarrow> i * s + off + k \<le> n * (s::nat)"
  using mult_le_mono1 [of "Suc i" n s] by simp

lemma slot_bytes_other:
  assumes "i < n" "j < n" "i \<noteq> j" "off + length d \<le> s" "off' + k \<le> s" "length b = n * s"
  shows "buf_slice (j * s + off') k (buf_write (i * s + off) d b) = buf_slice (j * s + off') k b"
proof (rule slice_write_other)
  show "i * s + off + length d \<le> length b" "j * s + off' + k \<le> length b" using assms by (simp_all add: slot_end)
  have "j * s + off' + k \<le> i * s" if "j < i" using that assms(5) by (rule slot_end)
  moreover have "i * s + off + length d \<le> j * s" if "i < j" using that assms(4) by (rule slot_end)
  ultimately show "j * s + off' + k \<le> i * s + off \<or> i * s + off + length d \<le> j * s + off'"
    using assms(3) by linarith
qed

lemma scp_new_ok: "n < 2 ^ 16 \<Longrightarrow> s < 2 ^ 32 \<Longrightarrow> scp_ok (scp_new n s)" "scp_view (scp_new n s) = Map.empty"
proof -
  assume "n < 2 ^ 16" "s < 2 ^ 32"
  moreover have "free_list_ok n (\<lambda>i. replicate n False ! i) (rev [0..<n])"
    by (rule free_list_ok_cong [OF free_list_ok_init(2)]) simp
  ultimately show "scp_ok (scp_new n s)" by (simp add: scp_ok_def scp_new_def)
qed (auto simp: scp_new_def scp_view_def scp_used_def)

subsection \<open>Allocation\<close>

text \<open>
  Popping a free slot and filling it, with \<open>res\<close> promises left: the core of every allocator.
  The slot was unused, it now holds the data, no other slot changed.
\<close>

definition scp_filled :: "nat \<Rightarrow> nat \<Rightarrow> bytes \<Rightarrow> SendCopyPool \<Rightarrow> SendCopyPool" where
  "scp_filled res idx data p = p\<lparr>
     scp_free_list := butlast (scp_free_list p), scp_reserved := res,
     scp_backing := buf_write (idx * scp_slot_size p) data (scp_backing p),
     scp_slot_offset := (scp_slot_offset p)[idx := 0], scp_slot_remaining := (scp_slot_remaining p)[idx := length data],
     scp_in_use := (scp_in_use p)[idx := True], scp_slot_end_of_send := (scp_slot_end_of_send p)[idx := True],
     scp_slot_bounded_send := (scp_slot_bounded_send p)[idx := None]\<rparr>"

lemma scp_filled_ok:
  assumes ok: "scp_ok p" and fl: "scp_free_list p = fl @ [idx]" and len: "length data \<le> scp_slot_size p"
    and res: "res \<le> length fl"
  shows "scp_ok (scp_filled res idx data p)" and "\<not> scp_used p idx" "idx < scp_count p"
    and "scp_view (scp_filled res idx data p) = (scp_view p)(idx \<mapsto> data)"
    and "buf_slice (idx * scp_slot_size p) (length data) (scp_backing (scp_filled res idx data p)) = data"
proof -
  have f: "free_list_ok (scp_count p) (\<lambda>i. scp_in_use p ! i) (fl @ [idx])"
    using ok fl by (simp add: scp_ok_def)
  note pop = free_list_ok_pop [OF f]
  show idx: "idx < scp_count p" and "\<not> scp_used p idx" using pop by (auto simp: scp_used_def)
  have fl': "free_list_ok (scp_count p) (\<lambda>i. (scp_in_use p)[idx := True] ! i) fl"
    using ok by (intro free_list_ok_cong [OF pop(3)]) (auto simp: scp_ok_def nth_list_update)
  have e: "idx * scp_slot_size p + length data \<le> length (scp_backing p)"
    using slot_end [OF idx, of 0 "length data" "scp_slot_size p"] ok len by (simp add: scp_ok_def)
  show "scp_ok (scp_filled res idx data p)"
    using ok fl fl' e len res idx by (auto simp: scp_ok_def scp_filled_def nth_list_update)
  show same: "buf_slice (idx * scp_slot_size p) (length data) (scp_backing (scp_filled res idx data p)) = data"
    using e by (simp add: scp_filled_def slice_write_same)
  show "scp_view (scp_filled res idx data p) = (scp_view p)(idx \<mapsto> data)"
  proof
    fix j
    show "scp_view (scp_filled res idx data p) j = ((scp_view p)(idx \<mapsto> data)) j"
    proof (cases "j = idx")
      case True
      then show ?thesis
        using ok idx same by (simp add: scp_view_def scp_used_def scp_bytes_def scp_filled_def scp_ok_def)
    next
      case False
      have "scp_bytes (scp_filled res idx data p) j = scp_bytes p j" if "j < scp_count p"
        using slot_bytes_other [of idx "scp_count p" j 0 data "scp_slot_size p"
            "scp_slot_offset p ! j" "scp_slot_remaining p ! j" "scp_backing p"] that idx False ok len
        by (simp add: scp_bytes_def scp_filled_def scp_ok_def)
      then show ?thesis using False by (auto simp: scp_view_def scp_used_def scp_filled_def)
    qed
  qed
qed

lemma scp_fill_slot_eq:
  assumes "scp_ok p" "scp_free_list p = fl @ [idx]" "length data \<le> scp_slot_size p"
  shows "scp_fill_slot idx data (p\<lparr>scp_free_list := fl, scp_reserved := res\<rparr>) =
    Ret ((idx, idx * scp_slot_size p, length data), scp_filled res idx data p)"
proof -
  have idx: "idx < scp_count p" using scp_filled_ok(3) [OF assms, of 0] by simp
  have "idx * scp_slot_size p + length data \<le> length (scp_backing p)"
    using slot_end [OF idx, of 0 "length data" "scp_slot_size p"] assms by (simp add: scp_ok_def)
  then show ?thesis
    using assms idx
    by (simp add: scp_fill_slot_def scp_track_def scp_filled_def scp_ok_def cast_uint_fits Let_def)
qed

definition scp_available :: "SendCopyPool \<Rightarrow> nat" where
  "scp_available p = length (scp_free_list p) - scp_reserved p"

lemma scp_free_count_eq: "scp_ok p \<Longrightarrow> scp_free_count dbg p = Ret (scp_available p)"
  by (simp add: scp_free_count_def scp_available_def scp_ok_def)

lemma available_pop: "0 < scp_available p \<Longrightarrow> \<exists>fl idx. scp_free_list p = fl @ [idx] \<and> scp_reserved p \<le> length fl"
  by (cases "scp_free_list p" rule: rev_cases) (auto simp: scp_available_def)

lemma scp_pop_unreserved_eq:
  "scp_ok p \<Longrightarrow> scp_available p = 0 \<Longrightarrow> scp_pop_unreserved dbg p = Ret None"
  "scp_ok p \<Longrightarrow> 0 < scp_available p \<Longrightarrow> scp_free_list p = fl @ [idx] \<Longrightarrow>
     scp_pop_unreserved dbg p = Ret (Some (idx, p\<lparr>scp_free_list := fl, scp_reserved := scp_reserved p\<rparr>))"
  by (simp_all add: scp_pop_unreserved_def scp_free_count_eq vec_pop_def)

lemma scp_copy_in_refused:
  "scp_ok p \<Longrightarrow> scp_slot_size p < length data \<or> scp_available p = 0 \<Longrightarrow> scp_copy_in dbg data p = Ret (None, p)"
  by (auto simp: scp_copy_in_def scp_pop_unreserved_eq)

lemma scp_copy_in_eq:
  assumes "scp_ok p" "length data \<le> scp_slot_size p" "0 < scp_available p" "scp_free_list p = fl @ [idx]"
  shows "scp_copy_in dbg data p =
    Ret (Some (idx, idx * scp_slot_size p, length data), scp_filled (scp_reserved p) idx data p)"
  using assms scp_fill_slot_eq [OF assms(1,4,2), of "scp_reserved p"]
  by (simp add: scp_copy_in_def scp_pop_unreserved_eq(2) [OF assms(1,3,4)])

lemma gather_copy_eq:
  "base + dest + length (concat parts) \<le> length backing \<Longrightarrow>
   gather_copy base dest parts backing = Ret (buf_write (base + dest) (concat parts) backing)"
proof (induction parts arbitrary: dest backing)
  case (Cons src parts)
  then show ?case
    using Cons.IH [of "dest + length src" "buf_write (base + dest) src backing"]
    by (simp add: buf_write_append add.assoc [symmetric])
qed simp

lemma scp_copy_in_gather_refused:
  "scp_ok p \<Longrightarrow> scp_slot_size p < n \<or> scp_available p = 0 \<Longrightarrow> scp_copy_in_gather dbg parts n p = Ret (None, p)"
  by (auto simp: scp_copy_in_gather_def scp_pop_unreserved_eq)

lemma scp_copy_in_gather_eq:
  assumes "scp_ok p" "length (concat parts) \<le> scp_slot_size p" "0 < scp_available p" "scp_free_list p = fl @ [idx]"
  shows "scp_copy_in_gather dbg parts (length (concat parts)) p = scp_copy_in dbg (concat parts) p"
proof -
  let ?n = "length (concat parts)"
  have idx: "idx < scp_count p" using scp_filled_ok(3) [OF assms(1,4,2), of 0] by simp
  have e: "idx * scp_slot_size p + ?n \<le> length (scp_backing p)"
    using slot_end [OF idx, of 0 ?n "scp_slot_size p"] assms by (simp add: scp_ok_def del: length_concat)
  have g: "gather_copy (idx * scp_slot_size p) 0 parts (scp_backing p) =
      Ret (buf_write (idx * scp_slot_size p) (concat parts) (scp_backing p))"
    using gather_copy_eq [of "idx * scp_slot_size p" 0 parts "scp_backing p"] e by simp
  have l: "?n < 2 ^ 32" using assms(1,2) by (simp add: scp_ok_def)
  show ?thesis
    unfolding scp_copy_in_eq [OF assms]
    using assms idx g l
    by (simp add: scp_copy_in_gather_def scp_pop_unreserved_eq(2) [OF assms(1,3,4)] Let_def scp_track_def scp_filled_def
        scp_ok_def cast_uint_fits del: length_concat)
qed

lemma scp_alloc_raw_refused: "scp_ok p \<Longrightarrow> scp_available p = 0 \<Longrightarrow> scp_alloc_raw dbg p = Ret (None, p)"
  by (simp add: scp_alloc_raw_def scp_pop_unreserved_eq)

lemma scp_alloc_raw_eq:
  assumes "scp_ok p" "0 < scp_available p" "scp_free_list p = fl @ [idx]"
  shows "scp_alloc_raw dbg p =
    Ret (Some (idx, idx * scp_slot_size p, scp_slot_size p), scp_filled (scp_reserved p) idx [] p)"
proof -
  have idx: "idx < scp_count p" using scp_filled_ok(3) [OF assms(1,3), of "[]" 0] by simp
  have "idx * scp_slot_size p \<le> length (scp_backing p)"
    using slot_end [OF idx, of 0 0 "scp_slot_size p"] assms by (simp add: scp_ok_def)
  then show ?thesis
    using assms idx
    by (simp add: scp_alloc_raw_def scp_pop_unreserved_eq(2) [OF assms] scp_track_def scp_filled_def scp_ok_def)
qed

lemma scp_copy_in_reserved_eq:
  assumes "scp_ok p" "length data \<le> scp_slot_size p" "0 < sr_remaining r" "0 < scp_reserved p" "scp_free_list p = fl @ [idx]"
  shows "scp_copy_in_reserved dbg r data p =
    Ret ((idx, idx * scp_slot_size p, length data), r\<lparr>sr_remaining := sr_remaining r - 1\<rparr>,
         scp_filled (scp_reserved p - 1) idx data p)"
  using assms scp_fill_slot_eq [OF assms(1,5,2), of "scp_reserved p - 1"]
  by (simp add: scp_copy_in_reserved_def vec_pop_def)

lemma reserved_pop: "scp_ok p \<Longrightarrow> 0 < scp_reserved p \<Longrightarrow> \<exists>fl idx. scp_free_list p = fl @ [idx] \<and> scp_reserved p - 1 \<le> length fl"
  by (cases "scp_free_list p" rule: rev_cases) (auto simp: scp_ok_def)

subsection \<open>Partial sends and release\<close>

lemma scp_try_advance_done:
  "scp_ok p \<Longrightarrow> scp_used p i \<Longrightarrow> scp_try_advance dbg i (length (scp_bytes p i)) p = Ret (None, p)"
  using slot_end [of i "scp_count p" "scp_slot_offset p ! i" "scp_slot_remaining p ! i" "scp_slot_size p"]
  by (simp add: scp_try_advance_def scp_used_def scp_ok_def scp_bytes_def)

lemma scp_bytes_length:
  "scp_ok p \<Longrightarrow> scp_used p i \<Longrightarrow> length (scp_bytes p i) = scp_slot_remaining p ! i"
  using slot_end [of i "scp_count p" "scp_slot_offset p ! i" "scp_slot_remaining p ! i" "scp_slot_size p"]
  by (simp add: scp_used_def scp_ok_def scp_bytes_def)

definition scp_advanced :: "nat \<Rightarrow> nat \<Rightarrow> SendCopyPool \<Rightarrow> SendCopyPool" where
  "scp_advanced i n p = p\<lparr>scp_slot_offset := (scp_slot_offset p)[i := scp_slot_offset p ! i + n],
     scp_slot_remaining := (scp_slot_remaining p)[i := scp_slot_remaining p ! i - n]\<rparr>"

lemma scp_try_advance_part:
  assumes ok: "scp_ok p" and u: "scp_used p i" and n: "n < length (scp_bytes p i)"
  shows "scp_try_advance dbg i n p =
      Ret (Some (i * scp_slot_size p + (scp_slot_offset p ! i + n), length (scp_bytes p i) - n), scp_advanced i n p)"
    and "scp_ok (scp_advanced i n p)" "scp_view (scp_advanced i n p) = (scp_view p)(i \<mapsto> drop n (scp_bytes p i))"
    and "buf_slice (i * scp_slot_size p + (scp_slot_offset p ! i + n)) (length (scp_bytes p i) - n) (scp_backing (scp_advanced i n p)) =
      drop n (scp_bytes p i)"
proof -
  have r: "n < scp_slot_remaining p ! i" using n scp_bytes_length [OF ok u] by simp
  have i: "i < scp_count p" using u by (simp add: scp_used_def)
  have b: "scp_slot_offset p ! i + scp_slot_remaining p ! i \<le> scp_slot_size p" "scp_slot_size p < 2 ^ 32"
    using ok i by (simp_all add: scp_ok_def)
  have "scp_slot_offset p ! i + n < 2 ^ 32" using b r by linarith
  then show "scp_try_advance dbg i n p =
      Ret (Some (i * scp_slot_size p + (scp_slot_offset p ! i + n), length (scp_bytes p i) - n), scp_advanced i n p)"
    using ok u r unfolding scp_ok_def
    by (simp add: scp_try_advance_def scp_used_def scp_bytes_length [OF ok u] uint_add_fits scp_advanced_def)
  show "scp_ok (scp_advanced i n p)"
    using ok r b i by (auto simp: scp_ok_def scp_advanced_def nth_list_update)
  show slice: "buf_slice (i * scp_slot_size p + (scp_slot_offset p ! i + n)) (length (scp_bytes p i) - n) (scp_backing (scp_advanced i n p)) =
      drop n (scp_bytes p i)"
    unfolding scp_bytes_length [OF ok u]
    by (simp add: scp_advanced_def scp_bytes_def buf_slice_drop add.assoc [symmetric])
  have "scp_bytes (scp_advanced i n p) i = drop n (scp_bytes p i)"
    using ok i by (simp add: scp_bytes_def scp_advanced_def scp_ok_def buf_slice_drop add.assoc [symmetric])
  moreover have "scp_bytes (scp_advanced i n p) j = scp_bytes p j" if "j \<noteq> i" for j
    using that by (simp add: scp_bytes_def scp_advanced_def)
  ultimately show "scp_view (scp_advanced i n p) = (scp_view p)(i \<mapsto> drop n (scp_bytes p i))"
    using u by (auto simp: scp_view_def scp_used_def fun_eq_iff scp_advanced_def)
qed

definition scp_released :: "nat \<Rightarrow> SendCopyPool \<Rightarrow> SendCopyPool" where
  "scp_released i p = p\<lparr>scp_slot_bounded_send := (scp_slot_bounded_send p)[i := None],
     scp_in_use := (scp_in_use p)[i := False], scp_slot_offset := (scp_slot_offset p)[i := 0],
     scp_slot_remaining := (scp_slot_remaining p)[i := 0], scp_free_list := vec_push (scp_free_list p) i\<rparr>"

lemma scp_release_used:
  assumes ok: "scp_ok p" and u: "scp_used p i" and c: "dbg \<Longrightarrow> scp_slot_bounded_send p ! i = None"
  shows "scp_release dbg i p = Ret (scp_released i p)"
    and "scp_ok (scp_released i p)" "scp_view (scp_released i p) = (scp_view p)(i := None)"
proof -
  have i: "i < scp_count p" "scp_in_use p ! i" using u by (auto simp: scp_used_def)
  show "scp_release dbg i p = Ret (scp_released i p)"
    using ok i c by (auto simp: scp_release_def scp_released_def scp_ok_def Let_def)
  have f: "free_list_ok (scp_count p) (\<lambda>j. scp_in_use p ! j) (scp_free_list p)" using ok by (simp add: scp_ok_def)
  have "free_list_ok (scp_count p) (\<lambda>j. (scp_in_use p)[i := False] ! j) (vec_push (scp_free_list p) i)"
    using ok i by (intro free_list_ok_cong [OF free_list_ok_push [OF f i]]) (auto simp: scp_ok_def nth_list_update)
  then show "scp_ok (scp_released i p)"
    using ok i by (auto simp: scp_ok_def scp_released_def nth_list_update)
  show "scp_view (scp_released i p) = (scp_view p)(i := None)"
    using ok i by (auto simp: scp_view_def scp_used_def scp_bytes_def scp_released_def fun_eq_iff scp_ok_def)
qed

lemma scp_release_idle:
  assumes "scp_ok p" "\<not> scp_used p i" "i < scp_count p"
  shows "scp_release dbg i p = Ret p"
proof -
  have "(scp_slot_bounded_send p)[i := None] = scp_slot_bounded_send p"
    using assms list_update_id [of "scp_slot_bounded_send p" i] by (simp add: scp_ok_def scp_used_def)
  then show ?thesis
    using assms by (simp add: scp_release_def scp_ok_def scp_used_def Let_def)
qed

lemma scp_release_out_of_range: "scp_ok p \<Longrightarrow> \<not> i < scp_count p \<Longrightarrow> scp_release dbg i p = Panic"
  by (simp add: scp_release_def scp_ok_def)

lemma scp_reserved_ok: "scp_ok p \<Longrightarrow> n \<le> length (scp_free_list p) \<Longrightarrow> scp_ok (p\<lparr>scp_reserved := n\<rparr>)"
  "scp_view (p\<lparr>scp_reserved := n\<rparr>) = scp_view p"
  by (simp_all add: scp_ok_def scp_view_def scp_used_def scp_bytes_def fun_eq_iff)

subsection \<open>The specification: a store of byte strings with promises\<close>

text \<open>
  A client session owns the slots it was given and a list of outstanding reservations. The
  specification knows only which bytes each held slot still has to send and how many slots
  each reservation still promises. \<open>store_step\<close> relates an operation and its observable
  result, with the bytes the kernel reads at the returned pointer, to the change of the store.
\<close>

datatype scp_op =
    OpCopyIn bytes
  | OpGather "bytes list"
  | OpAllocRaw
  | OpReserve nat
  | OpFill nat bytes
  | OpShrink nat nat
  | OpReturn nat
  | OpAdvance nat nat
  | OpRelease nat

datatype scp_res = GotSlot nat bytes | Refused | Finished | Fine

type_synonym store = "(nat \<Rightarrow> bytes option) \<times> nat list"

definition store_free :: "nat \<Rightarrow> store \<Rightarrow> nat" where
  "store_free cap st = cap - card (dom (fst st)) - sum_list (snd st)"

definition store_put :: "nat \<Rightarrow> bytes \<Rightarrow> scp_res \<Rightarrow> (nat \<Rightarrow> bytes option) \<Rightarrow> (nat \<Rightarrow> bytes option) \<Rightarrow> bool" where
  "store_put cap d res m m' \<longleftrightarrow> (\<exists>i < cap. m i = None \<and> m' = m(i \<mapsto> d) \<and> res = GotSlot i d)"

fun store_step :: "nat \<Rightarrow> nat \<Rightarrow> scp_op \<Rightarrow> scp_res \<Rightarrow> store \<Rightarrow> store \<Rightarrow> bool" where
  "store_step cap sz (OpCopyIn d) res (m, rs) (m', rs') \<longleftrightarrow> rs' = rs \<and>
     (if length d \<le> sz \<and> 0 < store_free cap (m, rs) then store_put cap d res m m' else res = Refused \<and> m' = m)"
| "store_step cap sz (OpGather ds) res (m, rs) (m', rs') \<longleftrightarrow> rs' = rs \<and>
     (if length (concat ds) \<le> sz \<and> 0 < store_free cap (m, rs) then store_put cap (concat ds) res m m' else res = Refused \<and> m' = m)"
| "store_step cap sz OpAllocRaw res (m, rs) (m', rs') \<longleftrightarrow> rs' = rs \<and>
     (if 0 < store_free cap (m, rs) then store_put cap [] res m m' else res = Refused \<and> m' = m)"
| "store_step cap sz (OpReserve n) res (m, rs) (m', rs') \<longleftrightarrow> m' = m \<and>
     (if n \<le> store_free cap (m, rs) then res = Fine \<and> rs' = rs @ [n] else res = Refused \<and> rs' = rs)"
| "store_step cap sz (OpFill k d) res (m, rs) (m', rs') \<longleftrightarrow> rs' = rs[k := rs ! k - 1] \<and> store_put cap d res m m'"
| "store_step cap sz (OpShrink k keep) res (m, rs) (m', rs') \<longleftrightarrow> m' = m \<and> rs' = rs[k := keep] \<and> res = Fine"
| "store_step cap sz (OpReturn k) res (m, rs) (m', rs') \<longleftrightarrow> m' = m \<and> rs' = rs[k := 0] \<and> res = Fine"
| "store_step cap sz (OpAdvance i n) res (m, rs) (m', rs') \<longleftrightarrow> rs' = rs \<and>
     (\<exists>d. m i = Some d \<and> (if n = length d then m' = m \<and> res = Finished
                          else m' = m(i \<mapsto> drop n d) \<and> res = GotSlot i (drop n d)))"
| "store_step cap sz (OpRelease i) res (m, rs) (m', rs') \<longleftrightarrow> rs' = rs \<and> m' = m(i := None) \<and> res = Fine"

text \<open>The same operations on the pool; the reservations are the values the client holds.\<close>

definition slot_result :: "(nat \<times> nat \<times> nat) option \<times> SendCopyPool \<Rightarrow> scp_res" where
  "slot_result r = (case r of (None, p) \<Rightarrow> Refused | (Some (i, ptr, len), p) \<Rightarrow> GotSlot i (buf_slice ptr len (scp_backing p)))"

type_synonym scp_session = "SendCopyPool \<times> SlotReservation list"

fun scp_step :: "profile \<Rightarrow> scp_op \<Rightarrow> scp_session \<Rightarrow> (scp_res \<times> scp_session) outcome" where
  "scp_step dbg (OpCopyIn d) (p, rs) =
     outcome_bind (scp_copy_in dbg d p) (\<lambda>r. Ret (slot_result r, (snd r, rs)))"
| "scp_step dbg (OpGather ds) (p, rs) =
     outcome_bind (scp_copy_in_gather dbg ds (length (concat ds)) p) (\<lambda>r. Ret (slot_result r, (snd r, rs)))"
| "scp_step dbg OpAllocRaw (p, rs) =
     outcome_bind (scp_alloc_raw dbg p) (\<lambda>(r, p'). Ret (case r of None \<Rightarrow> Refused | Some (i, _) \<Rightarrow> GotSlot i (scp_bytes p' i), (p', rs)))"
| "scp_step dbg (OpReserve n) (p, rs) =
     outcome_bind (scp_reserve_slots dbg n p) (\<lambda>(r, p').
       case r of Inl _ \<Rightarrow> Ret (Refused, (p', rs)) | Inr res \<Rightarrow> Ret (Fine, (p', rs @ [res])))"
| "scp_step dbg (OpFill k d) (p, rs) =
     outcome_bind (scp_copy_in_reserved dbg (rs ! k) d p) (\<lambda>(out, r', p'). Ret (slot_result (Some out, p'), (p', rs[k := r'])))"
| "scp_step dbg (OpShrink k keep) (p, rs) =
     outcome_bind (scp_shrink_reservation dbg (rs ! k) keep p) (\<lambda>(r', p'). Ret (Fine, (p', rs[k := r'])))"
| "scp_step dbg (OpReturn k) (p, rs) =
     outcome_bind (scp_release_reservation dbg (rs ! k) p) (\<lambda>p'. Ret (Fine, (p', rs[k := \<lparr>sr_remaining = 0\<rparr>])))"
| "scp_step dbg (OpAdvance i n) (p, rs) =
     outcome_bind (scp_try_advance dbg i n p) (\<lambda>(r, p').
       Ret (case r of None \<Rightarrow> Finished | Some (ptr, len) \<Rightarrow> GotSlot i (buf_slice ptr len (scp_backing p')), (p', rs)))"
| "scp_step dbg (OpRelease i) (p, rs) = outcome_bind (scp_release dbg i p) (\<lambda>p'. Ret (Fine, (p', rs)))"

text \<open>
  The discipline the callers keep: a reservation is filled only while it promises a slot and
  never grown, a completion reports at most the bytes outstanding, and a slot is released by
  its holder after any bounded send on it was taken.
\<close>

fun scp_legal :: "scp_op \<Rightarrow> scp_session \<Rightarrow> bool" where
  "scp_legal (OpFill k d) (p, rs) \<longleftrightarrow> k < length rs \<and> 0 < sr_remaining (rs ! k) \<and> length d \<le> scp_slot_size p"
| "scp_legal (OpShrink k keep) (p, rs) \<longleftrightarrow> k < length rs \<and> keep \<le> sr_remaining (rs ! k)"
| "scp_legal (OpReturn k) (p, rs) \<longleftrightarrow> k < length rs"
| "scp_legal (OpAdvance i n) (p, rs) \<longleftrightarrow> scp_used p i \<and> n \<le> scp_slot_remaining p ! i"
| "scp_legal (OpRelease i) (p, rs) \<longleftrightarrow> scp_used p i \<and> scp_slot_bounded_send p ! i = None"
| "scp_legal _ (p, rs) \<longleftrightarrow> True"

definition session_ok :: "scp_session \<Rightarrow> bool" where
  "session_ok st \<longleftrightarrow> scp_ok (fst st) \<and> sum_list (map sr_remaining (snd st)) = scp_reserved (fst st)"

definition session_abs :: "scp_session \<Rightarrow> store" where
  "session_abs st = (scp_view (fst st), map sr_remaining (snd st))"

lemma store_free_available:
  assumes "session_ok st"
  shows "store_free (scp_count (fst st)) (session_abs st) = scp_available (fst st)"
proof -
  let ?p = "fst st"
  have f: "free_list_ok (scp_count ?p) (\<lambda>i. scp_in_use ?p ! i) (scp_free_list ?p)"
    using assms by (simp add: session_ok_def scp_ok_def)
  have "dom (scp_view ?p) = {i. i < scp_count ?p \<and> scp_in_use ?p ! i}"
    by (auto simp: scp_view_def scp_used_def split: if_splits)
  then have "card (dom (scp_view ?p)) = scp_count ?p - length (scp_free_list ?p)"
    using free_list_ok_count [OF f] by simp
  then show ?thesis
    using free_list_ok_le [OF f] assms by (simp add: store_free_def session_abs_def scp_available_def session_ok_def)
qed

lemma sum_list_update_nat: "k < length xs \<Longrightarrow> sum_list (xs[k := x]) = sum_list xs - xs ! k + (x::nat)"
  using sum_list_update [of k xs x] elem_le_sum_list [of k xs] by simp

text \<open>Allocation, for every allocator at once.\<close>

lemma session_put:
  assumes ok: "session_ok (p, rs)" and fl: "scp_free_list p = fl @ [idx]" and len: "length d \<le> scp_slot_size p"
    and res: "res \<le> length fl" and rs': "sum_list (map sr_remaining rs') = res"
  shows "session_ok (scp_filled res idx d p, rs')"
    and "store_put (scp_count p) d (slot_result (Some (idx, idx * scp_slot_size p, length d), scp_filled res idx d p))
       (scp_view p) (scp_view (scp_filled res idx d p))"
    and "scp_bytes (scp_filled res idx d p) idx = d"
proof -
  have p: "scp_ok p" using ok by (simp add: session_ok_def)
  note f = scp_filled_ok [OF p fl len res]
  show "session_ok (scp_filled res idx d p, rs')" using f(1) rs' by (simp add: session_ok_def scp_filled_def)
  show "store_put (scp_count p) d (slot_result (Some (idx, idx * scp_slot_size p, length d), scp_filled res idx d p))
       (scp_view p) (scp_view (scp_filled res idx d p))"
    using f unfolding store_put_def slot_result_def by (intro exI [of _ idx]) (auto simp: scp_view_def)
  have "scp_view (scp_filled res idx d p) idx = Some d" using f(4) by simp
  then show "scp_bytes (scp_filled res idx d p) idx = d" by (auto simp: scp_view_def split: if_splits)
qed

lemma scp_filled_count [simp]: "scp_count (scp_filled res idx d p) = scp_count p" "scp_slot_size (scp_filled res idx d p) = scp_slot_size p"
  by (simp_all add: scp_filled_def)

text \<open>The simulation: each legal operation returns, in either build, and is a step of the store.\<close>

abbreviation step_simulates :: "profile \<Rightarrow> scp_op \<Rightarrow> scp_session \<Rightarrow> bool" where
  "step_simulates dbg opr st \<equiv> \<exists>res st'. scp_step dbg opr st = Ret (res, st') \<and> session_ok st' \<and>
     scp_count (fst st') = scp_count (fst st) \<and> scp_slot_size (fst st') = scp_slot_size (fst st) \<and>
     store_step (scp_count (fst st)) (scp_slot_size (fst st)) opr res (session_abs st) (session_abs st')"

lemma copy_in_simulates:
  assumes ok: "session_ok (p, rs)"
  shows "step_simulates dbg (OpCopyIn d) (p, rs)" "step_simulates dbg (OpGather ds) (p, rs)" "step_simulates dbg OpAllocRaw (p, rs)"
proof -
  have p: "scp_ok p" and sum: "sum_list (map sr_remaining rs) = scp_reserved p" using ok by (auto simp: session_ok_def)
  have free: "store_free (scp_count p) (scp_view p, map sr_remaining rs) = scp_available p"
    using store_free_available [OF ok] by (simp add: session_abs_def)
  have put: "step_simulates dbg (OpCopyIn d) (p, rs)" for d
  proof (cases "length d \<le> scp_slot_size p \<and> 0 < scp_available p")
    case True
    then obtain fl idx where fl: "scp_free_list p = fl @ [idx]" "scp_reserved p \<le> length fl" using available_pop by blast
    show ?thesis
      using True free session_put [OF ok fl(1) _ fl(2) sum, of d] scp_copy_in_eq [OF p _ _ fl(1), of d dbg]
      by (auto simp: session_abs_def)
  next
    case False
    then show ?thesis using free ok scp_copy_in_refused [OF p, of d dbg] by (auto simp: session_abs_def slot_result_def)
  qed
  then show "step_simulates dbg (OpCopyIn d) (p, rs)" .
  show "step_simulates dbg (OpGather ds) (p, rs)"
  proof (cases "length (concat ds) \<le> scp_slot_size p \<and> 0 < scp_available p")
    case True
    then obtain fl idx where fl: "scp_free_list p = fl @ [idx]" using available_pop by blast
    show ?thesis
      using put [of "concat ds"] scp_copy_in_gather_eq [OF p _ _ fl, of ds dbg] True
      by (auto simp: session_abs_def simp del: length_concat)
  next
    case False
    then show ?thesis
      using free ok scp_copy_in_gather_refused [OF p, of "length (concat ds)" dbg ds]
      by (auto simp: session_abs_def slot_result_def simp del: length_concat)
  qed
  show "step_simulates dbg OpAllocRaw (p, rs)"
  proof (cases "0 < scp_available p")
    case True
    then obtain fl idx where fl: "scp_free_list p = fl @ [idx]" "scp_reserved p \<le> length fl" using available_pop by blast
    show ?thesis
      using True free session_put [OF ok fl(1) _ fl(2) sum, of "[]"] scp_alloc_raw_eq [OF p _ fl(1), of dbg]
      by (auto simp: session_abs_def slot_result_def buf_slice_def)
  next
    case False
    then show ?thesis using free ok scp_alloc_raw_refused [OF p, of dbg] by (auto simp: session_abs_def)
  qed
qed

lemma free_below_usize: "scp_ok p \<Longrightarrow> length (scp_free_list p) < 2 ^ 64"
  using free_list_ok_le [of "scp_count p" "\<lambda>i. scp_in_use p ! i" "scp_free_list p"] by (simp add: scp_ok_def)

lemma reserve_simulates:
  assumes ok: "session_ok (p, rs)"
  shows "step_simulates dbg (OpReserve n) (p, rs)"
proof -
  have p: "scp_ok p" and sum: "sum_list (map sr_remaining rs) = scp_reserved p" using ok by (auto simp: session_ok_def)
  have free: "store_free (scp_count p) (scp_view p, map sr_remaining rs) = scp_available p"
    using store_free_available [OF ok] by (simp add: session_abs_def)
  have le: "scp_available p \<le> scp_count p" "scp_reserved p \<le> length (scp_free_list p)"
    using free_list_ok_le [of "scp_count p" "\<lambda>i. scp_in_use p ! i" "scp_free_list p"] p
    by (auto simp: scp_available_def scp_ok_def)
  show ?thesis
  proof (cases "n \<le> scp_available p")
    case True
    then have fit: "scp_reserved p + n \<le> length (scp_free_list p)" using le(2) by (simp add: scp_available_def)
    then have "scp_reserve_slots dbg n p = Ret (Inr \<lparr>sr_remaining = n\<rparr>, p\<lparr>scp_reserved := scp_reserved p + n\<rparr>)"
      using True le free_below_usize [OF p]
      by (simp add: scp_reserve_slots_def scp_slot_count_def scp_free_count_eq [OF p] uint_add_fits)
    then show ?thesis
      using True free sum scp_reserved_ok(1) [OF p fit] by (simp add: session_abs_def session_ok_def scp_reserved_ok(2))
  next
    case False
    then have "\<exists>e. scp_reserve_slots dbg n p = Ret (Inl e, p)"
      by (simp add: scp_reserve_slots_def scp_slot_count_def scp_free_count_eq [OF p] Let_def)
    then obtain e where "scp_reserve_slots dbg n p = Ret (Inl e, p)" ..
    then show ?thesis using False free ok by (simp add: session_abs_def)
  qed
qed

lemma remaining_le_reserved:
  "session_ok (p, rs) \<Longrightarrow> k < length rs \<Longrightarrow> sr_remaining (rs ! k) \<le> scp_reserved p"
  using elem_le_sum_list [of k "map sr_remaining rs"] by (simp add: session_ok_def)

lemma fill_simulates:
  assumes ok: "session_ok (p, rs)" and "scp_legal (OpFill k d) (p, rs)"
  shows "step_simulates dbg (OpFill k d) (p, rs)"
proof -
  have k: "k < length rs" "0 < sr_remaining (rs ! k)" "length d \<le> scp_slot_size p" using assms(2) by auto
  have p: "scp_ok p" using ok by (simp add: session_ok_def)
  have r: "0 < scp_reserved p" using remaining_le_reserved [OF ok k(1)] k(2) by linarith
  obtain fl idx where fl: "scp_free_list p = fl @ [idx]" "scp_reserved p - 1 \<le> length fl"
    using reserved_pop [OF p r] by blast
  let ?rs = "rs[k := (rs ! k)\<lparr>sr_remaining := sr_remaining (rs ! k) - 1\<rparr>]"
  have "sum_list (map sr_remaining ?rs) = scp_reserved p - 1"
    using ok k remaining_le_reserved [OF ok k(1)] by (simp add: map_update sum_list_update_nat session_ok_def)
  from session_put [OF ok fl(1) k(3) fl(2) this] show ?thesis
    using scp_copy_in_reserved_eq [OF p k(3,2) r fl(1), of dbg] k
    by (auto simp: session_abs_def map_update)
qed

lemma shrink_simulates:
  assumes ok: "session_ok (p, rs)" and "scp_legal (OpShrink k keep) (p, rs)"
  shows "step_simulates dbg (OpShrink k keep) (p, rs)"
proof -
  have k: "k < length rs" "keep \<le> sr_remaining (rs ! k)" using assms(2) by auto
  note le = remaining_le_reserved [OF ok k(1)]
  let ?n = "scp_reserved p - (sr_remaining (rs ! k) - keep)"
  have p: "scp_ok p" using ok by (simp add: session_ok_def)
  have "scp_ok (p\<lparr>scp_reserved := ?n\<rparr>)" using p by (intro scp_reserved_ok(1)) (auto simp: scp_ok_def)
  moreover have "sum_list (map sr_remaining (rs[k := (rs ! k)\<lparr>sr_remaining := keep\<rparr>])) = ?n"
    using ok k le by (simp add: map_update sum_list_update_nat session_ok_def)
  moreover have "scp_shrink_reservation dbg (rs ! k) keep p = Ret ((rs ! k)\<lparr>sr_remaining := keep\<rparr>, p\<lparr>scp_reserved := ?n\<rparr>)"
    using k le diff_le_self [of "sr_remaining (rs ! k)" keep, THEN order_trans, OF le] by (simp add: scp_shrink_reservation_def Let_def)
  ultimately show ?thesis using k by (simp add: session_abs_def session_ok_def map_update scp_reserved_ok(2))
qed

lemma return_simulates:
  assumes ok: "session_ok (p, rs)" and "scp_legal (OpReturn k) (p, rs)"
  shows "step_simulates dbg (OpReturn k) (p, rs)"
proof -
  have k: "k < length rs" using assms(2) by auto
  note le = remaining_le_reserved [OF ok k]
  let ?n = "scp_reserved p - sr_remaining (rs ! k)"
  have p: "scp_ok p" using ok by (simp add: session_ok_def)
  have "scp_ok (p\<lparr>scp_reserved := ?n\<rparr>)" using p by (intro scp_reserved_ok(1)) (auto simp: scp_ok_def)
  moreover have "sum_list (map sr_remaining (rs[k := \<lparr>sr_remaining = 0\<rparr>])) = ?n"
    using ok k by (simp add: map_update sum_list_update_nat session_ok_def)
  moreover have "scp_release_reservation dbg (rs ! k) p = Ret (p\<lparr>scp_reserved := ?n\<rparr>)"
    using le by (simp add: scp_release_reservation_def scp_reservation_drop_def)
  ultimately show ?thesis using k by (simp add: session_abs_def session_ok_def map_update scp_reserved_ok(2))
qed

lemma advance_simulates:
  assumes ok: "session_ok (p, rs)" and "scp_legal (OpAdvance i n) (p, rs)"
  shows "step_simulates dbg (OpAdvance i n) (p, rs)"
proof -
  have p: "scp_ok p" and u: "scp_used p i" and n: "n \<le> length (scp_bytes p i)"
    using assms scp_bytes_length [of p i] by (auto simp: session_ok_def)
  show ?thesis
  proof (cases "n = length (scp_bytes p i)")
    case True
    then show ?thesis
      using scp_try_advance_done [OF p u, of dbg] ok u by (simp add: session_abs_def scp_view_def)
  next
    case False
    then have "n < length (scp_bytes p i)" using n by simp
    note adv = scp_try_advance_part [OF p u this]
    have c: "scp_count (scp_advanced i n p) = scp_count p" "scp_slot_size (scp_advanced i n p) = scp_slot_size p"
      "scp_reserved (scp_advanced i n p) = scp_reserved p" by (simp_all add: scp_advanced_def)
    have v: "scp_view p i = Some (scp_bytes p i)" using u by (simp add: scp_view_def)
    show ?thesis
      using adv(1) [of dbg] adv(2-4) ok False v c by (simp add: session_abs_def session_ok_def)
  qed
qed

lemma release_simulates:
  assumes ok: "session_ok (p, rs)" and "scp_legal (OpRelease i) (p, rs)"
  shows "step_simulates dbg (OpRelease i) (p, rs)"
proof -
  have p: "scp_ok p" and u: "scp_used p i" "scp_slot_bounded_send p ! i = None"
    using assms by (auto simp: session_ok_def)
  have "scp_count (scp_released i p) = scp_count p" "scp_slot_size (scp_released i p) = scp_slot_size p"
    "scp_reserved (scp_released i p) = scp_reserved p" by (simp_all add: scp_released_def)
  then show ?thesis
    using scp_release_used [OF p u(1), of dbg] u ok by (simp add: session_abs_def session_ok_def)
qed

lemma scp_step_simulates:
  assumes "session_ok st" "scp_legal opr st"
  shows "step_simulates dbg opr st"
proof -
  obtain p rs where st: "st = (p, rs)" by (cases st)
  have ok: "session_ok (p, rs)" and legal: "scp_legal opr (p, rs)" using assms by (simp_all only: st)
  show ?thesis
    unfolding st
  proof (cases opr)
    case (OpFill k d)
    show "step_simulates dbg opr (p, rs)"
      unfolding OpFill using ok legal [unfolded OpFill] by (rule fill_simulates)
  next
    case (OpShrink k keep)
    show "step_simulates dbg opr (p, rs)"
      unfolding OpShrink using ok legal [unfolded OpShrink] by (rule shrink_simulates)
  next
    case (OpReturn k)
    show "step_simulates dbg opr (p, rs)"
      unfolding OpReturn using ok legal [unfolded OpReturn] by (rule return_simulates)
  next
    case (OpAdvance i n)
    show "step_simulates dbg opr (p, rs)"
      unfolding OpAdvance using ok legal [unfolded OpAdvance] by (rule advance_simulates)
  next
    case (OpRelease i)
    show "step_simulates dbg opr (p, rs)"
      unfolding OpRelease using ok legal [unfolded OpRelease] by (rule release_simulates)
  qed (simp_all only: copy_in_simulates [OF ok] reserve_simulates [OF ok])
qed

subsection \<open>Sessions\<close>

text \<open>A session performs the legal operations of a script and logs each with its result.\<close>

fun scp_session :: "profile \<Rightarrow> scp_op list \<Rightarrow> scp_session \<Rightarrow> ((scp_op \<times> scp_res) list \<times> scp_session) outcome" where
  "scp_session dbg [] st = Ret ([], st)"
| "scp_session dbg (opr # ops) st =
     (if scp_legal opr st then
        outcome_bind (scp_step dbg opr st) (\<lambda>(res, st').
          outcome_bind (scp_session dbg ops st') (\<lambda>(tr, st''). Ret ((opr, res) # tr, st'')))
      else scp_session dbg ops st)"

inductive store_trace :: "nat \<Rightarrow> nat \<Rightarrow> (scp_op \<times> scp_res) list \<Rightarrow> store \<Rightarrow> store \<Rightarrow> bool" for cap sz where
  trace_done: "store_trace cap sz [] a a"
| trace_step: "store_step cap sz opr res a b \<Longrightarrow> store_trace cap sz tr b c \<Longrightarrow> store_trace cap sz ((opr, res) # tr) a c"

inductive_simps store_trace_simps: "store_trace cap sz [] a b" "store_trace cap sz (x # tr) a b"

lemma scp_session_simulates:
  assumes "session_ok st"
  shows "\<exists>tr st'. scp_session dbg ops st = Ret (tr, st') \<and> session_ok st' \<and>
    store_trace (scp_count (fst st)) (scp_slot_size (fst st)) tr (session_abs st) (session_abs st')"
  using assms
proof (induction ops arbitrary: st)
  case Nil
  then show ?case by (simp add: store_trace_simps)
next
  case (Cons opr ops)
  show ?case
  proof (cases "scp_legal opr st")
    case True
    obtain res st1 where s: "scp_step dbg opr st = Ret (res, st1)" "session_ok st1"
        "scp_count (fst st1) = scp_count (fst st)" "scp_slot_size (fst st1) = scp_slot_size (fst st)"
        "store_step (scp_count (fst st)) (scp_slot_size (fst st)) opr res (session_abs st) (session_abs st1)"
      using scp_step_simulates [OF Cons.prems True, of dbg] by blast
    then obtain tr st2 where "scp_session dbg ops st1 = Ret (tr, st2)" "session_ok st2"
        "store_trace (scp_count (fst st)) (scp_slot_size (fst st)) tr (session_abs st1) (session_abs st2)"
      using Cons.IH [of st1] by auto
    then show ?thesis using s True trace_step [OF s(5)] by auto
  next
    case False
    then show ?thesis using Cons by simp
  qed
qed

text \<open>
  C8. The copy pool refines a store of byte strings. For every pool size and every sequence
  of copies, gathers, raw allocations, reservations, reserved fills, shrinks, returns,
  partial completions and releases by disciplined callers, in debug and release builds: no
  step panics (a reserved slot is never missing from the free list, no counter overflows);
  each allocation gets a slot nobody holds and the kernel reads exactly the submitted bytes
  there; an unreserved allocation is refused exactly when the data does not fit or all free
  slots are promised; a partial completion leaves exactly the unsent suffix; and no operation
  changes the bytes of any other held slot.
\<close>

theorem scp_refines_store:
  assumes "n < 2 ^ 16" "sz < 2 ^ 32"
  shows "\<exists>tr st. scp_session dbg ops (scp_new n sz, []) = Ret (tr, st) \<and> session_ok st \<and>
    store_trace n sz tr (Map.empty, []) (session_abs st)"
proof -
  have "session_ok (scp_new n sz, [])" using scp_new_ok(1) [OF assms] by (simp add: session_ok_def scp_new_def)
  moreover have "session_abs (scp_new n sz, []) = (Map.empty, [])" by (simp add: session_abs_def scp_new_ok(2))
  ultimately show ?thesis using scp_session_simulates [of "(scp_new n sz, [])" dbg ops] by (simp add: scp_new_def)
qed

theorem scp_refines_store_witness:
  "\<exists>tr st. scp_session True [OpReserve 1, OpCopyIn [1, 2, 3], OpCopyIn [4], OpFill 0 [5, 6], OpAdvance 0 1, OpRelease 1] (scp_new 2 4, []) =
     Ret (tr, st) \<and> map snd tr = [Fine, GotSlot 0 [1, 2, 3], Refused, GotSlot 1 [5, 6], GotSlot 0 [2, 3], Fine] \<and>
     store_trace 2 4 tr (Map.empty, []) (session_abs st)"
proof -
  let ?ops = "[OpReserve 1, OpCopyIn [1, 2, 3], OpCopyIn [4], OpFill 0 [5, 6], OpAdvance 0 1, OpRelease 1]"
  obtain tr st where t: "scp_session True ?ops (scp_new 2 4, []) = Ret (tr, st)"
      "store_trace 2 4 tr (Map.empty, []) (session_abs st)"
    using scp_refines_store [of 2 4 True ?ops] by auto
  have "(case scp_session True ?ops (scp_new 2 4, []) of Panic \<Rightarrow> [] | Ret (tr, _) \<Rightarrow> map snd tr) =
      [Fine, GotSlot 0 [1, 2, 3], Refused, GotSlot 1 [5, 6], GotSlot 0 [2, 3], Fine]"
    by (simp add: scp_new_def scp_reserve_slots_def scp_slot_count_def scp_free_count_def uint_add_def Let_def
        scp_copy_in_def scp_pop_unreserved_def vec_pop_def scp_fill_slot_def scp_track_def cast_uint_def buf_write_def
        slot_result_def buf_slice_def scp_copy_in_reserved_def scp_used_def scp_try_advance_def scp_release_def upt_rec)
  then have "map snd tr = [Fine, GotSlot 0 [1, 2, 3], Refused, GotSlot 1 [5, 6], GotSlot 0 [2, 3], Fine]"
    unfolding t(1) by (simp only: outcome.case prod.case)
  with t show ?thesis by (intro exI conjI)
qed

subsection \<open>The pool as a slot pool\<close>

definition scp_acquire :: "bytes \<Rightarrow> SendCopyPool \<Rightarrow> (nat \<times> SendCopyPool) option" where
  "scp_acquire data p = (case scp_copy_in False data p of Ret (Some (i, _), p') \<Rightarrow> Some (i, p') | _ \<Rightarrow> None)"

definition scp_give :: "nat \<Rightarrow> SendCopyPool \<Rightarrow> SendCopyPool" where
  "scp_give i p = (case scp_release False i p of Ret p' \<Rightarrow> p' | Panic \<Rightarrow> p)"

definition scp_fits :: "bytes \<Rightarrow> SendCopyPool \<Rightarrow> bool" where
  "scp_fits data p \<longleftrightarrow> length data \<le> scp_slot_size p \<and> scp_reserved p = 0"

lemma scp_acquire_SomeD:
  assumes "scp_ok p" "scp_acquire d p = Some (i, p')"
  obtains fl where "scp_free_list p = fl @ [i]" "p' = scp_filled (scp_reserved p) i d p" "length d \<le> scp_slot_size p"
    "scp_reserved p \<le> length fl"
proof (cases "length d \<le> scp_slot_size p \<and> 0 < scp_available p")
  case True
  then obtain fl idx where fl: "scp_free_list p = fl @ [idx]" "scp_reserved p \<le> length fl" using available_pop by blast
  then show ?thesis
    using that assms True scp_copy_in_eq [OF assms(1) _ _ fl(1), of d False] by (auto simp: scp_acquire_def)
next
  case False
  then show ?thesis using assms scp_copy_in_refused [OF assms(1), of d False] by (auto simp: scp_acquire_def)
qed

lemma scp_give_used: "scp_ok p \<Longrightarrow> scp_used p i \<Longrightarrow> scp_give i p = scp_released i p"
  using scp_release_used(1) [of p i False] by (simp add: scp_give_def)

lemma scp_used_filled: "scp_ok p \<Longrightarrow> i < scp_count p \<Longrightarrow> scp_used (scp_filled res i d p) = (scp_used p)(i := True)"
  by (auto simp: scp_used_def scp_filled_def fun_eq_iff scp_ok_def nth_list_update)

lemma scp_used_released: "scp_ok p \<Longrightarrow> scp_used p i \<Longrightarrow> scp_used (scp_released i p) = (scp_used p)(i := False)"
  by (auto simp: scp_used_def scp_released_def fun_eq_iff scp_ok_def nth_list_update)

interpretation copy_pool: guarded_slot_pool scp_ok scp_count scp_used scp_fits scp_acquire scp_give
proof
  fix p i d p' assume ok: "scp_ok p" and acq: "scp_acquire d p = Some (i, p')"
  from acq obtain fl where fl: "scp_free_list p = fl @ [i]" and p': "p' = scp_filled (scp_reserved p) i d p"
    and len: "length d \<le> scp_slot_size p" and res: "scp_reserved p \<le> length fl"
    by (rule scp_acquire_SomeD [OF ok])
  note f = scp_filled_ok [OF ok fl len res]
  show "i < scp_count p \<and> \<not> scp_used p i" "scp_used p' = (scp_used p)(i := True)" "scp_count p' = scp_count p" "scp_ok p'"
    using f p' scp_used_filled [OF ok f(3)] by auto
next
  fix p d i assume ok: "scp_ok p" and "scp_acquire d p = None" "scp_fits d p" "i < scp_count p"
  then have "scp_free_list p = []"
    using available_pop [of p] scp_copy_in_eq [OF ok, of d _ _ False]
    by (cases "0 < scp_available p") (auto simp: scp_acquire_def scp_fits_def scp_available_def)
  then show "scp_used p i"
    using ok \<open>i < scp_count p\<close> free_list_ok_empty [of "scp_count p" "\<lambda>i. scp_in_use p ! i" i] by (simp add: scp_used_def scp_ok_def)
next
  fix p i assume "scp_ok p" "\<not> scp_used p i"
  then show "scp_give i p = p"
    by (cases "i < scp_count p") (simp_all add: scp_give_def scp_release_idle scp_release_out_of_range)
next
  fix p i assume ok: "scp_ok p" and u: "scp_used p i"
  show "scp_used (scp_give i p) = (scp_used p)(i := False)"
    by (simp only: scp_give_used [OF ok u] scp_used_released [OF ok u])
  show "scp_count (scp_give i p) = scp_count p" by (simp add: scp_give_used [OF ok u] scp_released_def)
  show "scp_ok (scp_give i p)"
    using scp_release_used(2) [OF ok u, of False] by (simp add: scp_give_used [OF ok u])
qed (simp add: scp_used_def)

end
