(* ===== verification/Send_Slab.thy ===== *)
theory Send_Slab
  imports Slot_Pool Send_Capacity
begin

section \<open>The slab of in-flight vectored sends (\<open>ringline/src/buffer/send_slab.rs\<close>)\<close>

text \<open>
  A vectored send keeps its iovecs, its message header and the resources it pins (a pool
  slot, coalesced pool slots, receive buffers, guards) in a slab entry until the completion
  and all zero-copy notifications have arrived. Addresses are natural numbers below
  \<open>2 ^ 64\<close>; the header's \<open>msg_iov\<close>, a pointer into the entry's own array, is the array
  index it points at. Guards are opaque values.
\<close>

definition MAX_IOVECS :: nat where "MAX_IOVECS = 32"
definition MAX_GUARDS :: nat where "MAX_GUARDS = 8"
definition U16_MAX :: nat where "U16_MAX = 65535"

record iovec =
  iov_base :: nat
  iov_len :: nat

record msghdr =
  msg_iov :: nat
  msg_iovlen :: nat

record 'g InFlightSendEntry =
  fe_iovecs :: "iovec list"
  fe_iov_count :: nat
  fe_iov_start :: nat
  fe_msghdr :: msghdr
  fe_pool_slot :: nat
  fe_pool_slots :: "nat list"
  fe_pool_slot_count :: nat
  fe_bids :: "nat list"
  fe_bid_count :: nat
  fe_guards :: "'g option list"
  fe_guard_count :: nat
  fe_conn_index :: u32
  fe_generation :: u32
  fe_total_len :: nat
  fe_end_of_send :: bool
  fe_bounded_send :: "(BoundedSendId \<times> nat) option"
  fe_pending_notifs :: nat
  fe_awaiting_notifications :: bool
  fe_in_use :: bool

record 'g InFlightSendSlab =
  slab_entries :: "'g InFlightSendEntry list"
  slab_free_list :: "nat list"

definition slab_blank_entry :: "'g InFlightSendEntry" where
  "slab_blank_entry =
     \<lparr>fe_iovecs = replicate MAX_IOVECS \<lparr>iov_base = 0, iov_len = 0\<rparr>, fe_iov_count = 0, fe_iov_start = 0,
      fe_msghdr = \<lparr>msg_iov = 0, msg_iovlen = 0\<rparr>, fe_pool_slot = U16_MAX,
      fe_pool_slots = replicate MAX_IOVECS U16_MAX, fe_pool_slot_count = 0,
      fe_bids = replicate MAX_IOVECS U16_MAX, fe_bid_count = 0,
      fe_guards = replicate MAX_GUARDS None, fe_guard_count = 0, fe_conn_index = 0, fe_generation = 0,
      fe_total_len = 0, fe_end_of_send = True, fe_bounded_send = None, fe_pending_notifs = 0,
      fe_awaiting_notifications = False, fe_in_use = False\<rparr>"

definition slab_new :: "nat \<Rightarrow> 'g InFlightSendSlab" where
  "slab_new capacity = \<lparr>slab_entries = replicate capacity slab_blank_entry, slab_free_list = rev [0..<capacity]\<rparr>"

text \<open>
  A \<open>for (i, x) in xs.iter().enumerate() { array[i] = x }\<close> loop: an index past the array
  panics, otherwise the front of the array is overwritten.
\<close>

definition copy_front :: "'a list \<Rightarrow> 'a list \<Rightarrow> ('a list \<Rightarrow> 'b outcome) \<Rightarrow> 'b outcome" where
  "copy_front xs array k = ensure (length xs \<le> length array) (k (buf_write 0 xs array))"

definition slab_allocate ::
  "profile \<Rightarrow> u32 \<Rightarrow> u32 \<Rightarrow> iovec list \<Rightarrow> nat \<Rightarrow> 'g option list \<Rightarrow> nat \<Rightarrow> nat \<Rightarrow> 'g InFlightSendSlab \<Rightarrow>
   ((nat \<times> msghdr) option \<times> 'g InFlightSendSlab) outcome" where
  "slab_allocate dbg conn_index generation iovs pool_slot guards guard_count total_len s =
     debug_assert dbg (length iovs \<le> MAX_IOVECS)
       (case vec_pop (slab_free_list s) of
          None \<Rightarrow> Ret (None, s)
        | Some (idx, fl) \<Rightarrow>
            ensure (idx < length (slab_entries s))
              (let entry = slab_entries s ! idx in
               copy_front iovs (fe_iovecs entry) (\<lambda>iovecs.
                 let n = cast_uint 8 (length iovs);
                     hdr = \<lparr>msg_iov = 0, msg_iovlen = n\<rparr>;
                     entry' = entry\<lparr>fe_iovecs := iovecs, fe_iov_count := n, fe_iov_start := 0,
                       fe_pool_slot := pool_slot, fe_pool_slot_count := 0, fe_guards := guards,
                       fe_guard_count := guard_count, fe_conn_index := conn_index, fe_generation := generation,
                       fe_total_len := total_len, fe_end_of_send := True, fe_bounded_send := None,
                       fe_pending_notifs := 0, fe_awaiting_notifications := False, fe_in_use := True, fe_msghdr := hdr\<rparr>
                 in Ret (Some (idx, hdr), s\<lparr>slab_entries := (slab_entries s)[idx := entry'], slab_free_list := fl\<rparr>))))"

definition slab_allocate_coalesced ::
  "profile \<Rightarrow> u32 \<Rightarrow> u32 \<Rightarrow> iovec list \<Rightarrow> nat list \<Rightarrow> nat \<Rightarrow> bool \<Rightarrow> (BoundedSendId \<times> nat) option \<Rightarrow>
   'g InFlightSendSlab \<Rightarrow> ((nat \<times> msghdr) option \<times> 'g InFlightSendSlab) outcome" where
  "slab_allocate_coalesced dbg conn_index generation iovs pool_slots total_len end_of_send bounded_send s =
     debug_assert dbg (length iovs \<le> MAX_IOVECS)
       (debug_assert dbg (length iovs = length pool_slots)
         (debug_assert dbg (bounded_send = None \<or> end_of_send)
           (case vec_pop (slab_free_list s) of
              None \<Rightarrow> Ret (None, s)
            | Some (idx, fl) \<Rightarrow>
                ensure (idx < length (slab_entries s))
                  (let entry = slab_entries s ! idx in
                   copy_front iovs (fe_iovecs entry) (\<lambda>iovecs.
                     copy_front pool_slots (fe_pool_slots entry) (\<lambda>slots.
                       let n = cast_uint 8 (length iovs);
                           hdr = \<lparr>msg_iov = 0, msg_iovlen = n\<rparr>;
                           entry' = entry\<lparr>fe_iovecs := iovecs, fe_iov_count := n, fe_iov_start := 0,
                             fe_pool_slot := U16_MAX, fe_pool_slots := slots,
                             fe_pool_slot_count := cast_uint 8 (length pool_slots),
                             fe_guard_count := 0, fe_conn_index := conn_index, fe_generation := generation,
                             fe_total_len := total_len, fe_end_of_send := end_of_send, fe_bounded_send := bounded_send,
                             fe_pending_notifs := 0, fe_awaiting_notifications := False, fe_in_use := True, fe_msghdr := hdr\<rparr>
                       in Ret (Some (idx, hdr), s\<lparr>slab_entries := (slab_entries s)[idx := entry'], slab_free_list := fl\<rparr>)))))))"


definition slab_allocate_recv_forward ::
  "profile \<Rightarrow> u32 \<Rightarrow> u32 \<Rightarrow> iovec list \<Rightarrow> nat list \<Rightarrow> nat \<Rightarrow> 'g InFlightSendSlab \<Rightarrow>
   ((nat \<times> msghdr) option \<times> 'g InFlightSendSlab) outcome" where
  "slab_allocate_recv_forward dbg conn_index generation iovs bids total_len s =
     debug_assert dbg (length iovs \<le> MAX_IOVECS)
       (debug_assert dbg (length iovs = length bids)
         (case vec_pop (slab_free_list s) of
            None \<Rightarrow> Ret (None, s)
          | Some (idx, fl) \<Rightarrow>
              ensure (idx < length (slab_entries s))
                (let entry = slab_entries s ! idx in
                 copy_front iovs (fe_iovecs entry) (\<lambda>iovecs.
                   copy_front bids (fe_bids entry) (\<lambda>bids'.
                     let n = cast_uint 8 (length iovs);
                         hdr = \<lparr>msg_iov = 0, msg_iovlen = n\<rparr>;
                         entry' = entry\<lparr>fe_iovecs := iovecs, fe_iov_count := n, fe_iov_start := 0,
                           fe_pool_slot := U16_MAX, fe_pool_slot_count := 0, fe_bids := bids',
                           fe_bid_count := cast_uint 8 (length bids),
                           fe_guard_count := 0, fe_conn_index := conn_index, fe_generation := generation,
                           fe_total_len := total_len, fe_end_of_send := True, fe_bounded_send := None,
                           fe_pending_notifs := 0, fe_awaiting_notifications := False, fe_in_use := True, fe_msghdr := hdr\<rparr>
                     in Ret (Some (idx, hdr), s\<lparr>slab_entries := (slab_entries s)[idx := entry'], slab_free_list := fl\<rparr>))))))"


text \<open>The loop of \<open>try_advance\<close> over the indices \<open>i, i + 1, \<dots>\<close>, \<open>n\<close> of them left.\<close>

primrec advance_loop :: "nat \<Rightarrow> nat \<Rightarrow> nat \<Rightarrow> nat \<Rightarrow> iovec list \<Rightarrow> (nat \<times> iovec list) outcome" where
  "advance_loop 0 i skip new_start iovs = Ret (new_start, iovs)"
| "advance_loop (Suc n) i skip new_start iovs =
     ensure (i < length iovs)
       (let v = iovs ! i in
        if iov_len v \<le> skip then advance_loop n (i + 1) (skip - iov_len v) (i + 1) iovs
        else Ret (i, iovs[i := v\<lparr>iov_base := cast_uint 64 (iov_base v + skip), iov_len := iov_len v - skip\<rparr>]))"

definition slab_try_advance :: "profile \<Rightarrow> nat \<Rightarrow> nat \<Rightarrow> 'g InFlightSendSlab \<Rightarrow> (msghdr option \<times> 'g InFlightSendSlab) outcome" where
  "slab_try_advance dbg idx bytes_sent s =
     ensure (idx < length (slab_entries s))
       (let entry = slab_entries s ! idx; n = fe_iov_count entry in
        debug_assert dbg (fe_in_use entry)
          (outcome_bind (advance_loop (n - fe_iov_start entry) (fe_iov_start entry) bytes_sent (fe_iov_start entry) (fe_iovecs entry))
            (\<lambda>(new_start, iovs).
              let entry1 = entry\<lparr>fe_iovecs := iovs, fe_iov_start := cast_uint 8 new_start\<rparr> in
              if n \<le> new_start then Ret (None, s\<lparr>slab_entries := (slab_entries s)[idx := entry1]\<rparr>)
              else let hdr = \<lparr>msg_iov = new_start, msg_iovlen = n - new_start\<rparr> in
                Ret (Some hdr, s\<lparr>slab_entries := (slab_entries s)[idx := entry1\<lparr>fe_msghdr := hdr\<rparr>]\<rparr>))))"

text \<open>An indexed access to an entry, and an update of it in place.\<close>

definition slab_entry :: "nat \<Rightarrow> 'g InFlightSendSlab \<Rightarrow> ('g InFlightSendEntry \<Rightarrow> 'b outcome) \<Rightarrow> 'b outcome" where
  "slab_entry idx s k = ensure (idx < length (slab_entries s)) (k (slab_entries s ! idx))"

definition slab_put :: "nat \<Rightarrow> 'g InFlightSendEntry \<Rightarrow> 'g InFlightSendSlab \<Rightarrow> 'g InFlightSendSlab" where
  "slab_put idx e s = s\<lparr>slab_entries := (slab_entries s)[idx := e]\<rparr>"

definition slab_msghdr_ptr :: "nat \<Rightarrow> 'g InFlightSendSlab \<Rightarrow> msghdr outcome" where
  "slab_msghdr_ptr idx s = slab_entry idx s (\<lambda>e. Ret (fe_msghdr e))"

definition slab_inc_pending_notifs :: "profile \<Rightarrow> nat \<Rightarrow> 'g InFlightSendSlab \<Rightarrow> 'g InFlightSendSlab outcome" where
  "slab_inc_pending_notifs dbg idx s = slab_entry idx s (\<lambda>e.
     uint_add 8 dbg (fe_pending_notifs e) 1 (\<lambda>n. Ret (slab_put idx (e\<lparr>fe_pending_notifs := n\<rparr>) s)))"

definition slab_dec_pending_notifs :: "profile \<Rightarrow> nat \<Rightarrow> 'g InFlightSendSlab \<Rightarrow> (nat \<times> 'g InFlightSendSlab) outcome" where
  "slab_dec_pending_notifs dbg idx s = slab_entry idx s (\<lambda>e.
     debug_assert dbg (0 < fe_pending_notifs e)
       (uint_sub 8 dbg (fe_pending_notifs e) 1 (\<lambda>n. Ret (n, slab_put idx (e\<lparr>fe_pending_notifs := n\<rparr>) s))))"

definition slab_mark_awaiting_notifications :: "nat \<Rightarrow> 'g InFlightSendSlab \<Rightarrow> 'g InFlightSendSlab outcome" where
  "slab_mark_awaiting_notifications idx s = slab_entry idx s (\<lambda>e. Ret (slab_put idx (e\<lparr>fe_awaiting_notifications := True\<rparr>) s))"

definition slab_should_release :: "nat \<Rightarrow> 'g InFlightSendSlab \<Rightarrow> bool outcome" where
  "slab_should_release idx s = slab_entry idx s (\<lambda>e. Ret (fe_pending_notifs e = 0 \<and> fe_awaiting_notifications e))"

definition slab_release :: "profile \<Rightarrow> nat \<Rightarrow> 'g InFlightSendSlab \<Rightarrow> (nat \<times> 'g InFlightSendSlab) outcome" where
  "slab_release dbg idx s = slab_entry idx s (\<lambda>e.
     debug_assert dbg (fe_in_use e)
       (let e' = e\<lparr>fe_guards := map (\<lambda>_. None) (fe_guards e), fe_guard_count := 0, fe_pool_slot := U16_MAX,
              fe_pool_slot_count := 0, fe_bid_count := 0, fe_bounded_send := None, fe_in_use := False,
              fe_awaiting_notifications := False, fe_pending_notifs := 0\<rparr>
        in Ret (fe_pool_slot e, (slab_put idx e' s)\<lparr>slab_free_list := vec_push (slab_free_list s) idx\<rparr>)))"

definition slab_total_len :: "nat \<Rightarrow> 'g InFlightSendSlab \<Rightarrow> nat outcome" where
  "slab_total_len idx s = slab_entry idx s (\<lambda>e. Ret (fe_total_len e))"

definition slab_is_end_of_send :: "nat \<Rightarrow> 'g InFlightSendSlab \<Rightarrow> bool outcome" where
  "slab_is_end_of_send idx s = slab_entry idx s (\<lambda>e. Ret (fe_end_of_send e))"

definition slab_take_coalesced_bounded_send ::
  "nat \<Rightarrow> 'g InFlightSendSlab \<Rightarrow> ((BoundedSendId \<times> nat) option \<times> 'g InFlightSendSlab) outcome" where
  "slab_take_coalesced_bounded_send idx s = slab_entry idx s (\<lambda>e.
     Ret (fe_bounded_send e, slab_put idx (e\<lparr>fe_bounded_send := None\<rparr>) s))"

definition slab_conn_index :: "nat \<Rightarrow> 'g InFlightSendSlab \<Rightarrow> u32 outcome" where
  "slab_conn_index idx s = slab_entry idx s (\<lambda>e. Ret (fe_conn_index e))"

definition slab_generation :: "nat \<Rightarrow> 'g InFlightSendSlab \<Rightarrow> u32 outcome" where
  "slab_generation idx s = slab_entry idx s (\<lambda>e. Ret (fe_generation e))"

definition slab_in_use :: "nat \<Rightarrow> 'g InFlightSendSlab \<Rightarrow> bool outcome" where
  "slab_in_use idx s = slab_entry idx s (\<lambda>e. Ret (fe_in_use e))"

definition slab_has_in_flight :: "'g InFlightSendSlab \<Rightarrow> bool" where
  "slab_has_in_flight s \<longleftrightarrow> length (slab_free_list s) < length (slab_entries s)"

subsection \<open>What the kernel gathers\<close>

text \<open>
  Memory maps addresses to bytes. The bytes an entry still has to send are those of its
  iovecs from \<open>iov_start\<close> to \<open>iov_count\<close>; a header gathers the iovecs it points at.
\<close>

definition iov_valid :: "iovec \<Rightarrow> bool" where
  "iov_valid v \<longleftrightarrow> iov_base v + iov_len v \<le> 2 ^ 64"

definition iov_bytes :: "(nat \<Rightarrow> u8) \<Rightarrow> iovec \<Rightarrow> bytes" where
  "iov_bytes mem v = map mem [iov_base v..<iov_base v + iov_len v]"

definition gather :: "(nat \<Rightarrow> u8) \<Rightarrow> iovec list \<Rightarrow> bytes" where
  "gather mem vs = concat (map (iov_bytes mem) vs)"

definition unsent :: "'g InFlightSendEntry \<Rightarrow> iovec list" where
  "unsent e = drop (fe_iov_start e) (take (fe_iov_count e) (fe_iovecs e))"

definition hdr_iovs :: "'g InFlightSendEntry \<Rightarrow> msghdr \<Rightarrow> iovec list" where
  "hdr_iovs e h = take (msg_iovlen h) (drop (msg_iov h) (fe_iovecs e))"

lemma gather_simps [simp]: "gather mem [] = []" "gather mem (v # vs) = iov_bytes mem v @ gather mem vs"
  by (simp_all add: gather_def)

lemma length_iov_bytes [simp]: "length (iov_bytes mem v) = iov_len v"
  by (simp add: iov_bytes_def)

lemma length_gather: "length (gather mem vs) = sum_list (map iov_len vs)"
  by (induction vs) simp_all

text \<open>The reference for the loop: drop whole iovecs while they are covered, then trim one.\<close>

definition trim_iov :: "nat \<Rightarrow> iovec \<Rightarrow> iovec" where
  "trim_iov k v = v\<lparr>iov_base := cast_uint 64 (iov_base v + k), iov_len := iov_len v - k\<rparr>"

fun skip_iovs :: "nat \<Rightarrow> iovec list \<Rightarrow> iovec list" where
  "skip_iovs k [] = []"
| "skip_iovs k (v # vs) = (if iov_len v \<le> k then skip_iovs (k - iov_len v) vs else trim_iov k v # vs)"

lemma trim_iov_bytes:
  assumes "iov_valid v" "k < iov_len v"
  shows "iov_bytes mem (trim_iov k v) = drop k (iov_bytes mem v)" "iov_valid (trim_iov k v)"
proof -
  have "iov_base v + k < 2 ^ 64" using assms unfolding iov_valid_def by linarith
  then have b: "iov_base (trim_iov k v) = iov_base v + k" "iov_len (trim_iov k v) = iov_len v - k"
    by (simp_all add: trim_iov_def cast_uint_fits)
  show "iov_bytes mem (trim_iov k v) = drop k (iov_bytes mem v)"
    using assms(2) unfolding iov_bytes_def b by (simp add: drop_map)
  show "iov_valid (trim_iov k v)" using assms unfolding iov_valid_def b by simp
qed

lemma skip_iovs_gather: "\<forall>v \<in> set vs. iov_valid v \<Longrightarrow> gather mem (skip_iovs k vs) = drop k (gather mem vs)"
  by (induction k vs rule: skip_iovs.induct) (auto simp: trim_iov_bytes)

lemma skip_iovs_valid: "\<forall>v \<in> set vs. iov_valid v \<Longrightarrow> \<forall>v \<in> set (skip_iovs k vs). iov_valid v"
  by (induction k vs rule: skip_iovs.induct) (auto simp: trim_iov_bytes)

lemma skip_iovs_Nil_iff: "skip_iovs k vs = [] \<longleftrightarrow> sum_list (map iov_len vs) \<le> k"
  by (induction k vs rule: skip_iovs.induct) auto

lemma skip_iovs_left: "skip_iovs k vs = [] \<longleftrightarrow> gather mem (skip_iovs k vs) = []"
proof (induction k vs rule: skip_iovs.induct)
  case (2 k v vs)
  have "iov_bytes mem (trim_iov k v) \<noteq> []" if "\<not> iov_len v \<le> k"
    using that length_iov_bytes [of mem "trim_iov k v"] by (auto simp: trim_iov_def simp flip: length_0_conv)
  then show ?case using 2 by simp
qed simp

lemma advance_loop_eq:
  assumes "i + n \<le> length iovs"
  shows "\<exists>ns iovs'. advance_loop n i k i iovs = Ret (ns, iovs') \<and> i \<le> ns \<and> ns \<le> i + n \<and> length iovs' = length iovs \<and>
    drop ns (take (i + n) iovs') = skip_iovs k (drop i (take (i + n) iovs)) \<and>
    (\<forall>j. j < ns \<or> i + n \<le> j \<longrightarrow> iovs' ! j = iovs ! j)"
  using assms
proof (induction n arbitrary: i k)
  case (Suc n)
  have i: "i < length iovs" using Suc.prems by simp
  have d: "drop i (take (i + Suc n) iovs) = iovs ! i # drop (Suc i) (take (Suc i + n) iovs)"
    using i Suc.prems by (simp add: Cons_nth_drop_Suc [symmetric])
  show ?case
  proof (cases "iov_len (iovs ! i) \<le> k")
    case True
    then show ?thesis
      using Suc.IH [of "Suc i" "k - iov_len (iovs ! i)"] Suc.prems i d by auto
  next
    case False
    have "drop i (take (i + Suc n) (iovs[i := trim_iov k (iovs ! i)])) = trim_iov k (iovs ! i) # drop (Suc i) (take (Suc i + n) iovs)"
      using i Suc.prems by (simp add: take_update_swap drop_update_swap Cons_nth_drop_Suc [symmetric])
    then show ?thesis using False i d by (auto simp: trim_iov_def Let_def)
  qed
qed simp

subsection \<open>The slab's invariant\<close>

definition entry_clean :: "'g InFlightSendEntry \<Rightarrow> bool" where
  "entry_clean e \<longleftrightarrow> fe_pool_slot_count e = 0 \<and> fe_bid_count e = 0 \<and> fe_bounded_send e = None \<and>
     fe_guards e = replicate MAX_GUARDS None \<and> fe_pending_notifs e = 0 \<and> \<not> fe_awaiting_notifications e"

definition entry_ok :: "'g InFlightSendEntry \<Rightarrow> bool" where
  "entry_ok e \<longleftrightarrow> length (fe_iovecs e) = MAX_IOVECS \<and> length (fe_pool_slots e) = MAX_IOVECS \<and>
     length (fe_bids e) = MAX_IOVECS \<and> length (fe_guards e) = MAX_GUARDS \<and>
     fe_iov_start e \<le> fe_iov_count e \<and> fe_iov_count e \<le> MAX_IOVECS \<and>
     fe_pool_slot_count e \<le> MAX_IOVECS \<and> fe_bid_count e \<le> MAX_IOVECS \<and> fe_pending_notifs e < 256 \<and>
     (\<forall>v \<in> set (unsent e). iov_valid v) \<and> (unsent e \<noteq> [] \<longrightarrow> hdr_iovs e (fe_msghdr e) = unsent e) \<and>
     (\<not> fe_in_use e \<longrightarrow> entry_clean e)"

definition slab_used :: "'g InFlightSendSlab \<Rightarrow> nat \<Rightarrow> bool" where
  "slab_used s i \<longleftrightarrow> i < length (slab_entries s) \<and> fe_in_use (slab_entries s ! i)"

definition slab_ok :: "'g InFlightSendSlab \<Rightarrow> bool" where
  "slab_ok s \<longleftrightarrow> free_list_ok (length (slab_entries s)) (\<lambda>i. fe_in_use (slab_entries s ! i)) (slab_free_list s) \<and>
     (\<forall>i < length (slab_entries s). entry_ok (slab_entries s ! i))"

lemma slab_new_ok: "slab_ok (slab_new n :: 'g InFlightSendSlab)"
proof -
  have "free_list_ok n (\<lambda>i. fe_in_use (replicate n (slab_blank_entry :: 'g InFlightSendEntry) ! i)) (rev [0..<n])"
    by (rule free_list_ok_cong [OF free_list_ok_init(2)]) (simp add: slab_blank_entry_def)
  moreover have "entry_ok (slab_blank_entry :: 'g InFlightSendEntry)"
    by (simp add: entry_ok_def entry_clean_def slab_blank_entry_def unsent_def)
  ultimately show ?thesis by (simp add: slab_ok_def slab_new_def)
qed

text \<open>The three ways an operation changes the slab: an entry in place, a fresh entry, a freed one.\<close>

lemma slab_put_ok:
  assumes "slab_ok s" "i < length (slab_entries s)" "entry_ok e" "fe_in_use e = fe_in_use (slab_entries s ! i)"
  shows "slab_ok (slab_put i e s)" "slab_used (slab_put i e s) = slab_used s"
proof -
  have f: "free_list_ok (length (slab_entries s)) (\<lambda>j. fe_in_use (slab_entries s ! j)) (slab_free_list s)"
    using assms(1) by (simp add: slab_ok_def)
  have "free_list_ok (length (slab_entries s)) (\<lambda>j. fe_in_use ((slab_entries s)[i := e] ! j)) (slab_free_list s)"
    using assms(2,4) by (intro free_list_ok_cong [OF f]) (simp add: nth_list_update)
  then show "slab_ok (slab_put i e s)" using assms by (auto simp: slab_ok_def slab_put_def nth_list_update)
  show "slab_used (slab_put i e s) = slab_used s"
    using assms by (auto simp: slab_used_def slab_put_def fun_eq_iff nth_list_update)
qed

lemma slab_pop:
  assumes "slab_ok s" "slab_free_list s = fl @ [i]"
  shows "i < length (slab_entries s)" "\<not> fe_in_use (slab_entries s ! i)"
    and "entry_ok (slab_entries s ! i)" "entry_clean (slab_entries s ! i)"
proof -
  have "free_list_ok (length (slab_entries s)) (\<lambda>j. fe_in_use (slab_entries s ! j)) (fl @ [i])"
    using assms by (simp add: slab_ok_def)
  note pop = free_list_ok_pop [OF this]
  show "i < length (slab_entries s)" "\<not> fe_in_use (slab_entries s ! i)" using pop by auto
  then show "entry_ok (slab_entries s ! i)" "entry_clean (slab_entries s ! i)"
    using assms(1) by (auto simp: slab_ok_def entry_ok_def)
qed

lemma slab_take_ok:
  assumes "slab_ok s" "slab_free_list s = fl @ [i]" "entry_ok e" "fe_in_use e"
  shows "slab_ok (s\<lparr>slab_entries := (slab_entries s)[i := e], slab_free_list := fl\<rparr>)"
    and "slab_used (s\<lparr>slab_entries := (slab_entries s)[i := e], slab_free_list := fl\<rparr>) = (slab_used s)(i := True)"
proof -
  note i = slab_pop(1) [OF assms(1,2)]
  have f: "free_list_ok (length (slab_entries s)) (\<lambda>j. fe_in_use (slab_entries s ! j)) (fl @ [i])"
    using assms(1,2) by (simp add: slab_ok_def)
  have "free_list_ok (length (slab_entries s)) (\<lambda>j. fe_in_use ((slab_entries s)[i := e] ! j)) fl"
    using assms(4) i by (intro free_list_ok_cong [OF free_list_ok_pop(3) [OF f]]) (auto simp: nth_list_update)
  then show "slab_ok (s\<lparr>slab_entries := (slab_entries s)[i := e], slab_free_list := fl\<rparr>)"
    using assms(1,3) i by (auto simp: slab_ok_def nth_list_update)
  show "slab_used (s\<lparr>slab_entries := (slab_entries s)[i := e], slab_free_list := fl\<rparr>) = (slab_used s)(i := True)"
    using i assms(4) by (auto simp: slab_used_def fun_eq_iff nth_list_update)
qed

lemma slab_free_ok:
  assumes "slab_ok s" "slab_used s i" "entry_ok e" "\<not> fe_in_use e"
  shows "slab_ok ((slab_put i e s)\<lparr>slab_free_list := vec_push (slab_free_list s) i\<rparr>)"
    and "slab_used ((slab_put i e s)\<lparr>slab_free_list := vec_push (slab_free_list s) i\<rparr>) = (slab_used s)(i := False)"
proof -
  have i: "i < length (slab_entries s)" "fe_in_use (slab_entries s ! i)" using assms(2) by (auto simp: slab_used_def)
  have f: "free_list_ok (length (slab_entries s)) (\<lambda>j. fe_in_use (slab_entries s ! j)) (slab_free_list s)"
    using assms(1) by (simp add: slab_ok_def)
  have "free_list_ok (length (slab_entries s)) (\<lambda>j. fe_in_use ((slab_entries s)[i := e] ! j)) (vec_push (slab_free_list s) i)"
    using assms(4) i by (intro free_list_ok_cong [OF free_list_ok_push [OF f i]]) (simp add: nth_list_update)
  then show "slab_ok ((slab_put i e s)\<lparr>slab_free_list := vec_push (slab_free_list s) i\<rparr>)"
    using assms(1,3) i(1) by (simp add: slab_ok_def slab_put_def nth_list_update)
  show "slab_used ((slab_put i e s)\<lparr>slab_free_list := vec_push (slab_free_list s) i\<rparr>) = (slab_used s)(i := False)"
    using i assms(4) by (auto simp: slab_used_def slab_put_def fun_eq_iff nth_list_update)
qed

subsection \<open>Allocation\<close>

lemma take_buf_write_front: "length xs \<le> length arr \<Longrightarrow> take (length xs) (buf_write 0 xs arr) = xs"
  by (simp add: buf_write_def)

lemma cast_iov_count: "n \<le> MAX_IOVECS \<Longrightarrow> cast_uint 8 n = n"
  by (simp add: cast_uint_def MAX_IOVECS_def)

text \<open>An entry that sends \<open>iovs\<close> from the start, and what it pins.\<close>

definition sends_iovs :: "iovec list \<Rightarrow> msghdr \<Rightarrow> 'g InFlightSendEntry \<Rightarrow> bool" where
  "sends_iovs iovs h e \<longleftrightarrow> entry_ok e \<and> fe_in_use e \<and> unsent e = iovs \<and> fe_msghdr e = h \<and> hdr_iovs e h = iovs"

definition pinned :: "'g InFlightSendEntry \<Rightarrow> nat \<times> nat list \<times> nat list \<times> 'g option list \<times> (BoundedSendId \<times> nat) option" where
  "pinned e = (fe_pool_slot e, take (fe_pool_slot_count e) (fe_pool_slots e), take (fe_bid_count e) (fe_bids e), fe_guards e, fe_bounded_send e)"

abbreviation no_guards :: "'g option list" where
  "no_guards \<equiv> replicate MAX_GUARDS None"

lemma fresh_entry:
  assumes "length iovs \<le> MAX_IOVECS" "\<forall>v \<in> set iovs. iov_valid v"
    and "fe_iovecs e = buf_write 0 iovs arr" "length arr = MAX_IOVECS" "fe_iov_count e = length iovs" "fe_iov_start e = 0"
    and "fe_msghdr e = \<lparr>msg_iov = 0, msg_iovlen = length iovs\<rparr>" "fe_in_use e"
    and "length (fe_pool_slots e) = MAX_IOVECS" "length (fe_bids e) = MAX_IOVECS" "length (fe_guards e) = MAX_GUARDS"
    and "fe_pool_slot_count e \<le> MAX_IOVECS" "fe_bid_count e \<le> MAX_IOVECS" "fe_pending_notifs e = 0"
  shows "sends_iovs iovs (fe_msghdr e) e"
  using assms take_buf_write_front [of iovs arr]
  by (simp add: sends_iovs_def entry_ok_def unsent_def hdr_iovs_def)

lemma slab_allocate_eq:
  assumes ok: "slab_ok s" and fl: "slab_free_list s = fl @ [i]" and n: "length iovs \<le> MAX_IOVECS"
    and v: "\<forall>v \<in> set iovs. iov_valid v" and g: "length guards = MAX_GUARDS"
  shows "\<exists>e h. slab_allocate dbg c gen iovs slot guards gc nbytes s =
      Ret (Some (i, h), s\<lparr>slab_entries := (slab_entries s)[i := e], slab_free_list := fl\<rparr>) \<and>
    sends_iovs iovs h e \<and> pinned e = (slot, [], [], guards, None)"
proof -
  let ?d = "slab_entries s ! i"
  note i = slab_pop(1,2) [OF ok fl] and d = slab_pop(3,4) [OF ok fl]
  let ?h = "\<lparr>msg_iov = 0, msg_iovlen = length iovs\<rparr>"
  let ?e = "?d\<lparr>fe_iovecs := buf_write 0 iovs (fe_iovecs ?d), fe_iov_count := length iovs, fe_iov_start := 0,
     fe_pool_slot := slot, fe_pool_slot_count := 0, fe_guards := guards,
     fe_guard_count := gc, fe_conn_index := c, fe_generation := gen,
     fe_total_len := nbytes, fe_end_of_send := True, fe_bounded_send := None,
     fe_pending_notifs := 0, fe_awaiting_notifications := False, fe_in_use := True, fe_msghdr := ?h\<rparr>"
  have "slab_allocate dbg c gen iovs slot guards gc nbytes s =
      Ret (Some (i, ?h), s\<lparr>slab_entries := (slab_entries s)[i := ?e], slab_free_list := fl\<rparr>)"
    using n i d by (simp add: slab_allocate_def fl vec_pop_def copy_front_def Let_def cast_iov_count entry_ok_def)
  moreover have "sends_iovs iovs (fe_msghdr ?e) ?e"
    using n v g d by (intro fresh_entry) (auto simp: entry_ok_def entry_clean_def)
  moreover have "pinned ?e = (slot, [], [], guards, None)" using d by (simp add: pinned_def entry_clean_def)
  ultimately show ?thesis by (intro exI [of _ ?e] exI [of _ ?h]) simp
qed

lemma slab_allocate_coalesced_eq:
  assumes ok: "slab_ok s" and fl: "slab_free_list s = fl @ [i]" and n: "length iovs \<le> MAX_IOVECS"
    and v: "\<forall>v \<in> set iovs. iov_valid v" and g: "length iovs = length slots" "b = None \<or> eos"
  shows "\<exists>e h. slab_allocate_coalesced dbg c gen iovs slots nbytes eos b s =
      Ret (Some (i, h), s\<lparr>slab_entries := (slab_entries s)[i := e], slab_free_list := fl\<rparr>) \<and>
    sends_iovs iovs h e \<and> pinned e = (U16_MAX, slots, [], no_guards, b)"
proof -
  let ?d = "slab_entries s ! i"
  note i = slab_pop(1,2) [OF ok fl] and d = slab_pop(3,4) [OF ok fl]
  let ?h = "\<lparr>msg_iov = 0, msg_iovlen = length iovs\<rparr>"
  let ?e = "?d\<lparr>fe_iovecs := buf_write 0 iovs (fe_iovecs ?d), fe_iov_count := length iovs, fe_iov_start := 0,
     fe_pool_slot := U16_MAX, fe_pool_slots := buf_write 0 slots (fe_pool_slots ?d), fe_pool_slot_count := length slots,
     fe_guard_count := 0, fe_conn_index := c, fe_generation := gen,
     fe_total_len := nbytes, fe_end_of_send := eos, fe_bounded_send := b,
     fe_pending_notifs := 0, fe_awaiting_notifications := False, fe_in_use := True, fe_msghdr := ?h\<rparr>"
  have "slab_allocate_coalesced dbg c gen iovs slots nbytes eos b s =
      Ret (Some (i, ?h), s\<lparr>slab_entries := (slab_entries s)[i := ?e], slab_free_list := fl\<rparr>)"
    using n i d g by (auto simp: slab_allocate_coalesced_def fl vec_pop_def copy_front_def Let_def cast_iov_count entry_ok_def)
  moreover have "sends_iovs iovs (fe_msghdr ?e) ?e"
    using n v g d by (intro fresh_entry) (auto simp: entry_ok_def entry_clean_def)
  moreover have "pinned ?e = (U16_MAX, slots, [], no_guards, b)"
    using d g n by (simp add: pinned_def entry_clean_def entry_ok_def take_buf_write_front)
  ultimately show ?thesis by (intro exI [of _ ?e] exI [of _ ?h]) simp
qed

lemma slab_allocate_recv_forward_eq:
  assumes ok: "slab_ok s" and fl: "slab_free_list s = fl @ [i]" and n: "length iovs \<le> MAX_IOVECS"
    and v: "\<forall>v \<in> set iovs. iov_valid v" and g: "length iovs = length bids"
  shows "\<exists>e h. slab_allocate_recv_forward dbg c gen iovs bids nbytes s =
      Ret (Some (i, h), s\<lparr>slab_entries := (slab_entries s)[i := e], slab_free_list := fl\<rparr>) \<and>
    sends_iovs iovs h e \<and> pinned e = (U16_MAX, [], bids, no_guards, None)"
proof -
  let ?d = "slab_entries s ! i"
  note i = slab_pop(1,2) [OF ok fl] and d = slab_pop(3,4) [OF ok fl]
  let ?h = "\<lparr>msg_iov = 0, msg_iovlen = length iovs\<rparr>"
  let ?e = "?d\<lparr>fe_iovecs := buf_write 0 iovs (fe_iovecs ?d), fe_iov_count := length iovs, fe_iov_start := 0,
     fe_pool_slot := U16_MAX, fe_pool_slot_count := 0, fe_bids := buf_write 0 bids (fe_bids ?d), fe_bid_count := length bids,
     fe_guard_count := 0, fe_conn_index := c, fe_generation := gen,
     fe_total_len := nbytes, fe_end_of_send := True, fe_bounded_send := None,
     fe_pending_notifs := 0, fe_awaiting_notifications := False, fe_in_use := True, fe_msghdr := ?h\<rparr>"
  have "slab_allocate_recv_forward dbg c gen iovs bids nbytes s =
      Ret (Some (i, ?h), s\<lparr>slab_entries := (slab_entries s)[i := ?e], slab_free_list := fl\<rparr>)"
    using n i d g by (auto simp: slab_allocate_recv_forward_def fl vec_pop_def copy_front_def Let_def cast_iov_count entry_ok_def)
  moreover have "sends_iovs iovs (fe_msghdr ?e) ?e"
    using n v g d by (intro fresh_entry) (auto simp: entry_ok_def entry_clean_def)
  moreover have "pinned ?e = (U16_MAX, [], bids, no_guards, None)"
    using d g n by (simp add: pinned_def entry_clean_def entry_ok_def take_buf_write_front)
  ultimately show ?thesis by (intro exI [of _ ?e] exI [of _ ?h]) simp
qed

subsection \<open>Partial completions\<close>

lemma slab_try_advance_eq:
  assumes ok: "slab_ok s" and u: "slab_used s i"
  shows "\<exists>r e. slab_try_advance dbg i k s = Ret (r, slab_put i e s) \<and> entry_ok e \<and> fe_in_use e \<and>
    pinned e = pinned (slab_entries s ! i) \<and> unsent e = skip_iovs k (unsent (slab_entries s ! i)) \<and>
    (r = None \<longleftrightarrow> unsent e = []) \<and> (\<forall>h. r = Some h \<longrightarrow> fe_msghdr e = h \<and> hdr_iovs e h = unsent e)"
proof -
  let ?d = "slab_entries s ! i"
  let ?n = "fe_iov_count ?d"
  let ?b = "fe_iov_start ?d"
  have i: "i < length (slab_entries s)" "fe_in_use ?d" using u by (auto simp: slab_used_def)
  have d: "entry_ok ?d" using ok i by (simp add: slab_ok_def)
  have n: "?b + (?n - ?b) = ?n" "?n \<le> length (fe_iovecs ?d)" using d by (auto simp: entry_ok_def)
  obtain ns iovs where l: "advance_loop (?n - ?b) ?b k ?b (fe_iovecs ?d) = Ret (ns, iovs)" "?b \<le> ns" "ns \<le> ?n"
      "length iovs = length (fe_iovecs ?d)" "drop ns (take ?n iovs) = skip_iovs k (unsent ?d)"
    using advance_loop_eq [of ?b "?n - ?b" "fe_iovecs ?d" k] n by (auto simp: unsent_def)
  have c: "cast_uint 8 ns = ns" using l(3) d by (intro cast_iov_count) (auto simp: entry_ok_def)
  have valid: "\<forall>v \<in> set (skip_iovs k (unsent ?d)). iov_valid v" using d by (intro skip_iovs_valid) (simp add: entry_ok_def)
  have nil: "skip_iovs k (unsent ?d) = [] \<longleftrightarrow> ?n \<le> ns"
    using arg_cong [OF l(5), of length] l(4) n(2) by (auto simp flip: length_0_conv)
  define e where "e = ?d\<lparr>fe_iovecs := iovs, fe_iov_start := ns\<rparr>"
  define h where "h = \<lparr>msg_iov = ns, msg_iovlen = ?n - ns\<rparr>"
  have h: "take (?n - ns) (drop ns iovs) = skip_iovs k (unsent ?d)"
    using l(5) by (simp add: drop_take)
  show ?thesis
  proof (cases "?n \<le> ns")
    case True
    have "slab_try_advance dbg i k s = Ret (None, slab_put i e s)"
      using i l(1) c True by (simp add: slab_try_advance_def Let_def slab_put_def e_def)
    moreover have "unsent e = skip_iovs k (unsent ?d)" using l(5) by (simp add: unsent_def e_def)
    moreover have "entry_ok e"
      using d l i True nil valid by (auto simp: entry_ok_def e_def unsent_def)
    ultimately show ?thesis
      using nil True i by (intro exI [of _ None] exI [of _ e]) (auto simp: e_def pinned_def)
  next
    case False
    let ?e = "e\<lparr>fe_msghdr := h\<rparr>"
    have "slab_try_advance dbg i k s = Ret (Some h, slab_put i ?e s)"
      using i l(1) c False by (simp add: slab_try_advance_def Let_def slab_put_def e_def h_def)
    moreover have un: "unsent ?e = skip_iovs k (unsent ?d)" using l(5) by (simp add: unsent_def e_def)
    moreover have hd: "hdr_iovs ?e h = skip_iovs k (unsent ?d)" using h by (simp add: hdr_iovs_def e_def h_def)
    moreover have "entry_ok ?e"
      using d l i un hd valid unfolding entry_ok_def by (simp add: e_def)
    ultimately show ?thesis
      using nil False i by (intro exI [of _ "Some h"] exI [of _ ?e]) (simp add: e_def pinned_def)
  qed
qed

text \<open>A run of completions for one entry: the last header handed back for resubmission, if any.\<close>

fun slab_completions :: "profile \<Rightarrow> nat \<Rightarrow> nat list \<Rightarrow> msghdr option \<Rightarrow> 'g InFlightSendSlab \<Rightarrow> (msghdr option \<times> 'g InFlightSendSlab) outcome" where
  "slab_completions dbg i [] r s = Ret (r, s)"
| "slab_completions dbg i (k # ks) r s =
     outcome_bind (slab_try_advance dbg i k s) (\<lambda>(r', s'). slab_completions dbg i ks r' s')"

definition header_sends :: "(nat \<Rightarrow> u8) \<Rightarrow> nat \<Rightarrow> msghdr \<Rightarrow> 'g InFlightSendSlab \<Rightarrow> bytes \<Rightarrow> bool" where
  "header_sends mem i h s bs \<longleftrightarrow> slab_msghdr_ptr i s = Ret h \<and> gather mem (hdr_iovs (slab_entries s ! i) h) = bs"

lemma slab_completions_eq:
  assumes "slab_ok s" "slab_used s i" "r = None \<longleftrightarrow> gather mem (unsent (slab_entries s ! i)) = []"
    and "\<forall>h. r = Some h \<longrightarrow> header_sends mem i h s (gather mem (unsent (slab_entries s ! i)))"
  shows "\<exists>r' s'. slab_completions dbg i ks r s = Ret (r', s') \<and> slab_ok s' \<and> slab_used s' = slab_used s \<and>
    (r' = None \<longleftrightarrow> gather mem (unsent (slab_entries s' ! i)) = []) \<and>
    gather mem (unsent (slab_entries s' ! i)) = drop (sum_list ks) (gather mem (unsent (slab_entries s ! i))) \<and>
    (\<forall>h. r' = Some h \<longrightarrow> header_sends mem i h s' (gather mem (unsent (slab_entries s' ! i)))) \<and>
    (\<forall>j. j \<noteq> i \<longrightarrow> slab_entries s' ! j = slab_entries s ! j)"
  using assms
proof (induction ks arbitrary: r s)
  case (Cons k ks)
  let ?d = "slab_entries s ! i"
  have i: "i < length (slab_entries s)" "fe_in_use ?d" using Cons.prems(2) by (auto simp: slab_used_def)
  have v: "\<forall>v \<in> set (unsent ?d). iov_valid v" using Cons.prems(1) i by (auto simp: slab_ok_def entry_ok_def)
  obtain r1 e where e: "slab_try_advance dbg i k s = Ret (r1, slab_put i e s)" "entry_ok e" "fe_in_use e"
      "unsent e = skip_iovs k (unsent ?d)" "r1 = None \<longleftrightarrow> unsent e = []"
      "\<forall>h. r1 = Some h \<longrightarrow> fe_msghdr e = h \<and> hdr_iovs e h = unsent e"
    using slab_try_advance_eq [OF Cons.prems(1,2), of dbg k] by blast
  have at: "slab_entries (slab_put i e s) ! i = e" using i by (simp add: slab_put_def)
  have ok: "slab_ok (slab_put i e s)" "slab_used (slab_put i e s) = slab_used s"
    using slab_put_ok [OF Cons.prems(1) i(1) e(2)] e(3) i by auto
  have "\<forall>h. r1 = Some h \<longrightarrow> header_sends mem i h (slab_put i e s) (gather mem (unsent (slab_entries (slab_put i e s) ! i)))"
    using e(6) i at by (simp add: header_sends_def slab_msghdr_ptr_def slab_entry_def slab_put_def)
  then obtain r' s' where r': "slab_completions dbg i ks r1 (slab_put i e s) = Ret (r', s')" "slab_ok s'" "slab_used s' = slab_used s"
      "r' = None \<longleftrightarrow> gather mem (unsent (slab_entries s' ! i)) = []"
      "gather mem (unsent (slab_entries s' ! i)) = drop (sum_list ks) (gather mem (unsent e))"
      "\<forall>h. r' = Some h \<longrightarrow> header_sends mem i h s' (gather mem (unsent (slab_entries s' ! i)))"
      "\<forall>j. j \<noteq> i \<longrightarrow> slab_entries s' ! j = slab_entries (slab_put i e s) ! j"
    using Cons.IH [OF ok(1), of r1] Cons.prems(2) ok(2) e(4,5) at skip_iovs_left [of k "unsent ?d" mem] by auto
  have "gather mem (unsent e) = drop k (gather mem (unsent ?d))" using v e(4) by (simp add: skip_iovs_gather)
  then show ?case using e(1) r' by (auto simp: slab_put_def add.commute)
qed (auto intro!: exI)

subsection \<open>Sessions\<close>

datatype 'g slab_op =
    SlabSend u32 u32 "iovec list" nat "'g option list" nat nat
  | SlabCoalesce u32 u32 "iovec list" "nat list" nat bool "(BoundedSendId \<times> nat) option"
  | SlabForward u32 u32 "iovec list" "nat list" nat
  | SlabAdvance nat nat
  | SlabIncNotif nat
  | SlabDecNotif nat
  | SlabAwait nat
  | SlabTakeBounded nat
  | SlabRelease nat

text \<open>The callers' discipline: at most \<open>MAX_IOVECS\<close> readable iovecs, matching arrays, operations on live entries.\<close>

fun slab_legal :: "'g slab_op \<Rightarrow> 'g InFlightSendSlab \<Rightarrow> bool" where
  "slab_legal (SlabSend c g iovs slot guards gc n) s \<longleftrightarrow>
     length iovs \<le> MAX_IOVECS \<and> (\<forall>v \<in> set iovs. iov_valid v) \<and> length guards = MAX_GUARDS"
| "slab_legal (SlabCoalesce c g iovs slots n eos b) s \<longleftrightarrow>
     length iovs \<le> MAX_IOVECS \<and> (\<forall>v \<in> set iovs. iov_valid v) \<and> length iovs = length slots \<and> (b = None \<or> eos)"
| "slab_legal (SlabForward c g iovs bids n) s \<longleftrightarrow>
     length iovs \<le> MAX_IOVECS \<and> (\<forall>v \<in> set iovs. iov_valid v) \<and> length iovs = length bids"
| "slab_legal (SlabAdvance i k) s \<longleftrightarrow> slab_used s i"
| "slab_legal (SlabIncNotif i) s \<longleftrightarrow> slab_used s i \<and> fe_pending_notifs (slab_entries s ! i) < 255"
| "slab_legal (SlabDecNotif i) s \<longleftrightarrow> slab_used s i \<and> 0 < fe_pending_notifs (slab_entries s ! i)"
| "slab_legal (SlabAwait i) s \<longleftrightarrow> slab_used s i"
| "slab_legal (SlabTakeBounded i) s \<longleftrightarrow> slab_used s i"
| "slab_legal (SlabRelease i) s \<longleftrightarrow> slab_used s i"

fun slab_step :: "profile \<Rightarrow> 'g slab_op \<Rightarrow> 'g InFlightSendSlab \<Rightarrow> 'g InFlightSendSlab outcome" where
  "slab_step dbg (SlabSend c g iovs slot guards gc n) s =
     outcome_bind (slab_allocate dbg c g iovs slot guards gc n s) (\<lambda>(_, s'). Ret s')"
| "slab_step dbg (SlabCoalesce c g iovs slots n eos b) s =
     outcome_bind (slab_allocate_coalesced dbg c g iovs slots n eos b s) (\<lambda>(_, s'). Ret s')"
| "slab_step dbg (SlabForward c g iovs bids n) s =
     outcome_bind (slab_allocate_recv_forward dbg c g iovs bids n s) (\<lambda>(_, s'). Ret s')"
| "slab_step dbg (SlabAdvance i k) s = outcome_bind (slab_try_advance dbg i k s) (\<lambda>(_, s'). Ret s')"
| "slab_step dbg (SlabIncNotif i) s = slab_inc_pending_notifs dbg i s"
| "slab_step dbg (SlabDecNotif i) s = outcome_bind (slab_dec_pending_notifs dbg i s) (\<lambda>(_, s'). Ret s')"
| "slab_step dbg (SlabAwait i) s = slab_mark_awaiting_notifications i s"
| "slab_step dbg (SlabTakeBounded i) s = outcome_bind (slab_take_coalesced_bounded_send i s) (\<lambda>(_, s'). Ret s')"
| "slab_step dbg (SlabRelease i) s = outcome_bind (slab_release dbg i s) (\<lambda>(_, s'). Ret s')"

fun slab_session :: "profile \<Rightarrow> 'g slab_op list \<Rightarrow> 'g InFlightSendSlab \<Rightarrow> 'g InFlightSendSlab outcome" where
  "slab_session dbg [] s = Ret s"
| "slab_session dbg (opr # ops) s =
     (if slab_legal opr s then outcome_bind (slab_step dbg opr s) (slab_session dbg ops) else slab_session dbg ops s)"

lemma slab_allocate_full:
  assumes "slab_free_list s = []"
  shows "length iovs \<le> MAX_IOVECS \<Longrightarrow> slab_allocate dbg c g iovs slot guards gc n s = Ret (None, s)"
    and "length iovs \<le> MAX_IOVECS \<Longrightarrow> length iovs = length slots \<Longrightarrow> b = None \<or> eos \<Longrightarrow>
      slab_allocate_coalesced dbg c g iovs slots n eos b s = Ret (None, s)"
    and "length iovs \<le> MAX_IOVECS \<Longrightarrow> length iovs = length bids \<Longrightarrow> slab_allocate_recv_forward dbg c g iovs bids n s = Ret (None, s)"
  using assms by (auto simp: slab_allocate_def slab_allocate_coalesced_def slab_allocate_recv_forward_def)

lemma slab_alloc_step:
  assumes ok: "slab_ok s"
    and full: "slab_free_list s = [] \<Longrightarrow> f s = Ret (None, s)"
    and some: "\<And>fl i. slab_free_list s = fl @ [i] \<Longrightarrow> \<exists>e h. f s = Ret (Some (i, h), s\<lparr>slab_entries := (slab_entries s)[i := e], slab_free_list := fl\<rparr>) \<and>
      sends_iovs iovs h e \<and> pinned e = ps"
  shows "\<exists>s'. outcome_bind (f s) (\<lambda>(_, s'). Ret s') = Ret s' \<and> slab_ok s'"
proof (cases "slab_free_list s" rule: rev_cases)
  case Nil
  then show ?thesis using ok full by simp
next
  case (snoc fl i)
  then obtain e h where e: "f s = Ret (Some (i, h), s\<lparr>slab_entries := (slab_entries s)[i := e], slab_free_list := fl\<rparr>)"
      "sends_iovs iovs h e" using some by blast
  then show ?thesis using slab_take_ok(1) [OF ok snoc] by (auto simp: sends_iovs_def)
qed

lemma entry_update_ok:
  "entry_ok e \<Longrightarrow> fe_in_use e \<Longrightarrow> n < 256 \<Longrightarrow> entry_ok (e\<lparr>fe_pending_notifs := n\<rparr>)"
  "entry_ok e \<Longrightarrow> fe_in_use e \<Longrightarrow> entry_ok (e\<lparr>fe_awaiting_notifications := b\<rparr>)"
  "entry_ok e \<Longrightarrow> fe_in_use e \<Longrightarrow> entry_ok (e\<lparr>fe_bounded_send := x\<rparr>)"
  by (simp_all add: entry_ok_def unsent_def hdr_iovs_def)

lemma slab_release_eq:
  assumes "slab_ok s" "slab_used s i"
  shows "\<exists>e. slab_release dbg i s = Ret (fe_pool_slot (slab_entries s ! i), (slab_put i e s)\<lparr>slab_free_list := vec_push (slab_free_list s) i\<rparr>) \<and>
    entry_ok e \<and> \<not> fe_in_use e"
proof -
  let ?d = "slab_entries s ! i"
  have i: "i < length (slab_entries s)" "fe_in_use ?d" "entry_ok ?d" using assms by (auto simp: slab_used_def slab_ok_def)
  let ?e = "?d\<lparr>fe_guards := map (\<lambda>_. None) (fe_guards ?d), fe_guard_count := 0, fe_pool_slot := U16_MAX,
              fe_pool_slot_count := 0, fe_bid_count := 0, fe_bounded_send := None, fe_in_use := False,
              fe_awaiting_notifications := False, fe_pending_notifs := 0\<rparr>"
  have "entry_ok ?e"
    using i by (simp add: entry_ok_def entry_clean_def unsent_def hdr_iovs_def map_replicate_const)
  moreover have "slab_release dbg i s = Ret (fe_pool_slot ?d, (slab_put i ?e s)\<lparr>slab_free_list := vec_push (slab_free_list s) i\<rparr>)"
    using i by (simp add: slab_release_def slab_entry_def Let_def)
  ultimately show ?thesis by (intro exI [of _ ?e]) simp
qed

lemma slab_step_ok:
  assumes ok: "slab_ok s" and legal: "slab_legal opr s"
  shows "\<exists>s'. slab_step dbg opr s = Ret s' \<and> slab_ok s'"
proof -
  have put: "slab_ok (slab_put i e s)" if "slab_used s i" "entry_ok e" "fe_in_use e" for i e
    using that slab_put_ok(1) [OF ok, of i e] by (simp add: slab_used_def)
  have at: "i < length (slab_entries s)" "fe_in_use (slab_entries s ! i)" "entry_ok (slab_entries s ! i)" if "slab_used s i" for i
    using that ok by (auto simp: slab_used_def slab_ok_def)
  show ?thesis
  proof (cases opr)
    case (SlabSend c g iovs slot guards gc n)
    then show ?thesis
      using legal slab_allocate_eq [OF ok, of _ _ iovs guards dbg c g slot gc n] slab_allocate_full(1) [of s iovs dbg c g slot guards gc n]
      unfolding SlabSend slab_step.simps by (intro slab_alloc_step [OF ok]) simp_all
  next
    case (SlabCoalesce c g iovs slots n eos b)
    then show ?thesis
      using legal slab_allocate_coalesced_eq [OF ok, of _ _ iovs slots b eos dbg c g n]
        slab_allocate_full(2) [of s iovs slots b eos dbg c g n]
      unfolding SlabCoalesce slab_step.simps by (intro slab_alloc_step [OF ok]) simp_all
  next
    case (SlabForward c g iovs bids n)
    then show ?thesis
      using legal slab_allocate_recv_forward_eq [OF ok, of _ _ iovs bids dbg c g n]
        slab_allocate_full(3) [of s iovs bids dbg c g n]
      unfolding SlabForward slab_step.simps by (intro slab_alloc_step [OF ok]) simp_all
  next
    case (SlabAdvance i k)
    then have u: "slab_used s i" using legal by simp
    obtain r e where "slab_try_advance dbg i k s = Ret (r, slab_put i e s)" "entry_ok e" "fe_in_use e"
      using slab_try_advance_eq [OF ok u, of dbg k] by blast
    then show ?thesis using SlabAdvance put [OF u] by simp
  next
    case (SlabIncNotif i)
    then have u: "slab_used s i" and n: "fe_pending_notifs (slab_entries s ! i) + 1 < 256" using legal by simp_all
    show ?thesis
      using SlabIncNotif at [OF u] put [OF u entry_update_ok(1) [OF at(3,2) [OF u] n]] n
      by (simp add: slab_inc_pending_notifs_def slab_entry_def uint_add_fits)
  next
    case (SlabDecNotif i)
    then have u: "slab_used s i" "0 < fe_pending_notifs (slab_entries s ! i)" using legal by simp_all
    have n: "fe_pending_notifs (slab_entries s ! i) - 1 < 256" using at(3) [OF u(1)] unfolding entry_ok_def by linarith
    show ?thesis
      using SlabDecNotif at [OF u(1)] put [OF u(1) entry_update_ok(1) [OF at(3,2) [OF u(1)] n]] u(2)
      by (simp add: slab_dec_pending_notifs_def slab_entry_def)
  next
    case (SlabAwait i)
    then have u: "slab_used s i" using legal by simp
    show ?thesis
      using SlabAwait at [OF u] put [OF u entry_update_ok(2) [OF at(3,2) [OF u]], of True]
      by (simp add: slab_mark_awaiting_notifications_def slab_entry_def)
  next
    case (SlabTakeBounded i)
    then have u: "slab_used s i" using legal by simp
    show ?thesis
      using SlabTakeBounded at [OF u] put [OF u entry_update_ok(3) [OF at(3,2) [OF u]], of None]
      by (simp add: slab_take_coalesced_bounded_send_def slab_entry_def)
  next
    case (SlabRelease i)
    then have u: "slab_used s i" using legal by simp
    obtain e where "slab_release dbg i s = Ret (fe_pool_slot (slab_entries s ! i), (slab_put i e s)\<lparr>slab_free_list := vec_push (slab_free_list s) i\<rparr>)"
        "entry_ok e" "\<not> fe_in_use e" using slab_release_eq [OF ok u, of dbg] by blast
    then show ?thesis using SlabRelease slab_free_ok(1) [OF ok u] by simp
  qed
qed

lemma slab_session_ok: "slab_ok s \<Longrightarrow> \<exists>s'. slab_session dbg ops s = Ret s' \<and> slab_ok s'"
proof (induction ops arbitrary: s)
  case (Cons opr ops)
  show ?case
  proof (cases "slab_legal opr s")
    case True
    then obtain s1 where "slab_step dbg opr s = Ret s1" "slab_ok s1" using slab_step_ok [OF Cons.prems] by blast
    then show ?thesis using Cons.IH True by simp
  qed (use Cons in simp)
qed simp

text \<open>
  C9. Partial completions send exactly the gathered bytes. Allocate a vectored send of up to
  \<open>MAX_IOVECS\<close> readable iovecs in any slab the runtime can reach, then report any sequence of
  partial completions: nothing panics; the entry always has exactly the unsent suffix of the
  gathered bytes left, however the iovecs split it (empty ones included); while bytes are
  left the header handed back for resubmission gathers exactly that suffix; \<open>None\<close> is
  returned exactly when everything was sent; and no other entry is touched.
\<close>

theorem slab_sends_exactly_the_gathered_bytes:
  assumes "slab_session dbg0 ops (slab_new cap) = Ret s"
    and "length iovs \<le> MAX_IOVECS" "\<forall>v \<in> set iovs. iov_valid v" "length guards = MAX_GUARDS"
    and "slab_allocate dbg c g iovs slot guards gc n s = Ret (Some (i, h), s1)" "gather mem iovs \<noteq> []"
  shows "header_sends mem i h s1 (gather mem iovs) \<and>
    (\<exists>r s2. slab_completions dbg i ks (Some h) s1 = Ret (r, s2) \<and> slab_ok s2 \<and>
       (r = None \<longleftrightarrow> length (gather mem iovs) \<le> sum_list ks) \<and>
       (\<forall>h'. r = Some h' \<longrightarrow> header_sends mem i h' s2 (drop (sum_list ks) (gather mem iovs))) \<and>
       (\<forall>j. j \<noteq> i \<longrightarrow> slab_entries s2 ! j = slab_entries s1 ! j))"
proof -
  have ok: "slab_ok s" using assms(1) slab_session_ok [OF slab_new_ok, of dbg0 ops cap] by auto
  obtain fl where fl: "slab_free_list s = fl @ [i]"
    using assms(2,5) slab_allocate_full(1) [of s iovs dbg c g slot guards gc n] slab_allocate_eq [OF ok _ assms(2-4), of _ _ dbg c g slot gc n]
    by (cases "slab_free_list s" rule: rev_cases) fastforce+
  obtain e where s1: "s1 = s\<lparr>slab_entries := (slab_entries s)[i := e], slab_free_list := fl\<rparr>" and e: "sends_iovs iovs h e"
    using slab_allocate_eq [OF ok fl assms(2-4), of dbg c g slot gc n] assms(5) by auto
  have i: "i < length (slab_entries s)" using slab_pop(1) [OF ok fl] .
  have ok1: "slab_ok s1" "slab_used s1 i" using slab_take_ok [OF ok fl, of e] e s1 by (auto simp: sends_iovs_def)
  have at: "slab_entries s1 ! i = e" "unsent e = iovs" "i < length (slab_entries s1)" using s1 e i by (auto simp: sends_iovs_def)
  have h: "header_sends mem i h s1 (gather mem iovs)"
    using e at by (simp add: header_sends_def slab_msghdr_ptr_def slab_entry_def sends_iovs_def)
  obtain r s2 where r: "slab_completions dbg i ks (Some h) s1 = Ret (r, s2)" "slab_ok s2"
      "r = None \<longleftrightarrow> gather mem (unsent (slab_entries s2 ! i)) = []"
      "gather mem (unsent (slab_entries s2 ! i)) = drop (sum_list ks) (gather mem iovs)"
      "\<forall>h'. r = Some h' \<longrightarrow> header_sends mem i h' s2 (gather mem (unsent (slab_entries s2 ! i)))"
      "\<forall>j. j \<noteq> i \<longrightarrow> slab_entries s2 ! j = slab_entries s1 ! j"
    using slab_completions_eq [OF ok1, of "Some h" mem dbg ks] h assms(6) unfolding at by auto
  then show ?thesis using h by auto
qed

theorem slab_sends_exactly_the_gathered_bytes_witness:
  "\<exists>s h s1 r s2. slab_session True [SlabForward 0 0 [\<lparr>iov_base = 9, iov_len = 1\<rparr>] [3] 1, SlabRelease 0] (slab_new 1 :: nat InFlightSendSlab) = Ret s \<and>
     slab_allocate True 1 0 [\<lparr>iov_base = 10, iov_len = 2\<rparr>, \<lparr>iov_base = 5, iov_len = 0\<rparr>, \<lparr>iov_base = 20, iov_len = 2\<rparr>] 7 no_guards 0 4 s = Ret (Some (0, h), s1) \<and>
     slab_completions True 0 [1, 2] (Some h) s1 = Ret (r, s2) \<and> (\<forall>h'. r = Some h' \<longrightarrow> header_sends of_nat 0 h' s2 [21])"
proof -
  let ?iovs = "[\<lparr>iov_base = 10, iov_len = 2\<rparr>, \<lparr>iov_base = 5, iov_len = 0\<rparr>, \<lparr>iov_base = 20, iov_len = 2\<rparr>]"
  let ?ops = "[SlabForward 0 0 [\<lparr>iov_base = 9, iov_len = 1\<rparr>] [3] 1, SlabRelease 0]"
  obtain s where s: "slab_session True ?ops (slab_new 1 :: nat InFlightSendSlab) = Ret s" "slab_ok s"
    using slab_session_ok [OF slab_new_ok] by blast
  have "slab_free_list s = [] @ [0]"
    using s(1) by (auto simp: slab_new_def slab_blank_entry_def MAX_IOVECS_def MAX_GUARDS_def iov_valid_def
      slab_allocate_recv_forward_def vec_pop_def copy_front_def Let_def cast_uint_def slab_release_def slab_entry_def
      slab_put_def slab_used_def vec_push_def)
  from slab_allocate_eq [OF s(2) this, of ?iovs no_guards True 1 0 7 0 4]
  obtain h s1 where a: "slab_allocate True 1 0 ?iovs 7 no_guards 0 4 s = Ret (Some (0, h), s1)"
    by (auto simp: MAX_IOVECS_def iov_valid_def)
  have g: "gather of_nat ?iovs = [10, 11, 20, 21 :: u8]" by (simp add: iov_bytes_def upt_rec)
  have "\<exists>r s2. slab_completions True 0 [1, 2] (Some h) s1 = Ret (r, s2) \<and> (\<forall>h'. r = Some h' \<longrightarrow> header_sends of_nat 0 h' s2 [21])"
    using slab_sends_exactly_the_gathered_bytes [OF s(1) _ _ _ a, of of_nat "[1, 2]"] unfolding g
    by (auto simp: MAX_IOVECS_def iov_valid_def)
  then show ?thesis using s(1) a by blast
qed










subsection \<open>The slab as a slot pool\<close>

text \<open>\<open>release\<close> has no guard of its own against a second release, so this is the unguarded contract.\<close>

definition slab_acquire :: "'g slab_op \<Rightarrow> 'g InFlightSendSlab \<Rightarrow> (nat \<times> 'g InFlightSendSlab) option" where
  "slab_acquire opr s =
     (case opr of
        SlabSend c g iovs slot guards gc n \<Rightarrow>
          (if slab_legal opr s then case slab_allocate False c g iovs slot guards gc n s of Ret (Some (i, _), s') \<Rightarrow> Some (i, s') | _ \<Rightarrow> None else None)
      | SlabCoalesce c g iovs slots n eos b \<Rightarrow>
          (if slab_legal opr s then case slab_allocate_coalesced False c g iovs slots n eos b s of Ret (Some (i, _), s') \<Rightarrow> Some (i, s') | _ \<Rightarrow> None else None)
      | SlabForward c g iovs bids n \<Rightarrow>
          (if slab_legal opr s then case slab_allocate_recv_forward False c g iovs bids n s of Ret (Some (i, _), s') \<Rightarrow> Some (i, s') | _ \<Rightarrow> None else None)
      | _ \<Rightarrow> None)"

definition slab_fits :: "'g slab_op \<Rightarrow> 'g InFlightSendSlab \<Rightarrow> bool" where
  "slab_fits opr s \<longleftrightarrow> slab_legal opr s \<and>
     (case opr of SlabSend c g iovs slot guards gc n \<Rightarrow> True | SlabCoalesce c g iovs slots n eos b \<Rightarrow> True | SlabForward c g iovs bids n \<Rightarrow> True | _ \<Rightarrow> False)"

definition slab_give :: "nat \<Rightarrow> 'g InFlightSendSlab \<Rightarrow> 'g InFlightSendSlab" where
  "slab_give i s = (case slab_release False i s of Ret (_, s') \<Rightarrow> s' | Panic \<Rightarrow> s)"

abbreviation slab_cap :: "'g InFlightSendSlab \<Rightarrow> nat" where
  "slab_cap s \<equiv> length (slab_entries s)"

lemma slab_acquire_full: "slab_free_list s = [] \<Longrightarrow> slab_acquire opr s = None"
  using slab_allocate_full [of s] by (cases opr) (auto simp: slab_acquire_def)

lemma slab_acquire_eq:
  assumes "slab_ok s" "slab_free_list s = fl @ [i]"
  shows "slab_fits opr s \<Longrightarrow> \<exists>e. slab_acquire opr s = Some (i, s\<lparr>slab_entries := (slab_entries s)[i := e], slab_free_list := fl\<rparr>) \<and> entry_ok e \<and> fe_in_use e"
    and "\<not> slab_fits opr s \<Longrightarrow> slab_acquire opr s = None"
proof -
  note eqs = slab_allocate_eq [OF assms] slab_allocate_coalesced_eq [OF assms] slab_allocate_recv_forward_eq [OF assms]
  show "\<exists>e. slab_acquire opr s = Some (i, s\<lparr>slab_entries := (slab_entries s)[i := e], slab_free_list := fl\<rparr>) \<and> entry_ok e \<and> fe_in_use e"
    if "slab_fits opr s"
  proof (cases opr)
    case (SlabSend c g iovs slot guards gc n)
    then show ?thesis using that eqs(1) [of iovs guards False c g slot gc n] by (auto simp: slab_fits_def slab_acquire_def sends_iovs_def)
  next
    case (SlabCoalesce c g iovs slots n eos b)
    then show ?thesis using that eqs(2) [of iovs slots b eos False c g n] by (auto simp: slab_fits_def slab_acquire_def sends_iovs_def)
  next
    case (SlabForward c g iovs bids n)
    then show ?thesis using that eqs(3) [of iovs bids False c g n] by (auto simp: slab_fits_def slab_acquire_def sends_iovs_def)
  qed (use that in \<open>simp_all add: slab_fits_def\<close>)
  show "\<not> slab_fits opr s \<Longrightarrow> slab_acquire opr s = None"
    by (cases opr) (auto simp: slab_fits_def slab_acquire_def)
qed

interpretation send_slab: slot_pool slab_ok slab_cap slab_used slab_fits slab_acquire slab_give
proof
  fix s opr i and s' :: "'g InFlightSendSlab" assume ok: "slab_ok s" and acq: "slab_acquire opr s = Some (i, s')"
  obtain fl where fl: "slab_free_list s = fl @ [i]"
    using acq slab_acquire_full [of s opr] slab_acquire_eq [OF ok]
    by (cases "slab_free_list s" rule: rev_cases; cases "slab_fits opr s") fastforce+
  have "slab_fits opr s" using acq slab_acquire_eq(2) [OF ok fl, of opr] by auto
  then obtain e where e: "s' = s\<lparr>slab_entries := (slab_entries s)[i := e], slab_free_list := fl\<rparr>" "entry_ok e" "fe_in_use e"
    using slab_acquire_eq(1) [OF ok fl, of opr] acq by force
  show "i < slab_cap s \<and> \<not> slab_used s i" using slab_pop(1,2) [OF ok fl] by (simp add: slab_used_def)
  show "slab_used s' = (slab_used s)(i := True)" "slab_ok s'" using slab_take_ok [OF ok fl e(2,3)] e(1) by simp_all
  show "slab_cap s' = slab_cap s" using e(1) by simp
next
  fix s :: "'g InFlightSendSlab" and opr i
  assume ok: "slab_ok s" and "slab_acquire opr s = None" "slab_fits opr s" "i < slab_cap s"
  then have "slab_free_list s = []"
    using slab_acquire_eq(1) [OF ok] by (cases "slab_free_list s" rule: rev_cases) fastforce+
  then show "slab_used s i"
    using ok \<open>i < slab_cap s\<close> free_list_ok_empty [of "slab_cap s" "\<lambda>i. fe_in_use (slab_entries s ! i)" i]
    by (simp add: slab_used_def slab_ok_def)
next
  fix s :: "'g InFlightSendSlab" and i assume ok: "slab_ok s" and u: "slab_used s i"
  obtain e where e: "slab_give i s = (slab_put i e s)\<lparr>slab_free_list := vec_push (slab_free_list s) i\<rparr>" "entry_ok e" "\<not> fe_in_use e"
    using slab_release_eq [OF ok u, of False] by (auto simp: slab_give_def)
  show "slab_used (slab_give i s) = (slab_used s)(i := False)" "slab_ok (slab_give i s)"
    using slab_free_ok [OF ok u e(2,3)] e(1) by simp_all
  show "slab_cap (slab_give i s) = slab_cap s" using e(1) by (simp add: slab_put_def)
qed (simp add: slab_used_def)

end
