(* ===== verification/Provided_Ring.thy ===== *)
theory Provided_Ring
  imports Rust_Prelude
begin

section \<open>The provided-buffer ring (\<open>ringline/src/backend/uring/provided.rs\<close>, \<open>recv/occupancy.rs\<close>)\<close>

text \<open>
  The kernel picks receive buffers from a ring in shared memory; the worker puts them back.
  The shared memory is the list of ring entries. As in the kernel's union, the published
  tail is the \<open>resv\<close> field of entry 0. Ring size, mask and tail keep their \<open>u16\<close> width, for
  the tail counts freely and wraps. A buffer address is its offset in the backing buffer.
  Whether \<open>mmap\<close> succeeds is an argument of \<open>pb_new\<close>.
\<close>

record BufRingEntry =
  be_addr :: nat
  be_len :: nat
  be_bid :: nat
  be_resv :: u16

record ProvidedBufRing =
  pb_ring :: "BufRingEntry list"
  pb_backing_len :: nat
  pb_bgid :: u16
  pb_ring_size :: u16
  pb_buf_size :: nat
  pb_tail :: u16
  pb_mask :: u16
  pb_outstanding :: nat

definition is_power_of_two :: "u16 \<Rightarrow> bool" where
  "is_power_of_two w \<longleftrightarrow> list_ex (\<lambda>k. w = push_bit k 1) [0..<16]"

definition pb_push_entry :: "nat \<Rightarrow> ProvidedBufRing \<Rightarrow> ProvidedBufRing" where
  "pb_push_entry bid r =
     (let ring_idx = unat (pb_tail r AND pb_mask r) in
      r\<lparr>pb_ring := (pb_ring r)[ring_idx :=
            \<lparr>be_addr = bid * pb_buf_size r, be_len = pb_buf_size r, be_bid = bid, be_resv = 0\<rparr>],
        pb_tail := pb_tail r + 1\<rparr>)"

definition pb_commit_tail :: "ProvidedBufRing \<Rightarrow> ProvidedBufRing" where
  "pb_commit_tail r = r\<lparr>pb_ring := (pb_ring r)[0 := (pb_ring r ! 0)\<lparr>be_resv := pb_tail r\<rparr>]\<rparr>"

definition pb_blank :: "u16 \<Rightarrow> u16 \<Rightarrow> nat \<Rightarrow> ProvidedBufRing" where
  "pb_blank bgid ring_size buf_size =
     \<lparr>pb_ring = replicate (unat ring_size) \<lparr>be_addr = 0, be_len = 0, be_bid = 0, be_resv = 0\<rparr>,
      pb_backing_len = unat ring_size * buf_size, pb_bgid = bgid, pb_ring_size = ring_size, pb_buf_size = buf_size,
      pb_tail = 0, pb_mask = ring_size - 1, pb_outstanding = 0\<rparr>"

definition pb_new :: "bool \<Rightarrow> u16 \<Rightarrow> u16 \<Rightarrow> nat \<Rightarrow> ProvidedBufRing option outcome" where
  "pb_new mmap_ok bgid ring_size buf_size =
     ensure (is_power_of_two ring_size)
       (if \<not> mmap_ok then Ret None
        else Ret (Some (pb_commit_tail (fold pb_push_entry [0..<unat ring_size] (pb_blank bgid ring_size buf_size)))))"

definition pb_ring_entries :: "ProvidedBufRing \<Rightarrow> nat" where
  "pb_ring_entries r = unat (pb_ring_size r)"

definition pb_on_handout :: "profile \<Rightarrow> ProvidedBufRing \<Rightarrow> ProvidedBufRing outcome" where
  "pb_on_handout dbg r =
     uint_add 32 dbg (pb_outstanding r) 1 (\<lambda>n.
       debug_assert dbg (n \<le> unat (pb_ring_size r)) (Ret (r\<lparr>pb_outstanding := n\<rparr>)))"

definition pb_free :: "ProvidedBufRing \<Rightarrow> nat" where
  "pb_free r = pb_ring_entries r - pb_outstanding r"

definition pb_get_buffer :: "nat \<Rightarrow> ProvidedBufRing \<Rightarrow> nat \<times> nat" where
  "pb_get_buffer bid r = (bid * pb_buf_size r, pb_buf_size r)"

text \<open>The end of a batch: the counter comes down by the buffers pushed, then the new tail is published.\<close>

definition pb_finish_batch :: "profile \<Rightarrow> nat \<Rightarrow> ProvidedBufRing \<Rightarrow> ProvidedBufRing outcome" where
  "pb_finish_batch dbg pushed r =
     debug_assert dbg (cast_uint 32 pushed \<le> pb_outstanding r)
       (Ret (pb_commit_tail (r\<lparr>pb_outstanding := pb_outstanding r - cast_uint 32 pushed\<rparr>)))"

definition pb_replenish_batch :: "profile \<Rightarrow> nat list \<Rightarrow> ProvidedBufRing \<Rightarrow> ProvidedBufRing outcome" where
  "pb_replenish_batch dbg bids r =
     (let r1 = fold pb_push_entry bids r in
      if bids \<noteq> [] then pb_finish_batch dbg (length bids) r1 else Ret r1)"

datatype Delivery = ZeroCopyOk | ForceCopy

definition delivery_decision :: "nat \<Rightarrow> nat \<Rightarrow> Delivery" where
  "delivery_decision free_bufs reserve = (if reserve < free_bufs then ZeroCopyOk else ForceCopy)"

subsection \<open>The ring and the kernel\<close>

text \<open>
  The kernel keeps a private head. When the published tail differs from it, it may pick the
  buffer at the head: it reads the entry there, moves on, and posts a completion. The worker
  takes the completions in order and counts each handout when it sees it, processes the
  buffer, and gives buffers back in a batch: it pushes them one at a time, then lowers the
  counter and publishes the tail. Picks, and completions that wait, happen at any point
  between these steps.

  \<open>pending\<close> lists the buffers picked whose completion the worker has not seen, \<open>held\<close> those
  it is processing, \<open>pushed\<close> those of the batch in progress. \<open>torn\<close> says that the batch in
  progress has written ring index 0, which overlays the published tail, so that the tail
  reads 0 until the commit. The kernel does not look at the ring during that window: unless
  SQPOLL is configured, \<open>Ring::setup\<close> asks for deferred task work, which runs only inside the
  worker's own system calls, and a batch makes none. With SQPOLL that does not hold.
\<close>

record ring_system =
  rs_ring :: ProvidedBufRing
  rs_head :: u16
  rs_pending :: "nat list"
  rs_held :: "nat list"
  rs_pushed :: "nat list"
  rs_torn :: bool

definition ring_start :: "ProvidedBufRing \<Rightarrow> ring_system" where
  "ring_start r = \<lparr>rs_ring = r, rs_head = 0, rs_pending = [], rs_held = [], rs_pushed = [], rs_torn = False\<rparr>"

definition published_tail :: "ProvidedBufRing \<Rightarrow> u16" where
  "published_tail r = be_resv (pb_ring r ! 0)"

definition ring_entry :: "ring_system \<Rightarrow> u16 \<Rightarrow> BufRingEntry" where
  "ring_entry y c = pb_ring (rs_ring y) ! unat (c AND pb_mask (rs_ring y))"

text \<open>What the kernel can pick: the entries from its head to the published tail.\<close>

definition pickable :: "ring_system \<Rightarrow> BufRingEntry list" where
  "pickable y = map (\<lambda>i. ring_entry y (rs_head y + of_nat i)) [0..<unat (published_tail (rs_ring y) - rs_head y)]"

datatype ring_event = KernelPick | Completion | Push nat | Commit

fun ring_legal :: "ring_event \<Rightarrow> ring_system \<Rightarrow> bool" where
  "ring_legal KernelPick y \<longleftrightarrow> published_tail (rs_ring y) \<noteq> rs_head y \<and> \<not> rs_torn y"
| "ring_legal Completion y \<longleftrightarrow> rs_pending y \<noteq> [] \<and> rs_pushed y = []"
| "ring_legal (Push bid) y \<longleftrightarrow> bid \<in> set (rs_held y)"
| "ring_legal Commit y \<longleftrightarrow> rs_pushed y \<noteq> []"

fun ring_step :: "profile \<Rightarrow> ring_event \<Rightarrow> ring_system \<Rightarrow> ring_system outcome" where
  "ring_step dbg KernelPick y =
     Ret (y\<lparr>rs_head := rs_head y + 1, rs_pending := rs_pending y @ [be_bid (ring_entry y (rs_head y))]\<rparr>)"
| "ring_step dbg Completion y =
     outcome_bind (pb_on_handout dbg (rs_ring y)) (\<lambda>r.
       Ret (y\<lparr>rs_ring := r, rs_held := rs_held y @ [hd (rs_pending y)], rs_pending := tl (rs_pending y)\<rparr>))"
| "ring_step dbg (Push bid) y =
     Ret (y\<lparr>rs_ring := pb_push_entry bid (rs_ring y), rs_held := filter (\<lambda>b. b \<noteq> bid) (rs_held y),
            rs_pushed := rs_pushed y @ [bid],
            rs_torn := (rs_torn y \<or> pb_tail (rs_ring y) AND pb_mask (rs_ring y) = 0)\<rparr>)"
| "ring_step dbg Commit y =
     outcome_bind (pb_finish_batch dbg (length (rs_pushed y)) (rs_ring y)) (\<lambda>r.
       Ret (y\<lparr>rs_ring := r, rs_pushed := [], rs_torn := False\<rparr>))"

fun ring_run :: "profile \<Rightarrow> ring_event list \<Rightarrow> ring_system \<Rightarrow> ring_system outcome" where
  "ring_run dbg [] y = Ret y"
| "ring_run dbg (ev # evs) y =
     (if ring_legal ev y then outcome_bind (ring_step dbg ev y) (ring_run dbg evs) else ring_run dbg evs y)"

text \<open>A whole batch, run without a pick in between, is \<open>replenish_batch\<close>.\<close>

lemma ring_run_append: "ring_run dbg (xs @ ys) y = outcome_bind (ring_run dbg xs y) (ring_run dbg ys)"
proof (induction xs arbitrary: y)
  case (Cons ev xs)
  then show ?case by (cases "ring_step dbg ev y") auto
qed simp

lemma ring_run_pushes:
  "distinct bids \<Longrightarrow> set bids \<subseteq> set (rs_held y) \<Longrightarrow>
   \<exists>t. ring_run dbg (map Push bids) y = Ret (y\<lparr>rs_ring := fold pb_push_entry bids (rs_ring y),
     rs_held := filter (\<lambda>b. b \<notin> set bids) (rs_held y), rs_pushed := rs_pushed y @ bids, rs_torn := t\<rparr>)"
proof (induction bids arbitrary: y)
  case Nil
  then show ?case by (intro exI [of _ "rs_torn y"]) simp
next
  case (Cons b bids)
  let ?y = "y\<lparr>rs_ring := pb_push_entry b (rs_ring y), rs_held := filter (\<lambda>c. c \<noteq> b) (rs_held y), rs_pushed := rs_pushed y @ [b],
            rs_torn := (rs_torn y \<or> pb_tail (rs_ring y) AND pb_mask (rs_ring y) = 0)\<rparr>"
  obtain t where "ring_run dbg (map Push bids) ?y = Ret (?y\<lparr>rs_ring := fold pb_push_entry bids (rs_ring ?y),
     rs_held := filter (\<lambda>b. b \<notin> set bids) (rs_held ?y), rs_pushed := rs_pushed ?y @ bids, rs_torn := t\<rparr>)"
    using Cons.IH [of ?y] Cons.prems by auto
  then show ?case using Cons.prems by (intro exI [of _ t]) (simp add: conj_commute)
qed

lemma ring_run_batch:
  assumes "distinct bids" "set bids \<subseteq> set (rs_held y)" "bids \<noteq> []" "rs_pushed y = []"
  shows "ring_run dbg (map Push bids @ [Commit]) y =
     outcome_bind (pb_replenish_batch dbg bids (rs_ring y)) (\<lambda>r.
       Ret (y\<lparr>rs_ring := r, rs_held := filter (\<lambda>b. b \<notin> set bids) (rs_held y), rs_torn := False\<rparr>))"
proof -
  obtain t where t: "ring_run dbg (map Push bids) y = Ret (y\<lparr>rs_ring := fold pb_push_entry bids (rs_ring y),
     rs_held := filter (\<lambda>b. b \<notin> set bids) (rs_held y), rs_pushed := rs_pushed y @ bids, rs_torn := t\<rparr>)"
    using ring_run_pushes [OF assms(1,2)] by blast
  show ?thesis
    using assms(3,4) t
    by (cases "pb_finish_batch dbg (length bids) (fold pb_push_entry bids (rs_ring y))")
      (simp_all add: ring_run_append pb_replenish_batch_def)
qed

subsection \<open>Free-running counters\<close>

text \<open>
  The proof counts pushes and picks without wrap-around: \<open>T\<close> and \<open>H\<close> are the natural numbers
  whose low 16 bits are the tail and the head. The buffers in the ring are those of the
  positions \<open>H\<close> to \<open>T - 1\<close>, reduced modulo the ring size.
\<close>

definition window :: "BufRingEntry list \<Rightarrow> nat \<Rightarrow> nat \<Rightarrow> nat list" where
  "window ring H T = map (\<lambda>j. be_bid (ring ! (j mod length ring))) [H..<T]"

definition addressed :: "nat \<Rightarrow> BufRingEntry list \<Rightarrow> nat \<Rightarrow> nat \<Rightarrow> bool" where
  "addressed bsize ring H T \<longleftrightarrow>
     (\<forall>j. H \<le> j \<longrightarrow> j < T \<longrightarrow>
        be_addr (ring ! (j mod length ring)) = be_bid (ring ! (j mod length ring)) * bsize \<and> be_len (ring ! (j mod length ring)) = bsize)"

definition ring_shape :: "ProvidedBufRing \<Rightarrow> nat \<Rightarrow> nat \<Rightarrow> bool" where
  "ring_shape r k T \<longleftrightarrow> k < 16 \<and> unat (pb_ring_size r) = 2 ^ k \<and> length (pb_ring r) = 2 ^ k \<and>
     pb_mask r = mask k \<and> pb_tail r = of_nat T"

lemma ring_index:
  assumes "k < 16"
  shows "unat ((of_nat T :: u16) AND mask k) = T mod 2 ^ k"
proof -
  have "unat ((of_nat T :: u16) AND mask k) = take_bit k (unat (of_nat T :: u16))"
    by (simp add: take_bit_eq_mask [symmetric] unsigned_take_bit_eq)
  also have "\<dots> = T mod 2 ^ LENGTH(16) mod 2 ^ k" by (simp add: unat_of_nat take_bit_eq_mod)
  also have "\<dots> = T mod 2 ^ k" using assms by (intro mod_mod_cancel le_imp_power_dvd) simp
  finally show ?thesis .
qed

lemma mod_neq_in_window: "H \<le> j \<Longrightarrow> j < T \<Longrightarrow> T - H < n \<Longrightarrow> j mod n \<noteq> T mod (n::nat)"
proof
  assume a: "H \<le> j" "j < T" "T - H < n" "j mod n = T mod n"
  then have "n dvd T - j" using mod_eq_dvd_iff_nat [of j T n] by simp
  then have "n \<le> T - j" using a by (intro dvd_imp_le) simp_all
  then show False using a by linarith
qed

lemma push_shape:
  assumes "ring_shape r k T"
  shows "ring_shape (pb_push_entry b r) k (Suc T)"
    and "pb_ring (pb_push_entry b r) = (pb_ring r)[T mod 2 ^ k := \<lparr>be_addr = b * pb_buf_size r, be_len = pb_buf_size r, be_bid = b, be_resv = 0\<rparr>]"
    and "pb_outstanding (pb_push_entry b r) = pb_outstanding r" "pb_buf_size (pb_push_entry b r) = pb_buf_size r"
  using assms ring_index [of k T] by (simp_all add: ring_shape_def pb_push_entry_def Let_def add.commute)

lemma push_window:
  assumes "ring_shape r k T" "H \<le> T" "T - H < 2 ^ k"
  shows "window (pb_ring (pb_push_entry b r)) H (Suc T) = window (pb_ring r) H T @ [b]"
    and "addressed (pb_buf_size r) (pb_ring r) H T \<Longrightarrow> addressed (pb_buf_size r) (pb_ring (pb_push_entry b r)) H (Suc T)"
proof -
  have n: "length (pb_ring r) = 2 ^ k" using assms(1) by (simp add: ring_shape_def)
  have other: "T mod 2 ^ k \<noteq> j mod 2 ^ k" if "H \<le> j" "j < T" for j
    using mod_neq_in_window [OF that assms(3)] by simp
  show "window (pb_ring (pb_push_entry b r)) H (Suc T) = window (pb_ring r) H T @ [b]"
    using assms(2) n other by (auto simp: window_def push_shape(2) [OF assms(1)] nth_list_update)
  show "addressed (pb_buf_size r) (pb_ring (pb_push_entry b r)) H (Suc T)" if "addressed (pb_buf_size r) (pb_ring r) H T"
    using that n other unfolding addressed_def push_shape(2) [OF assms(1)]
    by (auto simp: nth_list_update less_Suc_eq)
qed

lemma push_all:
  assumes "ring_shape r k T" "H \<le> T" "T - H + length bids \<le> 2 ^ k" "addressed (pb_buf_size r) (pb_ring r) H T"
  defines "r' \<equiv> fold pb_push_entry bids r"
  shows "ring_shape r' k (T + length bids) \<and> window (pb_ring r') H (T + length bids) = window (pb_ring r) H T @ bids \<and>
    addressed (pb_buf_size r) (pb_ring r') H (T + length bids) \<and>
    pb_outstanding r' = pb_outstanding r \<and> pb_buf_size r' = pb_buf_size r"
  using assms(1-4) unfolding r'_def
proof (induction bids arbitrary: r T)
  case (Cons b bids)
  let ?r = "pb_push_entry b r"
  have lt: "T - H < 2 ^ k" using Cons.prems(3) by simp
  note push = push_shape [OF Cons.prems(1), of b] push_window [OF Cons.prems(1,2) lt, of b]
  show ?case using Cons.IH [OF push(1)] Cons.prems push by simp
qed simp

lemma commit_ring:
  assumes "ring_shape r k T"
  shows "ring_shape (pb_commit_tail r) k T" "published_tail (pb_commit_tail r) = pb_tail (pb_commit_tail r)"
    and "window (pb_ring (pb_commit_tail r)) H T = window (pb_ring r) H T"
    and "addressed b (pb_ring r) H T \<Longrightarrow> addressed b (pb_ring (pb_commit_tail r)) H T"
    and "pb_outstanding (pb_commit_tail r) = pb_outstanding r" "pb_buf_size (pb_commit_tail r) = pb_buf_size r"
proof -
  have n: "length (pb_ring r) = 2 ^ k" using assms by (simp add: ring_shape_def)
  then have "0 < length (pb_ring r)" by simp
  then have same: "be_bid (pb_ring (pb_commit_tail r) ! j) = be_bid (pb_ring r ! j)"
    "be_addr (pb_ring (pb_commit_tail r) ! j) = be_addr (pb_ring r ! j)"
    "be_len (pb_ring (pb_commit_tail r) ! j) = be_len (pb_ring r ! j)" for j
    by (simp_all add: pb_commit_tail_def nth_list_update)
  show "window (pb_ring (pb_commit_tail r)) H T = window (pb_ring r) H T"
    using same by (simp add: window_def pb_commit_tail_def)
  show "addressed b (pb_ring r) H T \<Longrightarrow> addressed b (pb_ring (pb_commit_tail r)) H T"
    using same by (simp add: addressed_def pb_commit_tail_def)
qed (use assms in \<open>auto simp: ring_shape_def pb_commit_tail_def published_tail_def\<close>)

text \<open>
  \<open>H\<close>, \<open>C\<close> and \<open>T\<close> count the picks, the committed and all the pushes. The buffers of the
  positions \<open>C\<close> to \<open>T - 1\<close> are those of the batch in progress.
\<close>

definition ring_inv :: "nat \<Rightarrow> nat \<Rightarrow> nat \<Rightarrow> nat \<Rightarrow> ring_system \<Rightarrow> bool" where
  "ring_inv k H C T y \<longleftrightarrow> ring_shape (rs_ring y) k T \<and> rs_head y = of_nat H \<and> H \<le> C \<and> C \<le> T \<and> T - H \<le> 2 ^ k \<and>
     (\<not> rs_torn y \<longrightarrow> published_tail (rs_ring y) = of_nat C) \<and> (rs_torn y \<longrightarrow> rs_pushed y \<noteq> []) \<and>
     window (pb_ring (rs_ring y)) C T = rs_pushed y \<and>
     pb_outstanding (rs_ring y) = length (rs_held y) + length (rs_pushed y) \<and>
     distinct (window (pb_ring (rs_ring y)) H T @ rs_pending y @ rs_held y) \<and>
     set (window (pb_ring (rs_ring y)) H T @ rs_pending y @ rs_held y) = {0..<2 ^ k} \<and>
     addressed (pb_buf_size (rs_ring y)) (pb_ring (rs_ring y)) H T"

lemma length_window [simp]: "length (window ring H T) = T - H"
  by (simp add: window_def)

lemma window_split: "H \<le> C \<Longrightarrow> C \<le> T \<Longrightarrow> window ring H T = window ring H C @ window ring C T"
  unfolding window_def by (metis map_append le_add_diff_inverse upt_add_eq_append)

lemma ring_inv_count:
  assumes "ring_inv k H C T y"
  shows "T - H + length (rs_pending y) + length (rs_held y) = 2 ^ k" "T - C = length (rs_pushed y)"
proof -
  let ?xs = "window (pb_ring (rs_ring y)) H T @ rs_pending y @ rs_held y"
  have "length ?xs = card {0..<2 ^ k :: nat}"
    using assms distinct_card [of ?xs] unfolding ring_inv_def by metis
  then show "T - H + length (rs_pending y) + length (rs_held y) = 2 ^ k" by simp
  have "length (window (pb_ring (rs_ring y)) C T) = length (rs_pushed y)" using assms by (simp add: ring_inv_def)
  then show "T - C = length (rs_pushed y)" by simp
qed

lemma u16_counters_eq:
  assumes "H \<le> T" "T - H < 2 ^ 16"
  shows "(of_nat T :: u16) = of_nat H \<longleftrightarrow> T = H" "unat (of_nat T - of_nat H :: u16) = T - H"
proof -
  have d: "(of_nat T - of_nat H :: u16) = of_nat (T - H)" using assms(1) by (simp add: of_nat_diff)
  show u: "unat (of_nat T - of_nat H :: u16) = T - H"
    unfolding d using assms(2) by (intro unat_of_nat_fits) simp
  show "(of_nat T :: u16) = of_nat H \<longleftrightarrow> T = H"
  proof
    assume "(of_nat T :: u16) = of_nat H"
    then have "unat (of_nat T - of_nat H :: u16) = 0" by simp
    then show "T = H" using u assms(1) by simp
  qed simp
qed

lemma two_power_u16: "k < 16 \<Longrightarrow> (2::nat) ^ k < 2 ^ 16"
  by (rule power_strict_increasing) simp_all

lemma ring_inv_small: "ring_inv k H C T y \<Longrightarrow> k < 16 \<and> C - H < 2 ^ 16 \<and> T - H < 2 ^ 16"
  using two_power_u16 [of k] by (auto simp: ring_inv_def ring_shape_def)

lemma pickable_window:
  assumes inv: "ring_inv k H C T y" and nt: "\<not> rs_torn y"
  shows "unat (published_tail (rs_ring y) - rs_head y) = C - H" "map be_bid (pickable y) = window (pb_ring (rs_ring y)) H C"
    and "e \<in> set (pickable y) \<Longrightarrow> be_addr e = be_bid e * pb_buf_size (rs_ring y) \<and> be_len e = pb_buf_size (rs_ring y)"
    and "published_tail (rs_ring y) \<noteq> rs_head y \<longleftrightarrow> H < C"
proof -
  have p: "published_tail (rs_ring y) = of_nat C" "rs_head y = of_nat H" "H \<le> C" "C \<le> T" "k < 16"
    "pb_mask (rs_ring y) = mask k" "length (pb_ring (rs_ring y)) = 2 ^ k"
    "addressed (pb_buf_size (rs_ring y)) (pb_ring (rs_ring y)) H T"
    using inv nt by (auto simp: ring_inv_def ring_shape_def)
  have lt: "C - H < 2 ^ 16" using ring_inv_small [OF inv] by simp
  show n: "unat (published_tail (rs_ring y) - rs_head y) = C - H" using p(1,2) u16_counters_eq(2) [OF p(3) lt] by simp
  show "published_tail (rs_ring y) \<noteq> rs_head y \<longleftrightarrow> H < C" using p(1-3) u16_counters_eq(1) [OF p(3) lt] by auto
  have entry: "ring_entry y (rs_head y + of_nat i) = pb_ring (rs_ring y) ! ((H + i) mod length (pb_ring (rs_ring y)))" for i
    using ring_index [OF p(5), of "H + i"] p(2,6,7) by (simp add: ring_entry_def)
  have pick: "pickable y = map (\<lambda>j. pb_ring (rs_ring y) ! (j mod length (pb_ring (rs_ring y)))) [H..<C]"
    unfolding pickable_def n entry using p(3) by (intro nth_equalityI) simp_all
  then show "map be_bid (pickable y) = window (pb_ring (rs_ring y)) H C" by (simp add: window_def)
  show "be_addr e = be_bid e * pb_buf_size (rs_ring y) \<and> be_len e = pb_buf_size (rs_ring y)" if "e \<in> set (pickable y)"
    using that p(4,8) unfolding pick addressed_def by auto
qed

lemma pick_inv:
  assumes inv: "ring_inv k H C T y" and legal: "ring_legal KernelPick y"
  shows "\<exists>y'. ring_step dbg KernelPick y = Ret y' \<and> ring_inv k (Suc H) C T y'"
proof -
  have lt: "H < C" "C \<le> T" "k < 16" using legal pickable_window(4) [OF inv] inv by (auto simp: ring_inv_def ring_shape_def)
  have "ring_entry y (rs_head y) = pb_ring (rs_ring y) ! (H mod length (pb_ring (rs_ring y)))"
    using inv ring_index [OF lt(3), of H] by (simp add: ring_entry_def ring_inv_def ring_shape_def)
  then have w: "window (pb_ring (rs_ring y)) H T = be_bid (ring_entry y (rs_head y)) # window (pb_ring (rs_ring y)) (Suc H) T"
    using lt by (simp add: window_def upt_conv_Cons)
  have "addressed b ring (Suc H) T" if "addressed b ring H T" for b ring using that by (simp add: addressed_def)
  then show ?thesis using inv lt w by (auto simp: ring_inv_def add.commute)
qed

lemma completion_inv:
  assumes inv: "ring_inv k H C T y" and legal: "ring_legal Completion y"
  shows "\<exists>y'. ring_step dbg Completion y = Ret y' \<and> ring_inv k H C T y'"
proof -
  obtain b bs where p: "rs_pending y = b # bs" using legal by (cases "rs_pending y") auto
  let ?n = "length (rs_held y) + 1"
  have held: "?n \<le> 2 ^ k" using ring_inv_count(1) [OF inv] p by simp
  then have "?n < 2 ^ 32" using two_power_u16 [of k] ring_inv_small [OF inv] by simp
  then have "pb_on_handout dbg (rs_ring y) = Ret ((rs_ring y)\<lparr>pb_outstanding := ?n\<rparr>)"
    using inv legal held by (simp add: pb_on_handout_def uint_add_fits ring_inv_def ring_shape_def)
  then show ?thesis using inv legal p by (auto simp: ring_inv_def ring_shape_def published_tail_def)
qed

lemma length_filter_other: "distinct xs \<Longrightarrow> b \<in> set xs \<Longrightarrow> length (filter (\<lambda>c. c \<noteq> b) xs) + 1 = length xs"
proof (induction xs)
  case (Cons x xs)
  have "b \<notin> set xs \<Longrightarrow> filter (\<lambda>c. c \<noteq> b) xs = xs" by (auto simp: filter_id_conv)
  then show ?case using Cons by auto
qed simp

lemma push_inv:
  assumes inv: "ring_inv k H C T y" and legal: "ring_legal (Push b) y"
  shows "\<exists>y'. ring_step dbg (Push b) y = Ret y' \<and> ring_inv k H C (Suc T) y'"
proof -
  let ?r = "rs_ring y" and ?held = "filter (\<lambda>c. c \<noteq> b) (rs_held y)"
  have shape: "ring_shape ?r k T" and le: "H \<le> C" "C \<le> T" "H \<le> T" using inv by (auto simp: ring_inv_def)
  have b: "distinct (rs_held y)" "b \<in> set (rs_held y)" using legal inv by (auto simp: ring_inv_def)
  have split: "length ?held + 1 = length (rs_held y)"
    using b by (rule length_filter_other)
  have lt: "T - H < 2 ^ k" "T - C < 2 ^ k" using ring_inv_count(1) [OF inv] split le by linarith+
  note push = push_shape [OF shape, of b] and wH = push_window [OF shape le(3) lt(1), of b] and wC = push_window(1) [OF shape le(2) lt(2), of b]
  have tail: "pb_tail ?r AND pb_mask ?r = 0 \<longleftrightarrow> T mod 2 ^ k = 0"
    using ring_index [of k T] shape unfolding ring_shape_def by (metis unat_eq_zero)
  have pub: "published_tail (pb_push_entry b ?r) = published_tail ?r" if "T mod 2 ^ k \<noteq> 0"
    using that push(2) by (simp add: published_tail_def)
  let ?y = "y\<lparr>rs_ring := pb_push_entry b ?r, rs_held := ?held, rs_pushed := rs_pushed y @ [b],
            rs_torn := (rs_torn y \<or> pb_tail ?r AND pb_mask ?r = 0)\<rparr>"
  have own: "distinct ((window (pb_ring ?r) H T @ [b]) @ rs_pending y @ ?held)"
    "set ((window (pb_ring ?r) H T @ [b]) @ rs_pending y @ ?held) = {0..<2 ^ k}"
    using inv b unfolding ring_inv_def by auto
  have "ring_inv k H C (Suc T) ?y"
    unfolding ring_inv_def
  proof (intro conjI)
    show "\<not> rs_torn ?y \<longrightarrow> published_tail (rs_ring ?y) = of_nat C" using inv tail pub by (auto simp: ring_inv_def)
    show "window (pb_ring (rs_ring ?y)) C (Suc T) = rs_pushed ?y" using wC inv by (simp add: ring_inv_def)
    show "pb_outstanding (rs_ring ?y) = length (rs_held ?y) + length (rs_pushed ?y)" using push(3) inv split by (simp add: ring_inv_def)
    show "distinct (window (pb_ring (rs_ring ?y)) H (Suc T) @ rs_pending ?y @ rs_held ?y)"
      "set (window (pb_ring (rs_ring ?y)) H (Suc T) @ rs_pending ?y @ rs_held ?y) = {0..<2 ^ k}" using own wH(1) by simp_all
    show "addressed (pb_buf_size (rs_ring ?y)) (pb_ring (rs_ring ?y)) H (Suc T)" using wH(2) push(4) inv by (simp add: ring_inv_def)
  qed (use inv le lt push(1) in \<open>auto simp: ring_inv_def\<close>)
  then show ?thesis by simp
qed

lemma commit_inv:
  assumes inv: "ring_inv k H C T y" and legal: "ring_legal Commit y"
  shows "\<exists>y'. ring_step dbg Commit y = Ret y' \<and> ring_inv k H T T y'"
proof -
  let ?n = "length (rs_pushed y)" and ?r = "rs_ring y"
  let ?r2 = "?r\<lparr>pb_outstanding := length (rs_held y)\<rparr>"
  have "H \<le> C" using inv by (simp add: ring_inv_def)
  then have "?n < 2 ^ 16" using ring_inv_count(2) [OF inv] ring_inv_small [OF inv] by linarith
  then have c: "cast_uint 32 ?n = ?n" by (intro cast_uint_fits) simp
  then have fin: "pb_finish_batch dbg ?n ?r = Ret (pb_commit_tail ?r2)"
    using inv by (simp add: pb_finish_batch_def ring_inv_def)
  have shape2: "ring_shape ?r2 k T" using inv by (simp add: ring_inv_def ring_shape_def)
  have "pb_tail (pb_commit_tail ?r2) = of_nat T" using shape2 by (simp add: pb_commit_tail_def ring_shape_def)
  then have pub: "published_tail (pb_commit_tail ?r2) = of_nat T" using commit_ring(2) [OF shape2] by simp
  have same: "window (pb_ring (pb_commit_tail ?r2)) H T = window (pb_ring ?r) H T"
    "addressed b (pb_ring ?r) H T \<Longrightarrow> addressed b (pb_ring (pb_commit_tail ?r2)) H T" for b
    using commit_ring(3,4) [OF shape2] by simp_all
  have "window ring T T = []" for ring by (simp add: window_def)
  moreover have "H \<le> T" using inv by (simp add: ring_inv_def)
  ultimately have "ring_inv k H T T (y\<lparr>rs_ring := pb_commit_tail ?r2, rs_pushed := [], rs_torn := False\<rparr>)"
    using inv pub same(1) same(2) [of "pb_buf_size ?r"] commit_ring(1,5,6) [OF shape2] unfolding ring_inv_def by simp
  then show ?thesis using fin by simp
qed

lemma ring_run_inv: "ring_inv k H C T y \<Longrightarrow> \<exists>y' H' C' T'. ring_run dbg evs y = Ret y' \<and> ring_inv k H' C' T' y'"
proof (induction evs arbitrary: y H C T)
  case (Cons ev evs)
  show ?case
  proof (cases "ring_legal ev y")
    case True
    then have "\<exists>y1 H1 C1 T1. ring_step dbg ev y = Ret y1 \<and> ring_inv k H1 C1 T1 y1"
      using pick_inv [OF Cons.prems] completion_inv [OF Cons.prems] push_inv [OF Cons.prems] commit_inv [OF Cons.prems]
      by (cases ev) blast+
    then show ?thesis using Cons.IH True by auto
  qed (use Cons in auto)
qed auto

lemma pb_new_inv:
  assumes "k < 16"
  shows "\<exists>r. pb_new True bgid (of_nat (2 ^ k)) buf_size = Ret (Some r) \<and>
    ring_inv k 0 (2 ^ k) (2 ^ k) (ring_start r) \<and> pb_buf_size r = buf_size"
proof -
  let ?w = "of_nat (2 ^ k) :: u16"
  let ?b = "pb_blank bgid ?w buf_size"
  let ?r = "fold pb_push_entry [0..<2 ^ k] ?b"
  have u: "unat ?w = 2 ^ k" using two_power_u16 [OF assms] by (intro unat_of_nat_fits) simp
  have "is_power_of_two ?w"
    using assms by (auto simp: is_power_of_two_def list_ex_iff push_bit_eq_mult intro!: bexI [of _ k])
  then have new: "pb_new True bgid ?w buf_size = Ret (Some (pb_commit_tail ?r))" by (simp only: pb_new_def u ensure_True simp_thms if_False)
  have shape: "ring_shape ?b k 0"
    using assms u by (simp add: ring_shape_def pb_blank_def mask_eq_exp_minus_1)
  have all: "ring_shape ?r k (2 ^ k)" "window (pb_ring ?r) 0 (2 ^ k) = [0..<2 ^ k]" "addressed buf_size (pb_ring ?r) 0 (2 ^ k)"
    "pb_outstanding ?r = 0" "pb_buf_size ?r = buf_size"
    using push_all [OF shape, of 0 "[0..<2 ^ k]"] by (simp_all add: window_def addressed_def pb_blank_def)
  have "pb_tail (pb_commit_tail ?r) = of_nat (2 ^ k)" using all(1) by (simp add: pb_commit_tail_def ring_shape_def)
  then have "ring_inv k 0 (2 ^ k) (2 ^ k) (ring_start (pb_commit_tail ?r))"
    using all commit_ring [OF all(1)] by (simp add: ring_inv_def ring_start_def window_def [of _ "2 ^ k"])
  then show ?thesis using new commit_ring(6) [OF all(1)] all(5) by auto
qed

text \<open>
  C11. The worker and the kernel never share a receive buffer. Start from a fresh ring of
  \<open>2^k\<close> buffers and let kernel picks, completions seen by the worker, and the single steps of
  batched replenishments (each push, then the commit) interleave in any order, except that
  the kernel does not look at the ring between a push at ring index 0 and the commit. In both
  builds, also when the 16-bit tail and head wrap: nothing panics. While the published tail
  is intact, the buffers the kernel can pick, those picked whose completion is not yet seen,
  those the worker processes and those of the batch in progress are a partition of all
  buffers, and every entry the kernel can pick has the address and the length \<open>get_buffer\<close>
  reads that buffer from. Between batches \<open>free()\<close> is the number of buffers the kernel can
  pick plus the number of completions not yet seen: it overstates what the kernel has left by
  exactly the latter. Also in the excluded window the buffers of completions not yet seen,
  those the worker processes and those of the batch are all different.
\<close>

theorem provided_ring_ownership:
  assumes "k < 16" "pb_new True bgid (of_nat (2 ^ k)) buf_size = Ret (Some r)"
  shows "\<exists>y. ring_run dbg evs (ring_start r) = Ret y \<and>
    distinct (rs_pending y @ rs_held y @ rs_pushed y) \<and> pb_free (rs_ring y) + length (rs_held y) + length (rs_pushed y) = 2 ^ k \<and>
    (\<not> rs_torn y \<longrightarrow>
       distinct (map be_bid (pickable y) @ rs_pending y @ rs_held y @ rs_pushed y) \<and>
       set (map be_bid (pickable y) @ rs_pending y @ rs_held y @ rs_pushed y) = {0..<2 ^ k} \<and>
       list_all (\<lambda>e. (be_addr e, be_len e) = pb_get_buffer (be_bid e) (rs_ring y)) (pickable y) \<and>
       (published_tail (rs_ring y) = rs_head y \<longleftrightarrow> pickable y = [])) \<and>
    (rs_pushed y = [] \<longrightarrow> \<not> rs_torn y \<and> pb_free (rs_ring y) = length (pickable y) + length (rs_pending y))"
proof -
  have "ring_inv k 0 (2 ^ k) (2 ^ k) (ring_start r)" using pb_new_inv [OF assms(1), of bgid buf_size] assms(2) by auto
  then obtain y H C T where y: "ring_run dbg evs (ring_start r) = Ret y" and inv: "ring_inv k H C T y"
    using ring_run_inv by blast
  note count = ring_inv_count [OF inv] and pick = pickable_window [OF inv]
  have le: "H \<le> C" "C \<le> T" using inv by (simp_all add: ring_inv_def)
  have w: "window (pb_ring (rs_ring y)) H T = window (pb_ring (rs_ring y)) H C @ rs_pushed y"
    using window_split [OF le] inv by (simp add: ring_inv_def)
  have own: "distinct ((window (pb_ring (rs_ring y)) H C @ rs_pushed y) @ rs_pending y @ rs_held y)"
    "set ((window (pb_ring (rs_ring y)) H C @ rs_pushed y) @ rs_pending y @ rs_held y) = {0..<2 ^ k}"
    using inv w unfolding ring_inv_def by simp_all
  have free: "pb_free (rs_ring y) + length (rs_held y) + length (rs_pushed y) = 2 ^ k"
    using inv count le by (simp add: pb_free_def pb_ring_entries_def ring_inv_def ring_shape_def)
  have len: "\<not> rs_torn y \<Longrightarrow> length (pickable y) = C - H" using pick(1) by (simp add: pickable_def)
  have intact: "distinct (map be_bid (pickable y) @ rs_pending y @ rs_held y @ rs_pushed y) \<and>
       set (map be_bid (pickable y) @ rs_pending y @ rs_held y @ rs_pushed y) = {0..<2 ^ k} \<and>
       list_all (\<lambda>e. (be_addr e, be_len e) = pb_get_buffer (be_bid e) (rs_ring y)) (pickable y) \<and>
       (published_tail (rs_ring y) = rs_head y \<longleftrightarrow> pickable y = [])" if "\<not> rs_torn y"
    using own pick(2,3,4) [OF that] len [OF that] le
    by (auto simp: list_all_iff pb_get_buffer_def simp flip: length_0_conv)
  have between: "rs_pushed y = [] \<Longrightarrow> \<not> rs_torn y \<and> pb_free (rs_ring y) = length (pickable y) + length (rs_pending y)"
    using inv len free count le by (auto simp: ring_inv_def)
  have "distinct (rs_pending y @ rs_held y @ rs_pushed y)" using own(1) by auto
  then show ?thesis using y free intact between by blast
qed

theorem provided_ring_ownership_witness:
  "\<exists>r y. pb_new True 0 (of_nat (2 ^ 1)) 16 = Ret (Some r) \<and>
     ring_run True [KernelPick, KernelPick, KernelPick, Completion, Completion, Push 1, KernelPick, Commit, KernelPick, Push 0, Commit, Completion]
       (ring_start r) = Ret y \<and> distinct (rs_pending y @ rs_held y @ rs_pushed y) \<and>
     pb_free (rs_ring y) + length (rs_held y) + length (rs_pushed y) = 2"
proof -
  let ?evs = "[KernelPick, KernelPick, KernelPick, Completion, Completion, Push 1, KernelPick, Commit, KernelPick, Push 0, Commit, Completion]"
  obtain r where r: "pb_new True 0 (of_nat (2 ^ 1)) 16 = Ret (Some r)" using pb_new_inv [of 1 0 16] by auto
  have k: "(1 :: nat) < 16" by simp
  obtain y where "ring_run True ?evs (ring_start r) = Ret y" "distinct (rs_pending y @ rs_held y @ rs_pushed y)"
      "pb_free (rs_ring y) + length (rs_held y) + length (rs_pushed y) = 2 ^ 1"
    using provided_ring_ownership [OF k r, of True ?evs] by (elim exE conjE) (rule that)
  then show ?thesis using r unfolding power_one_right by blast
qed

text \<open>
  C18. Publishing entries. A push at any ring index but 0 leaves the tail that the kernel reads as
  it was, and \<open>commit_tail\<close> then publishes the new tail whatever the index. At index 0 the entry
  write covers the tail field, so between the push and the commit the published tail reads 0;
  the worker republishes it before it enters the kernel again, but a kernel thread that polls
  on its own (SQPOLL) can observe the intermediate value.
\<close>

theorem push_at_index_0_unpublishes_tail:
  assumes "ring_shape r k T"
  shows "published_tail (pb_push_entry b r) = (if T mod 2 ^ k = 0 then 0 else published_tail r) \<and>
    published_tail (pb_commit_tail (pb_push_entry b r)) = pb_tail r + 1"
proof -
  have "published_tail (pb_commit_tail (pb_push_entry b r)) = pb_tail (pb_commit_tail (pb_push_entry b r))"
    using commit_ring(2) [OF push_shape(1) [OF assms]] .
  moreover have "pb_tail (pb_commit_tail (pb_push_entry b r)) = pb_tail r + 1"
    by (simp add: pb_commit_tail_def pb_push_entry_def Let_def)
  ultimately show ?thesis
    using push_shape(2) [OF assms, of b] assms by (simp add: published_tail_def ring_shape_def)
qed

theorem push_at_index_0_unpublishes_tail_witness:
  "\<exists>r. pb_new True 0 (of_nat (2 ^ 1)) 16 = Ret (Some r) \<and> published_tail (pb_push_entry 1 r) = 0 \<and>
     published_tail (pb_commit_tail (pb_push_entry 1 r)) = pb_tail r + 1"
proof -
  obtain r where r: "pb_new True 0 (of_nat (2 ^ 1)) 16 = Ret (Some r)" "ring_shape r 1 2"
    using pb_new_inv [of 1 0 16] by (auto simp: ring_inv_def ring_start_def)
  show ?thesis using r(1) push_at_index_0_unpublishes_tail [OF r(2), of 1] by auto
qed

end
