(* ===== verification/Task_Slab.thy ===== *)
theory Task_Slab
  imports Slot_Pool
begin

section \<open>Task slabs (\<open>ringline/src/runtime/task.rs\<close>)\<close>

text \<open>
  A slot holds nothing, a parked or a ready future, or is marked as being polled while its
  future is out. Futures are opaque values of type \<open>'f\<close>. The connection slab is indexed by
  connection; the standalone slab hands out indices from a free list.
\<close>

datatype 'f TaskSlot = TaskEmpty | TaskPolling | TaskParked 'f | TaskReady 'f

type_synonym 'f TaskSlab = "'f TaskSlot list"

definition task_slab_new :: "nat \<Rightarrow> 'f TaskSlab" where
  "task_slab_new max_connections = replicate max_connections TaskEmpty"

definition task_spawn :: "profile \<Rightarrow> nat \<Rightarrow> 'f \<Rightarrow> 'f TaskSlab \<Rightarrow> 'f TaskSlab outcome" where
  "task_spawn dbg idx fut ts =
     debug_assert dbg (idx < length ts)
       (debug_assert dbg (idx < length ts \<and> ts ! idx = TaskEmpty)
         (ensure (idx < length ts) (Ret (ts[idx := TaskReady fut]))))"

definition task_take_ready :: "nat \<Rightarrow> 'f TaskSlab \<Rightarrow> 'f option \<times> 'f TaskSlab" where
  "task_take_ready idx ts =
     (if length ts \<le> idx then (None, ts)
      else case ts ! idx of
          TaskReady fut \<Rightarrow> (Some fut, ts[idx := TaskPolling])
        | other \<Rightarrow> (None, ts))"

definition task_park :: "profile \<Rightarrow> nat \<Rightarrow> 'f \<Rightarrow> 'f TaskSlab \<Rightarrow> 'f TaskSlab outcome" where
  "task_park dbg idx fut ts =
     debug_assert dbg (idx < length ts) (ensure (idx < length ts) (Ret (ts[idx := TaskParked fut])))"

definition task_wake :: "nat \<Rightarrow> 'f TaskSlab \<Rightarrow> bool \<times> 'f TaskSlab" where
  "task_wake idx ts =
     (if length ts \<le> idx then (False, ts)
      else case ts ! idx of
          TaskParked fut \<Rightarrow> (True, ts[idx := TaskReady fut])
        | TaskReady fut \<Rightarrow> (False, ts[idx := TaskReady fut])
        | TaskPolling \<Rightarrow> (False, ts[idx := TaskPolling])
        | TaskEmpty \<Rightarrow> (False, ts[idx := TaskEmpty]))"

definition task_remove :: "nat \<Rightarrow> 'f TaskSlab \<Rightarrow> 'f TaskSlab" where
  "task_remove idx ts = (if idx < length ts then ts[idx := TaskEmpty] else ts)"

record 'f StandaloneTaskSlab =
  st_tasks :: "'f TaskSlot list"
  st_free_list :: "nat list"

definition st_new :: "nat \<Rightarrow> 'f StandaloneTaskSlab" where
  "st_new capacity = \<lparr>st_tasks = replicate capacity TaskEmpty, st_free_list = [0..<capacity]\<rparr>"

definition st_spawn :: "'f \<Rightarrow> 'f StandaloneTaskSlab \<Rightarrow> (nat option \<times> 'f StandaloneTaskSlab) outcome" where
  "st_spawn fut s =
     (case vec_pop (st_free_list s) of
        None \<Rightarrow> Ret (None, s)
      | Some (idx, fl) \<Rightarrow>
          ensure (idx < length (st_tasks s))
            (Ret (Some idx, s\<lparr>st_tasks := (st_tasks s)[idx := TaskReady fut], st_free_list := fl\<rparr>)))"

definition st_take_ready :: "nat \<Rightarrow> 'f StandaloneTaskSlab \<Rightarrow> 'f option \<times> 'f StandaloneTaskSlab" where
  "st_take_ready idx s = (case task_take_ready idx (st_tasks s) of (r, ts) \<Rightarrow> (r, s\<lparr>st_tasks := ts\<rparr>))"

definition st_park :: "profile \<Rightarrow> nat \<Rightarrow> 'f \<Rightarrow> 'f StandaloneTaskSlab \<Rightarrow> 'f StandaloneTaskSlab outcome" where
  "st_park dbg idx fut s =
     outcome_bind (task_park dbg idx fut (st_tasks s)) (\<lambda>ts. Ret (s\<lparr>st_tasks := ts\<rparr>))"

definition st_wake :: "nat \<Rightarrow> 'f StandaloneTaskSlab \<Rightarrow> bool \<times> 'f StandaloneTaskSlab" where
  "st_wake idx s = (case task_wake idx (st_tasks s) of (r, ts) \<Rightarrow> (r, s\<lparr>st_tasks := ts\<rparr>))"

definition st_remove :: "nat \<Rightarrow> 'f StandaloneTaskSlab \<Rightarrow> 'f StandaloneTaskSlab" where
  "st_remove idx s =
     (if length (st_tasks s) \<le> idx then s
      else case st_tasks s ! idx of
          TaskEmpty \<Rightarrow> s
        | _ \<Rightarrow> s\<lparr>st_tasks := (st_tasks s)[idx := TaskEmpty], st_free_list := vec_push (st_free_list s) idx\<rparr>)"

subsection \<open>Slots\<close>

lemma task_wake_eq: "snd (task_wake idx ts) = (if idx < length ts then case ts ! idx of TaskParked f \<Rightarrow> ts[idx := TaskReady f] | _ \<Rightarrow> ts else ts)"
  by (auto simp: task_wake_def list_update_same_conv split: TaskSlot.splits)

lemma task_wake_woken: "fst (task_wake idx ts) \<longleftrightarrow> idx < length ts \<and> (\<exists>f. ts ! idx = TaskParked f)"
  by (auto simp: task_wake_def split: TaskSlot.splits)

lemma task_take_ready_eq:
  "fst (task_take_ready idx ts) = Some f \<longleftrightarrow> idx < length ts \<and> ts ! idx = TaskReady f"
  "fst (task_take_ready idx ts) = Some f \<Longrightarrow> snd (task_take_ready idx ts) = ts[idx := TaskPolling]"
  "fst (task_take_ready idx ts) = None \<Longrightarrow> snd (task_take_ready idx ts) = ts"
  by (auto simp: task_take_ready_def split: TaskSlot.splits)

lemma task_lengths [simp]:
  "length (snd (task_wake idx ts)) = length ts" "length (snd (task_take_ready idx ts)) = length ts" "length (task_remove idx ts) = length ts"
  by (auto simp: task_wake_def task_take_ready_def task_remove_def split: TaskSlot.splits)

definition st_used :: "'f StandaloneTaskSlab \<Rightarrow> nat \<Rightarrow> bool" where
  "st_used s i \<longleftrightarrow> i < length (st_tasks s) \<and> st_tasks s ! i \<noteq> TaskEmpty"

definition st_ok :: "'f StandaloneTaskSlab \<Rightarrow> bool" where
  "st_ok s \<longleftrightarrow> free_list_ok (length (st_tasks s)) (\<lambda>i. st_tasks s ! i \<noteq> TaskEmpty) (st_free_list s)"

lemma st_new_ok: "st_ok (st_new n)"
proof -
  have "free_list_ok n (\<lambda>i. replicate n TaskEmpty ! i \<noteq> TaskEmpty) [0..<n]"
    by (rule free_list_ok_cong [OF free_list_ok_init(1)]) simp
  then show ?thesis by (simp add: st_ok_def st_new_def)
qed

lemma st_tasks_ok:
  assumes "st_ok s" "length ts = length (st_tasks s)" "\<And>i. i < length ts \<Longrightarrow> (ts ! i \<noteq> TaskEmpty) = (st_tasks s ! i \<noteq> TaskEmpty)"
  shows "st_ok (s\<lparr>st_tasks := ts\<rparr>)" "st_used (s\<lparr>st_tasks := ts\<rparr>) = st_used s"
proof -
  have "free_list_ok (length (st_tasks s)) (\<lambda>i. st_tasks s ! i \<noteq> TaskEmpty) (st_free_list s)"
    using assms(1) by (simp add: st_ok_def)
  then have "free_list_ok (length (st_tasks s)) (\<lambda>i. ts ! i \<noteq> TaskEmpty) (st_free_list s)"
    by (rule free_list_ok_cong) (use assms in auto)
  then show "st_ok (s\<lparr>st_tasks := ts\<rparr>)" using assms(2) by (simp add: st_ok_def)
  show "st_used (s\<lparr>st_tasks := ts\<rparr>) = st_used s" using assms by (auto simp: st_used_def fun_eq_iff)
qed

lemma st_wake_ok: "st_ok s \<Longrightarrow> st_ok (snd (st_wake i s))" "st_ok s \<Longrightarrow> st_used (snd (st_wake i s)) = st_used s"
proof -
  have e: "snd (st_wake i s) = s\<lparr>st_tasks := snd (task_wake i (st_tasks s))\<rparr>"
    by (simp add: st_wake_def split_beta)
  have "(snd (task_wake i (st_tasks s)) ! j \<noteq> TaskEmpty) = (st_tasks s ! j \<noteq> TaskEmpty)" for j
    by (cases "j = i") (auto simp: task_wake_eq split: TaskSlot.splits)
  then show "st_ok s \<Longrightarrow> st_ok (snd (st_wake i s))" "st_ok s \<Longrightarrow> st_used (snd (st_wake i s)) = st_used s"
    unfolding e using st_tasks_ok [of s "snd (task_wake i (st_tasks s))"] by simp_all
qed

lemma st_take_ready_ok: "st_ok s \<Longrightarrow> st_ok (snd (st_take_ready i s))" "st_ok s \<Longrightarrow> st_used (snd (st_take_ready i s)) = st_used s"
proof -
  let ?ts = "snd (task_take_ready i (st_tasks s))"
  have e: "snd (st_take_ready i s) = s\<lparr>st_tasks := ?ts\<rparr>"
    by (simp add: st_take_ready_def split_beta)
  have "(?ts ! j \<noteq> TaskEmpty) = (st_tasks s ! j \<noteq> TaskEmpty)" for j
    by (cases "j = i") (auto simp: task_take_ready_def split: TaskSlot.splits)
  then show "st_ok s \<Longrightarrow> st_ok (snd (st_take_ready i s))" "st_ok s \<Longrightarrow> st_used (snd (st_take_ready i s)) = st_used s"
    unfolding e using st_tasks_ok [of s ?ts] by simp_all
qed

lemma st_park_ok:
  assumes "st_ok s" "st_used s i"
  shows "\<exists>s'. st_park dbg i fut s = Ret s' \<and> st_ok s' \<and> st_used s' = st_used s"
proof -
  let ?ts = "(st_tasks s)[i := TaskParked fut]"
  have i: "i < length (st_tasks s)" "st_tasks s ! i \<noteq> TaskEmpty" using assms(2) by (auto simp: st_used_def)
  have "(?ts ! j \<noteq> TaskEmpty) = (st_tasks s ! j \<noteq> TaskEmpty)" for j using i by (cases "j = i") auto
  then show ?thesis
    using i st_tasks_ok [OF assms(1), of ?ts] by (simp add: st_park_def task_park_def)
qed

lemma st_spawn_eq:
  assumes "st_ok s" "st_free_list s = fl @ [i]"
  shows "st_spawn fut s = Ret (Some i, s\<lparr>st_tasks := (st_tasks s)[i := TaskReady fut], st_free_list := fl\<rparr>)"
    and "\<not> st_used s i" "i < length (st_tasks s)"
    and "st_ok (s\<lparr>st_tasks := (st_tasks s)[i := TaskReady fut], st_free_list := fl\<rparr>)"
    and "st_used (s\<lparr>st_tasks := (st_tasks s)[i := TaskReady fut], st_free_list := fl\<rparr>) = (st_used s)(i := True)"
proof -
  have f: "free_list_ok (length (st_tasks s)) (\<lambda>i. st_tasks s ! i \<noteq> TaskEmpty) (fl @ [i])"
    using assms by (simp add: st_ok_def)
  note pop = free_list_ok_pop [OF f]
  show i: "i < length (st_tasks s)" and "\<not> st_used s i" using pop by (auto simp: st_used_def)
  then show "st_spawn fut s = Ret (Some i, s\<lparr>st_tasks := (st_tasks s)[i := TaskReady fut], st_free_list := fl\<rparr>)"
    using assms(2) by (simp add: st_spawn_def vec_pop_def)
  have "free_list_ok (length (st_tasks s)) (\<lambda>j. (st_tasks s)[i := TaskReady fut] ! j \<noteq> TaskEmpty) fl"
    using i by (intro free_list_ok_cong [OF pop(3)]) (auto simp: nth_list_update)
  then show "st_ok (s\<lparr>st_tasks := (st_tasks s)[i := TaskReady fut], st_free_list := fl\<rparr>)" by (simp add: st_ok_def)
  show "st_used (s\<lparr>st_tasks := (st_tasks s)[i := TaskReady fut], st_free_list := fl\<rparr>) = (st_used s)(i := True)"
    using i by (auto simp: st_used_def fun_eq_iff nth_list_update)
qed

lemma st_remove_used:
  assumes "st_ok s" "st_used s i"
  shows "st_ok (st_remove i s)" "st_used (st_remove i s) = (st_used s)(i := False)" "length (st_tasks (st_remove i s)) = length (st_tasks s)"
proof -
  have i: "i < length (st_tasks s)" "st_tasks s ! i \<noteq> TaskEmpty" using assms(2) by (auto simp: st_used_def)
  have e: "st_remove i s = s\<lparr>st_tasks := (st_tasks s)[i := TaskEmpty], st_free_list := vec_push (st_free_list s) i\<rparr>"
    using i by (auto simp: st_remove_def split: TaskSlot.splits)
  have f: "free_list_ok (length (st_tasks s)) (\<lambda>i. st_tasks s ! i \<noteq> TaskEmpty) (st_free_list s)"
    using assms by (simp add: st_ok_def)
  have "free_list_ok (length (st_tasks s)) (\<lambda>j. (st_tasks s)[i := TaskEmpty] ! j \<noteq> TaskEmpty) (vec_push (st_free_list s) i)"
    using i by (intro free_list_ok_cong [OF free_list_ok_push [OF f i]]) (auto simp: nth_list_update)
  then show "st_ok (st_remove i s)" by (simp add: e st_ok_def)
  show "st_used (st_remove i s) = (st_used s)(i := False)" using i by (auto simp: e st_used_def fun_eq_iff nth_list_update)
  show "length (st_tasks (st_remove i s)) = length (st_tasks s)" by (simp add: e)
qed

lemma st_remove_idle: "\<not> st_used s i \<Longrightarrow> st_remove i s = s"
  by (auto simp: st_remove_def st_used_def)

definition st_acquire :: "'f \<Rightarrow> 'f StandaloneTaskSlab \<Rightarrow> (nat \<times> 'f StandaloneTaskSlab) option" where
  "st_acquire fut s = (case st_spawn fut s of Ret (Some i, s') \<Rightarrow> Some (i, s') | _ \<Rightarrow> None)"

abbreviation st_cap :: "'f StandaloneTaskSlab \<Rightarrow> nat" where
  "st_cap s \<equiv> length (st_tasks s)"

interpretation task_pool: guarded_slot_pool st_ok st_cap st_used "\<lambda>_ _. True" st_acquire st_remove
proof
  fix s :: "'f StandaloneTaskSlab" and fut i s' assume ok: "st_ok s" and acq: "st_acquire fut s = Some (i, s')"
  obtain fl j where fl: "st_free_list s = fl @ [j]"
    using acq by (cases "st_free_list s" rule: rev_cases) (auto simp: st_acquire_def st_spawn_def)
  note sp = st_spawn_eq(1,4,5) [OF ok fl, of fut] st_spawn_eq(2,3) [OF ok fl]
  have "j = i" "s' = s\<lparr>st_tasks := (st_tasks s)[i := TaskReady fut], st_free_list := fl\<rparr>"
    using acq sp(1) by (auto simp: st_acquire_def)
  then show "i < st_cap s \<and> \<not> st_used s i" "st_used s' = (st_used s)(i := True)" "st_cap s' = st_cap s" "st_ok s'"
    using sp by auto
next
  fix s :: "'f StandaloneTaskSlab" and fut i assume ok: "st_ok s" and acq: "st_acquire fut s = None" and i: "i < st_cap s"
  have "st_free_list s = []"
    using acq st_spawn_eq(1) [OF ok] by (cases "st_free_list s" rule: rev_cases) (auto simp: st_acquire_def)
  then show "st_used s i"
    using ok i free_list_ok_empty [of "st_cap s" "\<lambda>i. st_tasks s ! i \<noteq> TaskEmpty" i] by (simp add: st_used_def st_ok_def)
qed (simp_all add: st_remove_used st_remove_idle, simp add: st_used_def)

subsection \<open>A task that cancels itself\<close>

text \<open>
  C17. \<open>TaskId::cancel\<close> (\<open>runtime/io.rs\<close>) calls \<open>remove\<close> whatever the state of the slot. If a task
  cancels its own id from inside its poll, the slot reads \<open>Polling\<close>; \<open>remove\<close> puts the index
  on the free list, and when the poll returns \<open>Pending\<close> the event loop parks the future in
  the slot all the same. The slab is then inconsistent, and the next \<open>spawn\<close> takes the same
  index and drops the parked future.
\<close>

theorem self_cancel_then_park_corrupts_slab:
  assumes ok: "st_ok s" and i: "i < length (st_tasks s)" and p: "st_tasks s ! i = TaskPolling"
    and park: "st_park dbg i fut (st_remove i s) = Ret s'"
  shows "\<not> st_ok s' \<and> (\<exists>s''. st_spawn fut' s' = Ret (Some i, s'') \<and> st_tasks s'' ! i = TaskReady fut')"
proof -
  have e: "st_remove i s = s\<lparr>st_tasks := (st_tasks s)[i := TaskEmpty], st_free_list := vec_push (st_free_list s) i\<rparr>"
    using i p by (simp add: st_remove_def)
  have s': "st_tasks s' = (st_tasks s)[i := TaskParked fut]" "st_free_list s' = st_free_list s @ [i]"
    using park i by (auto simp: e st_park_def task_park_def vec_push_def)
  have "\<not> st_ok s'"
  proof
    assume "st_ok s'"
    then have "set (st_free_list s') = {j. j < length (st_tasks s') \<and> \<not> st_tasks s' ! j \<noteq> TaskEmpty}"
      by (simp only: st_ok_def free_list_ok_def)
    moreover have "i \<in> set (st_free_list s')" by (simp add: s'(2))
    ultimately have "st_tasks s' ! i = TaskEmpty" by blast
    then show False using i by (simp add: s'(1))
  qed
  moreover have "st_spawn fut' s' = Ret (Some i, s'\<lparr>st_tasks := (st_tasks s')[i := TaskReady fut'], st_free_list := st_free_list s\<rparr>)"
    using s' i by (simp add: st_spawn_def vec_pop_def)
  ultimately show ?thesis using s' i by simp
qed

theorem self_cancel_then_park_corrupts_slab_witness:
  "case st_spawn (1 :: nat) (st_new 2) of
     Ret (Some i, s) \<Rightarrow>
       (case st_park True i 3 (st_remove i (snd (st_take_ready i s))) of Ret s' \<Rightarrow> \<not> st_ok s' | Panic \<Rightarrow> False)
   | _ \<Rightarrow> False"
proof -
  have sp: "st_spawn (1 :: nat) (st_new 2) = Ret (Some 1, \<lparr>st_tasks = [TaskEmpty, TaskReady 1], st_free_list = [0]\<rparr>)" by code_simp
  let ?s = "\<lparr>st_tasks = [TaskEmpty, TaskPolling], st_free_list = [0]\<rparr> :: nat StandaloneTaskSlab"
  have tk: "snd (st_take_ready 1 \<lparr>st_tasks = [TaskEmpty, TaskReady (1 :: nat)], st_free_list = [0]\<rparr>) = ?s" by code_simp
  have ok: "st_ok ?s"
  proof -
    have "st_ok (snd (st_take_ready 1 \<lparr>st_tasks = [TaskEmpty, TaskReady (1 :: nat)], st_free_list = [0]\<rparr>))"
    proof (rule st_take_ready_ok(1))
      have "st_free_list (st_new 2 :: nat StandaloneTaskSlab) = [0] @ [1]" by code_simp
      from st_spawn_eq(4) [OF st_new_ok this, of 1]
      show "st_ok \<lparr>st_tasks = [TaskEmpty, TaskReady (1 :: nat)], st_free_list = [0]\<rparr>" by (simp add: st_new_def numeral_2_eq_2)
    qed
    then show ?thesis unfolding tk .
  qed
  have pk: "st_park True 1 3 (st_remove 1 ?s) = Ret \<lparr>st_tasks = [TaskEmpty, TaskParked 3], st_free_list = [0, 1]\<rparr>" by code_simp
  have "\<not> st_ok \<lparr>st_tasks = [TaskEmpty, TaskParked (3 :: nat)], st_free_list = [0, 1]\<rparr>"
    by (rule self_cancel_then_park_corrupts_slab [OF ok _ _ pk, THEN conjunct1]) simp_all
  then show ?thesis unfolding sp outcome.case prod.case option.case tk pk .
qed

end
