(* ===== verification/Timer_Slots.thy ===== *)
theory Timer_Slots
  imports Slot_Pool "HOL-Library.Product_Lexorder"
begin

section \<open>Timer slots (\<open>ringline/src/runtime/mod.rs\<close>, \<open>TimerSlotPool\<close>)\<close>

text \<open>
  The fields both backends have are one record; each backend extends it with its own. The
  io_uring backend keeps kernel timespecs, the mio backend deadlines and an expiry heap. The
  standard library's \<open>BinaryHeap\<close> of \<open>Reverse\<close> entries is the ascending list of its entries:
  \<open>peek\<close> sees the least one. Instants are natural numbers of nanoseconds; clock readings are
  arguments.
\<close>

record TimerSlotPool =
  tp_waker_ids :: "u32 list"
  tp_fired :: "bool list"
  tp_generations :: "u16 list"
  tp_free_list :: "nat list"

record uring_timer_pool = TimerSlotPool +
  tp_timespecs :: "(nat \<times> nat) list"

type_synonym heap_entry = "nat \<times> nat \<times> u16"

record mio_timer_pool = TimerSlotPool +
  tp_deadlines :: "nat option list"
  tp_expiry_heap :: "heap_entry list"

definition tp_uring_new :: "nat \<Rightarrow> uring_timer_pool" where
  "tp_uring_new cap =
     \<lparr>tp_waker_ids = replicate cap 0, tp_fired = replicate cap False, tp_generations = replicate cap 0,
      tp_free_list = [0..<cap], tp_timespecs = replicate cap (0, 0)\<rparr>"

definition tp_mio_new :: "nat \<Rightarrow> mio_timer_pool" where
  "tp_mio_new cap =
     \<lparr>tp_waker_ids = replicate cap 0, tp_fired = replicate cap False, tp_generations = replicate cap 0,
      tp_free_list = [0..<cap], tp_deadlines = replicate cap None, tp_expiry_heap = []\<rparr>"

definition tp_allocate :: "u32 \<Rightarrow> 'a TimerSlotPool_scheme \<Rightarrow> ((nat \<times> u16) option \<times> 'a TimerSlotPool_scheme) outcome" where
  "tp_allocate waker_id p =
     (case vec_pop (tp_free_list p) of
        None \<Rightarrow> Ret (None, p)
      | Some (slot, fl) \<Rightarrow>
          ensure (slot < length (tp_waker_ids p) \<and> slot < length (tp_fired p) \<and> slot < length (tp_generations p))
            (Ret (Some (slot, tp_generations p ! slot),
                  p\<lparr>tp_free_list := fl, tp_waker_ids := (tp_waker_ids p)[slot := waker_id],
                    tp_fired := (tp_fired p)[slot := False]\<rparr>)))"

text \<open>\<open>release\<close> without and with the mio backend's extra line.\<close>

definition tp_release :: "nat \<Rightarrow> 'a TimerSlotPool_scheme \<Rightarrow> 'a TimerSlotPool_scheme" where
  "tp_release slot p =
     (if slot < length (tp_generations p) then
        p\<lparr>tp_generations := (tp_generations p)[slot := tp_generations p ! slot + 1],
          tp_free_list := vec_push (tp_free_list p) slot\<rparr>
      else p)"

definition tp_mio_release :: "nat \<Rightarrow> mio_timer_pool \<Rightarrow> mio_timer_pool outcome" where
  "tp_mio_release slot p =
     (if slot < length (tp_generations p) then
        ensure (slot < length (tp_deadlines p))
          (Ret (tp_release slot (p\<lparr>tp_deadlines := (tp_deadlines p)[slot := None]\<rparr>)))
      else Ret p)"

definition tp_fire :: "nat \<Rightarrow> u16 \<Rightarrow> 'a TimerSlotPool_scheme \<Rightarrow> (u32 option \<times> 'a TimerSlotPool_scheme) outcome" where
  "tp_fire slot generation p =
     (if length (tp_generations p) \<le> slot \<or> tp_generations p ! slot \<noteq> generation then Ret (None, p)
      else ensure (slot < length (tp_fired p) \<and> slot < length (tp_waker_ids p))
        (Ret (Some (tp_waker_ids p ! slot), p\<lparr>tp_fired := (tp_fired p)[slot := True]\<rparr>)))"

definition tp_capacity :: "'a TimerSlotPool_scheme \<Rightarrow> nat" where
  "tp_capacity p = length (tp_generations p)"

definition tp_is_fired :: "nat \<Rightarrow> 'a TimerSlotPool_scheme \<Rightarrow> bool" where
  "tp_is_fired slot p = (if slot < length (tp_fired p) then tp_fired p ! slot else False)"

definition tp_encode_payload :: "u32 \<Rightarrow> u16 \<Rightarrow> u32" where
  "tp_encode_payload slot generation = (slot AND 0xFFFF) OR push_bit 16 (ucast generation)"

definition tp_decode_payload :: "u32 \<Rightarrow> u32 \<times> u16" where
  "tp_decode_payload payload = (payload AND 0xFFFF, ucast (drop_bit 16 payload))"

definition tp_uring_set_relative :: "nat \<Rightarrow> nat \<Rightarrow> nat \<Rightarrow> uring_timer_pool \<Rightarrow> uring_timer_pool outcome" where
  "tp_uring_set_relative slot secs nanos p =
     ensure (slot < length (tp_timespecs p)) (Ret (p\<lparr>tp_timespecs := (tp_timespecs p)[slot := (secs, nanos)]\<rparr>))"

definition tp_uring_set_absolute :: "nat \<Rightarrow> nat \<Rightarrow> nat \<Rightarrow> uring_timer_pool \<Rightarrow> uring_timer_pool outcome" where
  "tp_uring_set_absolute slot secs nsecs p =
     ensure (slot < length (tp_timespecs p)) (Ret (p\<lparr>tp_timespecs := (tp_timespecs p)[slot := (secs, nsecs)]\<rparr>))"

definition tp_arm :: "nat \<Rightarrow> nat \<Rightarrow> mio_timer_pool \<Rightarrow> mio_timer_pool outcome" where
  "tp_arm slot deadline p =
     ensure (slot < length (tp_deadlines p) \<and> slot < length (tp_generations p))
       (Ret (p\<lparr>tp_deadlines := (tp_deadlines p)[slot := Some deadline],
               tp_expiry_heap := insort (deadline, slot, tp_generations p ! slot) (tp_expiry_heap p)\<rparr>))"

definition tp_mio_set_relative :: "nat \<Rightarrow> nat \<Rightarrow> nat \<Rightarrow> mio_timer_pool \<Rightarrow> mio_timer_pool outcome" where
  "tp_mio_set_relative now slot duration p = tp_arm slot (now + duration) p"

definition tp_mio_set_absolute :: "nat \<Rightarrow> nat \<Rightarrow> nat \<Rightarrow> nat \<Rightarrow> nat \<Rightarrow> mio_timer_pool \<Rightarrow> mio_timer_pool outcome" where
  "tp_mio_set_absolute now now_ns slot secs nsecs p =
     (let deadline_ns = secs * 1000000000 + nsecs;
          deadline = (if now_ns < deadline_ns then now + cast_uint 64 (deadline_ns - now_ns) else now)
      in tp_arm slot deadline p)"

definition heap_entry_live :: "heap_entry \<Rightarrow> mio_timer_pool \<Rightarrow> bool" where
  "heap_entry_live e p = (case e of (deadline, slot, generation) \<Rightarrow>
     slot < length (tp_generations p) \<and> tp_generations p ! slot = generation \<and>
     \<not> tp_fired p ! slot \<and> tp_deadlines p ! slot = Some deadline)"

text \<open>The two loops over the heap's head: stale entries are dropped as they surface.\<close>

fun drop_stale :: "mio_timer_pool \<Rightarrow> heap_entry list \<Rightarrow> heap_entry list" where
  "drop_stale p [] = []"
| "drop_stale p (e # h) = (if heap_entry_live e p then e # h else drop_stale p h)"

definition tp_next_deadline :: "mio_timer_pool \<Rightarrow> nat option \<times> mio_timer_pool" where
  "tp_next_deadline p =
     (let h = drop_stale p (tp_expiry_heap p) in
      (case h of [] \<Rightarrow> None | (deadline, _) # _ \<Rightarrow> Some deadline, p\<lparr>tp_expiry_heap := h\<rparr>))"

definition tp_pop_expired :: "nat \<Rightarrow> mio_timer_pool \<Rightarrow> (nat \<times> u16) option \<times> mio_timer_pool" where
  "tp_pop_expired now p =
     (case drop_stale p (tp_expiry_heap p) of
        [] \<Rightarrow> (None, p\<lparr>tp_expiry_heap := []\<rparr>)
      | (deadline, slot, generation) # h \<Rightarrow>
          if now < deadline then (None, p\<lparr>tp_expiry_heap := (deadline, slot, generation) # h\<rparr>)
          else (Some (slot, generation), p\<lparr>tp_expiry_heap := h\<rparr>))"

lemma drop_stale_length: "length (drop_stale p h) \<le> length h"
  by (induction h) auto

lemma pop_expired_length: "tp_pop_expired now p = (Some x, p') \<Longrightarrow> length (tp_expiry_heap p') < length (tp_expiry_heap p)"
  using drop_stale_length [of p "tp_expiry_heap p"]
  by (auto simp: tp_pop_expired_def split: list.splits if_splits prod.splits)

lemma fire_heap: "tp_fire s g p = Ret (w, p') \<Longrightarrow> tp_expiry_heap p' = tp_expiry_heap (p :: mio_timer_pool)"
  by (auto simp: tp_fire_def split: if_splits)

text \<open>
  \<open>fire_expired_timers\<close> of the mio event loop, up to the connect deadlines: the waker ids it
  passes to \<open>wake_task\<close>, in order.
\<close>

function tp_fire_expired :: "nat \<Rightarrow> mio_timer_pool \<Rightarrow> (u32 list \<times> mio_timer_pool) outcome" where
  "tp_fire_expired now p =
     (case tp_pop_expired now p of
        (None, p') \<Rightarrow> Ret ([], p')
      | (Some (slot, generation), p1) \<Rightarrow>
          (case tp_fire slot generation p1 of
             Panic \<Rightarrow> Panic
           | Ret (w, p2) \<Rightarrow>
               outcome_bind (tp_fire_expired now p2) (\<lambda>(ws, p3). Ret (case w of None \<Rightarrow> ws | Some x \<Rightarrow> x # ws, p3))))"
  by pat_completeness auto
termination
proof (relation "measure (\<lambda>(now, p). length (tp_expiry_heap p))")
  fix now p x y x2 xa ya x2a xb yb
  assume "(x, y) = tp_pop_expired now p" "x = Some x2" "(xa, ya) = x2" "tp_fire xa ya y = Ret x2a" "(xb, yb) = x2a"
  then show "((now, yb), now, p) \<in> measure (\<lambda>(now, p). length (tp_expiry_heap p))"
    using pop_expired_length [of now p x2 y] fire_heap [of xa ya y xb yb] by simp
qed simp

declare tp_fire_expired.simps [simp del]

subsection \<open>Slots and generations\<close>

definition tp_ok :: "'a TimerSlotPool_scheme \<Rightarrow> bool" where
  "tp_ok p \<longleftrightarrow> length (tp_waker_ids p) = tp_capacity p \<and> length (tp_fired p) = tp_capacity p \<and>
     distinct (tp_free_list p) \<and> set (tp_free_list p) \<subseteq> {..<tp_capacity p}"

definition tp_used :: "'a TimerSlotPool_scheme \<Rightarrow> nat \<Rightarrow> bool" where
  "tp_used p i \<longleftrightarrow> i < tp_capacity p \<and> i \<notin> set (tp_free_list p)"

lemma tp_allocate_eq:
  assumes "tp_ok p" "tp_free_list p = fl @ [i]"
  shows "tp_allocate w p = Ret (Some (i, tp_generations p ! i),
      p\<lparr>tp_free_list := fl, tp_waker_ids := (tp_waker_ids p)[i := w], tp_fired := (tp_fired p)[i := False]\<rparr>)"
    and "i < tp_capacity p" "\<not> tp_used p i"
  using assms by (auto simp: tp_allocate_def vec_pop_def tp_ok_def tp_capacity_def tp_used_def)

definition tp_acquire :: "u32 \<Rightarrow> 'a TimerSlotPool_scheme \<Rightarrow> (nat \<times> 'a TimerSlotPool_scheme) option" where
  "tp_acquire w p = (case tp_allocate w p of Ret (Some (i, _), p') \<Rightarrow> Some (i, p') | _ \<Rightarrow> None)"

lemma tp_release_used:
  assumes "tp_ok p" "tp_used p i"
  shows "tp_ok (tp_release i p)" "tp_used (tp_release i p) = (tp_used p)(i := False)" "tp_capacity (tp_release i p) = tp_capacity p"
  using assms by (auto simp: tp_ok_def tp_used_def tp_release_def tp_capacity_def fun_eq_iff)

interpretation timer_pool: slot_pool tp_ok tp_capacity tp_used "\<lambda>_ _. True" tp_acquire tp_release
proof
  fix p :: "'a TimerSlotPool_scheme" and w i p' assume ok: "tp_ok p" and acq: "tp_acquire w p = Some (i, p')"
  obtain fl j where fl: "tp_free_list p = fl @ [j]"
    using acq by (cases "tp_free_list p" rule: rev_cases) (auto simp: tp_acquire_def tp_allocate_def)
  have ij: "j = i" and p': "p' = p\<lparr>tp_free_list := fl, tp_waker_ids := (tp_waker_ids p)[i := w], tp_fired := (tp_fired p)[i := False]\<rparr>"
    using acq tp_allocate_eq(1) [OF ok fl, of w] by (auto simp: tp_acquire_def)
  note fl' = fl [unfolded ij]
  show "i < tp_capacity p \<and> \<not> tp_used p i" using tp_allocate_eq(2,3) [OF ok fl'] by simp
  show "tp_used p' = (tp_used p)(i := True)" "tp_ok p'"
    using ok fl' p' by (auto simp: tp_ok_def tp_used_def tp_capacity_def fun_eq_iff)
  show "tp_capacity p' = tp_capacity p" by (simp add: p' tp_capacity_def)
next
  fix p :: "'a TimerSlotPool_scheme" and w i assume ok: "tp_ok p" and acq: "tp_acquire w p = None" and i: "i < tp_capacity p"
  have "tp_free_list p = []"
    using acq tp_allocate_eq(1) [OF ok] by (cases "tp_free_list p" rule: rev_cases) (auto simp: tp_acquire_def)
  then show "tp_used p i" using i by (simp add: tp_used_def)
qed (simp_all add: tp_release_used, simp add: tp_used_def)

text \<open>What happens to a pool between a completion's submission and its arrival.\<close>

datatype timer_event = TimerAlloc u32 | TimerRelease nat | TimerFire nat u16

fun timer_step :: "timer_event \<Rightarrow> 'a TimerSlotPool_scheme \<Rightarrow> 'a TimerSlotPool_scheme outcome" where
  "timer_step (TimerAlloc w) p = outcome_bind (tp_allocate w p) (\<lambda>(_, p'). Ret p')"
| "timer_step (TimerRelease i) p = Ret (if tp_used p i then tp_release i p else p)"
| "timer_step (TimerFire i g) p = outcome_bind (tp_fire i g p) (\<lambda>(_, p'). Ret p')"

fun timer_run :: "timer_event list \<Rightarrow> 'a TimerSlotPool_scheme \<Rightarrow> 'a TimerSlotPool_scheme outcome" where
  "timer_run [] p = Ret p"
| "timer_run (ev # evs) p = outcome_bind (timer_step ev p) (timer_run evs)"

fun releases :: "nat \<Rightarrow> timer_event list \<Rightarrow> 'a TimerSlotPool_scheme \<Rightarrow> nat" where
  "releases i [] p = 0"
| "releases i (ev # evs) p =
     (if ev = TimerRelease i \<and> tp_used p i then 1 else 0) +
     (case timer_step ev p of Ret p' \<Rightarrow> releases i evs p' | Panic \<Rightarrow> 0)"

lemma timer_step_ok:
  assumes "tp_ok p"
  shows "\<exists>p'. timer_step ev p = Ret p' \<and> tp_ok p' \<and> tp_capacity p' = tp_capacity p \<and>
    (\<forall>i < tp_capacity p. tp_generations p' ! i = tp_generations p ! i + (if ev = TimerRelease i \<and> tp_used p i then 1 else 0))"
proof (cases ev)
  case (TimerAlloc w)
  show ?thesis
  proof (cases "tp_free_list p" rule: rev_cases)
    case Nil
    then show ?thesis using TimerAlloc assms by (simp add: tp_allocate_def)
  next
    case (snoc fl i)
    then show ?thesis
      using TimerAlloc assms tp_allocate_eq(1) [OF assms snoc, of w] by (auto simp: tp_ok_def tp_capacity_def)
  qed
next
  case (TimerRelease i)
  then show ?thesis
    using assms tp_release_used [of p i] by (auto simp: tp_release_def tp_capacity_def tp_used_def nth_list_update)
next
  case (TimerFire i g)
  then show ?thesis using assms by (auto simp: tp_fire_def tp_ok_def tp_capacity_def)
qed

lemma timer_run_generation:
  assumes "tp_ok p" "i < tp_capacity p"
  shows "\<exists>p'. timer_run evs p = Ret p' \<and> tp_ok p' \<and> tp_capacity p' = tp_capacity p \<and>
    tp_generations p' ! i = tp_generations p ! i + of_nat (releases i evs p)"
  using assms
proof (induction evs arbitrary: p)
  case (Cons ev evs)
  obtain p1 where p1: "timer_step ev p = Ret p1" "tp_ok p1" "tp_capacity p1 = tp_capacity p"
      "tp_generations p1 ! i = tp_generations p ! i + (if ev = TimerRelease i \<and> tp_used p i then 1 else 0)"
    using timer_step_ok [OF Cons.prems(1), of ev] Cons.prems(2) by blast
  show ?case using Cons.IH [OF p1(2)] Cons.prems(2) p1 by (auto simp: add.assoc)
qed simp

lemma payload_round_trip:
  assumes "slot < 2 ^ 16"
  shows "tp_decode_payload (tp_encode_payload slot g) = (slot, g)"
proof -
  have m: "(0xFFFF :: u32) = mask 16" by (simp add: mask_eq_exp_minus_1)
  have s: "slot AND mask 16 = slot" using assms by (rule less_mask_eq)
  have "((slot AND mask 16) OR push_bit 16 (ucast g)) AND mask 16 = slot"
    unfolding s using s by (auto intro!: bit_word_eqI simp: bit_simps bit_eq_iff)
  moreover have "ucast (drop_bit 16 ((slot AND mask 16) OR push_bit 16 (ucast g) :: u32)) = g"
    by (rule bit_word_eqI) (auto simp: bit_simps)
  ultimately show ?thesis by (simp add: tp_decode_payload_def tp_encode_payload_def m)
qed

text \<open>
  C12. A stale timer completion wakes nobody. A timer is submitted with the payload of its
  slot and generation. If the slot is released at least once, and fewer than \<open>2 ^ 16\<close> times,
  before the completion arrives (with any allocations, releases and firings of this and other
  slots in between, by whoever holds the slot then), the completion is decoded to the same
  slot and generation, returns no waker and changes nothing.
\<close>

theorem timer_stale_completion_ignored:
  assumes "tp_ok p" "tp_capacity p \<le> 2 ^ 16"
    and "tp_allocate w p = Ret (Some (i, g), p1)" "timer_run evs p1 = Ret p2"
    and "0 < releases i evs p1" "releases i evs p1 < 2 ^ 16"
  shows "\<exists>i' g'. tp_decode_payload (tp_encode_payload (of_nat i) g) = (i', g') \<and> tp_fire (unat i') g' p2 = Ret (None, p2)"
proof -
  obtain fl j where fl: "tp_free_list p = fl @ [j]"
    using assms(3) by (cases "tp_free_list p" rule: rev_cases) (auto simp: tp_allocate_def)
  have "j = i" using assms(3) tp_allocate_eq(1) [OF assms(1) fl, of w] by simp
  note al = tp_allocate_eq [OF assms(1) fl [unfolded this]]
  have acq: "tp_acquire w p = Some (i, p1)" using assms(3) by (simp add: tp_acquire_def)
  have ok1: "tp_ok p1" "tp_capacity p1 = tp_capacity p"
    using timer_pool.acquire_inv [OF assms(1) acq] timer_pool.acquire_cap [OF assms(1) acq] .
  have g: "tp_generations p1 ! i = g" using assms(3) al(1) [of w] by auto
  obtain p' where "timer_run evs p1 = Ret p'" "tp_capacity p' = tp_capacity p1"
      "tp_generations p' ! i = g + of_nat (releases i evs p1)"
    using timer_run_generation [OF ok1(1), of i evs] al(2) ok1(2) g by auto
  then have p2: "tp_capacity p2 = tp_capacity p" "tp_generations p2 ! i = g + of_nat (releases i evs p1)"
    using assms(4) ok1(2) by auto
  have "(of_nat (releases i evs p1) :: u16) \<noteq> 0"
    using assms(5,6) by (subst of_nat_word_eq_0) simp_all
  then have gen: "tp_generations p2 ! i \<noteq> g" by (simp add: p2(2))
  have i16: "i < 2 ^ 16" using al(2) assms(2) by linarith
  then have "(of_nat i :: u32) < 2 ^ 16" "unat (of_nat i :: u32) = i"
    using of_nat_word_less_iff [of i "2 ^ 16", where 'l = 32] unat_of_nat_fits [of i, where 'l = 32] by simp_all
  then show ?thesis
    using payload_round_trip [of "of_nat i" g] gen by (simp add: tp_fire_def)
qed

theorem timer_stale_completion_ignored_witness:
  "\<exists>p1 p2. tp_allocate 5 (tp_uring_new 2) = Ret (Some (1, 0), p1) \<and>
     timer_run [TimerRelease 1, TimerAlloc 6, TimerFire 1 1] p1 = Ret p2 \<and>
     tp_fire (unat (fst (tp_decode_payload (tp_encode_payload 1 0)))) 0 p2 = Ret (None, p2)"
proof -
  let ?p = "tp_uring_new 2"
  let ?evs = "[TimerRelease 1, TimerAlloc 6, TimerFire 1 1]"
  have ok: "tp_ok ?p" by (auto simp: tp_ok_def tp_uring_new_def tp_capacity_def)
  obtain p1 p2 where p: "tp_allocate 5 ?p = Ret (Some (1, 0), p1)" "timer_run ?evs p1 = Ret p2" "releases 1 ?evs p1 = 1"
    by (simp add: tp_uring_new_def tp_allocate_def vec_pop_def tp_used_def tp_capacity_def tp_release_def vec_push_def tp_fire_def upt_rec numeral_2_eq_2)
  have d: "tp_decode_payload (tp_encode_payload (of_nat 1) 0) = (1, 0)" using payload_round_trip [of 1 0] by simp
  have c: "tp_capacity ?p \<le> 2 ^ 16" by (simp add: tp_uring_new_def tp_capacity_def)
  have r: "0 < releases 1 ?evs p1" "releases 1 ?evs p1 < 2 ^ 16" unfolding p(3) by simp_all
  have "tp_fire (unat (1 :: u32)) 0 p2 = Ret (None, p2)"
    using timer_stale_completion_ignored [OF ok c p(1,2) r] unfolding d by blast
  then show ?thesis using p(1,2) d by (intro exI [of _ p1] exI [of _ p2]) simp
qed

subsection \<open>Expiry on the mio backend\<close>

definition mio_ok :: "mio_timer_pool \<Rightarrow> bool" where
  "mio_ok p \<longleftrightarrow> length (tp_waker_ids p) = tp_capacity p \<and> length (tp_fired p) = tp_capacity p \<and>
     length (tp_deadlines p) = tp_capacity p \<and> sorted (tp_expiry_heap p) \<and>
     (\<forall>i d. i < tp_capacity p \<longrightarrow> tp_deadlines p ! i = Some d \<longrightarrow> \<not> tp_fired p ! i \<longrightarrow>
        (d, i, tp_generations p ! i) \<in> set (tp_expiry_heap p))"

text \<open>The timers due at \<open>now\<close>: armed, not yet fired, deadline reached.\<close>

definition due :: "nat \<Rightarrow> mio_timer_pool \<Rightarrow> nat set" where
  "due now p = {i. i < tp_capacity p \<and> \<not> tp_fired p ! i \<and> (\<exists>d \<le> now. tp_deadlines p ! i = Some d)}"

lemma drop_stale_live: "e \<in> set h \<Longrightarrow> heap_entry_live e p \<Longrightarrow> e \<in> set (drop_stale p h)"
  by (induction h) auto

lemma drop_stale_head: "drop_stale p h = e # h' \<Longrightarrow> heap_entry_live e p"
  by (induction h) (auto split: if_splits)

lemma drop_stale_sorted: "sorted h \<Longrightarrow> sorted (drop_stale p h)"
  by (induction h) auto

lemma live_timer: "i < tp_capacity p \<Longrightarrow> tp_deadlines p ! i = Some d \<Longrightarrow> \<not> tp_fired p ! i \<Longrightarrow> heap_entry_live (d, i, tp_generations p ! i) p"
  by (simp add: heap_entry_live_def tp_capacity_def)

lemma due_in_heap:
  assumes "mio_ok p" "i \<in> due now p"
  shows "\<exists>d \<le> now. (d, i, tp_generations p ! i) \<in> set (drop_stale p (tp_expiry_heap p))"
  using assms live_timer [of i p] drop_stale_live [of _ "tp_expiry_heap p" p] unfolding mio_ok_def due_def by blast

lemma mio_ok_heap:
  assumes "mio_ok p" "sorted h" "\<And>i d. i < tp_capacity p \<Longrightarrow> tp_deadlines p ! i = Some d \<Longrightarrow> \<not> tp_fired p ! i \<Longrightarrow> (d, i, tp_generations p ! i) \<in> set h"
  shows "mio_ok (p\<lparr>tp_expiry_heap := h\<rparr>)"
  using assms by (simp add: mio_ok_def tp_capacity_def)

lemma pop_expired_none:
  assumes ok: "mio_ok p" and pop: "tp_pop_expired now p = (None, p')"
  shows "due now p = {}" "mio_ok p'" "p' = p\<lparr>tp_expiry_heap := tp_expiry_heap p'\<rparr>"
proof -
  let ?h = "drop_stale p (tp_expiry_heap p)"
  have h: "p' = p\<lparr>tp_expiry_heap := ?h\<rparr>"
    using pop by (auto simp: tp_pop_expired_def split: list.splits prod.splits if_splits)
  have srt: "sorted ?h" using ok by (intro drop_stale_sorted) (simp add: mio_ok_def)
  show "due now p = {}"
  proof (rule ccontr)
    assume "due now p \<noteq> {}"
    then obtain i d where d: "d \<le> now" "(d, i, tp_generations p ! i) \<in> set ?h"
      using due_in_heap [OF ok] by blast
    then obtain d0 s0 g0 h0 where c: "?h = (d0, s0, g0) # h0" by (cases ?h) auto
    then have "d0 \<le> d" using d(2) srt by (auto simp: less_eq_prod_def)
    then show False using pop d(1) c by (auto simp: tp_pop_expired_def)
  qed
  show "mio_ok p'"
    unfolding h using ok live_timer [of _ p] drop_stale_live [of _ "tp_expiry_heap p" p] srt
    by (intro mio_ok_heap) (auto simp: mio_ok_def)
  show "p' = p\<lparr>tp_expiry_heap := tp_expiry_heap p'\<rparr>" by (simp add: h)
qed

lemma pop_expired_some:
  assumes ok: "mio_ok p" and pop: "tp_pop_expired now p = (Some (i, g), p1)"
  shows "i \<in> due now p" "\<exists>p2. tp_fire i g p1 = Ret (Some (tp_waker_ids p ! i), p2) \<and> mio_ok p2 \<and>
      p2 = p\<lparr>tp_fired := (tp_fired p)[i := True], tp_expiry_heap := tp_expiry_heap p2\<rparr>"
proof -
  obtain d h where h: "drop_stale p (tp_expiry_heap p) = (d, i, g) # h" "d \<le> now" "p1 = p\<lparr>tp_expiry_heap := h\<rparr>"
    using pop by (auto simp: tp_pop_expired_def split: list.splits prod.splits if_splits)
  have live: "heap_entry_live (d, i, g) p" using h(1) by (rule drop_stale_head)
  then have i: "i < tp_capacity p" "tp_generations p ! i = g" "\<not> tp_fired p ! i" "tp_deadlines p ! i = Some d"
    by (auto simp: heap_entry_live_def tp_capacity_def)
  then show "i \<in> due now p" using h(2) by (auto simp: due_def)
  let ?p2 = "p\<lparr>tp_fired := (tp_fired p)[i := True], tp_expiry_heap := h\<rparr>"
  have len: "i < length (tp_fired p)" "i < length (tp_waker_ids p)" "i < length (tp_generations p)"
    using ok i(1) by (simp_all add: mio_ok_def tp_capacity_def)
  have "tp_fire i g p1 = Ret (Some (tp_waker_ids p ! i), ?p2)"
    using h(3) i len by (simp add: tp_fire_def)
  moreover have "mio_ok ?p2"
  proof -
    have "(d', j, tp_generations p ! j) \<in> set h" if "j < tp_capacity p" "tp_deadlines p ! j = Some d'" "\<not> tp_fired p ! j" "j \<noteq> i" for j d'
      using that ok live_timer [of j p d'] drop_stale_live [of "(d', j, tp_generations p ! j)" "tp_expiry_heap p" p] h(1)
      by (auto simp: mio_ok_def)
    moreover have "sorted h" using drop_stale_sorted [of "tp_expiry_heap p" p] ok h(1) by (simp add: mio_ok_def)
    ultimately show ?thesis using ok len(1) by (auto simp: mio_ok_def tp_capacity_def nth_list_update)
  qed
  ultimately show "\<exists>p2. tp_fire i g p1 = Ret (Some (tp_waker_ids p ! i), p2) \<and> mio_ok p2 \<and>
      p2 = p\<lparr>tp_fired := (tp_fired p)[i := True], tp_expiry_heap := tp_expiry_heap p2\<rparr>"
    by (intro exI [of _ ?p2]) simp
qed

lemma fire_expired_sound:
  "mio_ok p \<Longrightarrow> \<exists>ws p'. tp_fire_expired now p = Ret (ws, p') \<and> mio_ok p' \<and> due now p' = {} \<and>
     tp_capacity p' = tp_capacity p \<and> tp_generations p' = tp_generations p \<and> tp_deadlines p' = tp_deadlines p \<and>
     (\<forall>i < tp_capacity p. tp_fired p' ! i = (tp_fired p ! i \<or> i \<in> due now p)) \<and>
     (\<exists>is. distinct is \<and> set is = due now p \<and> ws = map (\<lambda>i. tp_waker_ids p ! i) is)"
proof (induction now p rule: tp_fire_expired.induct)
  case (1 now p)
  obtain r p1 where pop: "tp_pop_expired now p = (r, p1)" by (cases "tp_pop_expired now p")
  show ?case
  proof (cases r)
    case None
    note n = pop_expired_none [OF 1(2) pop [unfolded None]]
    have "due now p1 = due now p" by (subst n(3)) (simp add: due_def tp_capacity_def)
    moreover have "tp_capacity p1 = tp_capacity p" "tp_generations p1 = tp_generations p" "tp_deadlines p1 = tp_deadlines p" "tp_fired p1 = tp_fired p"
      by (subst n(3), simp add: tp_capacity_def)+
    ultimately show ?thesis
      using n(1,2) pop None by (subst tp_fire_expired.simps) auto
  next
    case (Some x)
    obtain i g where x: "x = (i, g)" by (cases x)
    note pop' = pop [unfolded Some x]
    have i: "i \<in> due now p" using pop_expired_some(1) [OF 1(2) pop'] .
    obtain p2 where p2: "tp_fire i g p1 = Ret (Some (tp_waker_ids p ! i), p2)" "mio_ok p2"
        "p2 = p\<lparr>tp_fired := (tp_fired p)[i := True], tp_expiry_heap := tp_expiry_heap p2\<rparr>"
      using pop_expired_some(2) [OF 1(2) pop'] by blast
    have len: "length (tp_fired p) = tp_capacity p" using 1(2) by (simp add: mio_ok_def)
    have e: "tp_capacity p2 = tp_capacity p" "tp_generations p2 = tp_generations p" "tp_deadlines p2 = tp_deadlines p"
      "tp_fired p2 = (tp_fired p)[i := True]" "tp_waker_ids p2 = tp_waker_ids p"
      by (subst p2(3), simp add: tp_capacity_def)+
    have due2: "due now p2 = due now p - {i}"
      using i len by (auto simp: due_def e nth_list_update)
    obtain ws p' "is" where IH: "tp_fire_expired now p2 = Ret (ws, p')" "mio_ok p'" "due now p' = {}"
        "tp_capacity p' = tp_capacity p2" "tp_generations p' = tp_generations p2" "tp_deadlines p' = tp_deadlines p2"
        "\<forall>j < tp_capacity p2. tp_fired p' ! j = (tp_fired p2 ! j \<or> j \<in> due now p2)"
        "distinct is" "set is = due now p2" "ws = map (\<lambda>i. tp_waker_ids p2 ! i) is"
      using 1(1) [OF pop [symmetric] Some x [symmetric] p2(1) refl p2(2)] by blast
    have "tp_fire_expired now p = Ret (tp_waker_ids p ! i # ws, p')"
      using pop' p2(1) IH(1) by (subst tp_fire_expired.simps) simp
    moreover have "\<forall>j < tp_capacity p. tp_fired p' ! j = (tp_fired p ! j \<or> j \<in> due now p)"
      using IH(7) i len due2 by (auto simp: e nth_list_update due_def)
    moreover have "distinct (i # is) \<and> set (i # is) = due now p \<and> tp_waker_ids p ! i # ws = map (\<lambda>i. tp_waker_ids p ! i) (i # is)"
      using IH(8-10) due2 i e(5) by auto
    ultimately show ?thesis
      using IH(2-6) e by (intro exI [of _ "tp_waker_ids p ! i # ws"] exI [of _ p'] conjI exI [of _ "i # is"]) simp_all
  qed
qed

text \<open>Sessions of the mio pool: a sleep allocates and arms, its drop releases, the loop expires.\<close>

datatype mio_event = MioSleep u32 nat nat | MioDrop nat | MioExpire nat

fun mio_step :: "mio_event \<Rightarrow> mio_timer_pool \<Rightarrow> mio_timer_pool outcome" where
  "mio_step (MioSleep w now duration) p =
     outcome_bind (tp_allocate w p) (\<lambda>(r, p1).
       case r of None \<Rightarrow> Ret p1 | Some (slot, _) \<Rightarrow> tp_mio_set_relative now slot duration p1)"
| "mio_step (MioDrop slot) p = (if tp_used p slot then tp_mio_release slot p else Ret p)"
| "mio_step (MioExpire now) p = outcome_bind (tp_fire_expired now p) (\<lambda>(_, p'). Ret p')"

fun mio_run :: "mio_event list \<Rightarrow> mio_timer_pool \<Rightarrow> mio_timer_pool outcome" where
  "mio_run [] p = Ret p"
| "mio_run (ev # evs) p = outcome_bind (mio_step ev p) (mio_run evs)"

definition mio_inv :: "mio_timer_pool \<Rightarrow> bool" where
  "mio_inv p \<longleftrightarrow> tp_ok p \<and> mio_ok p \<and> (\<forall>i \<in> set (tp_free_list p). tp_deadlines p ! i = None)"

lemma mio_sleep_inv:
  assumes "mio_inv p"
  shows "\<exists>p'. mio_step (MioSleep w now duration) p = Ret p' \<and> mio_inv p'"
proof (cases "tp_free_list p" rule: rev_cases)
  case Nil
  then show ?thesis using assms by (simp add: tp_allocate_def)
next
  case (snoc fl i)
  have ok: "tp_ok p" using assms by (simp add: mio_inv_def)
  let ?p1 = "p\<lparr>tp_free_list := fl, tp_waker_ids := (tp_waker_ids p)[i := w], tp_fired := (tp_fired p)[i := False]\<rparr>"
  let ?e = "(now + duration, i, tp_generations p ! i)"
  let ?p2 = "?p1\<lparr>tp_deadlines := (tp_deadlines p)[i := Some (now + duration)], tp_expiry_heap := insort ?e (tp_expiry_heap p)\<rparr>"
  note al = tp_allocate_eq [OF ok snoc]
  have len: "length (tp_deadlines p) = tp_capacity p" "length (tp_fired p) = tp_capacity p" using assms by (auto simp: mio_inv_def mio_ok_def)
  have "mio_step (MioSleep w now duration) p = Ret ?p2"
    using al(1) [of w] al(2) len by (simp add: tp_mio_set_relative_def tp_arm_def tp_capacity_def)
  moreover have "tp_ok ?p2" using ok snoc by (auto simp: tp_ok_def tp_capacity_def)
  moreover have "mio_ok ?p2"
    using assms al(2) len by (auto simp: mio_inv_def mio_ok_def tp_capacity_def nth_list_update sorted_insort set_insort_key)
  moreover have "\<forall>j \<in> set fl. tp_deadlines ?p2 ! j = None"
    using assms snoc ok len al(2) by (auto simp: mio_inv_def tp_ok_def nth_list_update)
  ultimately show ?thesis by (simp add: mio_inv_def)
qed

lemma mio_drop_inv:
  assumes "mio_inv p"
  shows "\<exists>p'. mio_step (MioDrop i) p = Ret p' \<and> mio_inv p'"
proof (cases "tp_used p i")
  case True
  let ?p1 = "tp_release i (p\<lparr>tp_deadlines := (tp_deadlines p)[i := None]\<rparr>)"
  have ok: "tp_ok p" "mio_ok p" using assms by (auto simp: mio_inv_def)
  have i: "i < tp_capacity p" "i < length (tp_generations p)" "i < length (tp_deadlines p)"
    using True ok by (auto simp: tp_used_def mio_ok_def tp_capacity_def)
  have "mio_step (MioDrop i) p = Ret ?p1" using True i by (simp add: tp_mio_release_def)
  moreover have "tp_ok ?p1" using ok(1) True by (auto simp: tp_ok_def tp_capacity_def tp_release_def tp_used_def)
  moreover have "mio_ok ?p1" using ok(2) i by (auto simp: mio_ok_def tp_capacity_def tp_release_def nth_list_update)
  moreover have "\<forall>j \<in> set (tp_free_list ?p1). tp_deadlines ?p1 ! j = None"
    using assms i by (auto simp: mio_inv_def tp_release_def nth_list_update)
  ultimately show ?thesis by (simp add: mio_inv_def)
qed (use assms in simp)

lemma fire_preserves_slots: "tp_fire i g p = Ret (w, p') \<Longrightarrow> tp_free_list p' = tp_free_list p \<and> tp_waker_ids p' = tp_waker_ids p \<and> length (tp_fired p') = length (tp_fired p)"
  by (auto simp: tp_fire_def split: if_splits)

lemma pop_preserves_slots: "tp_pop_expired now p = (r, p') \<Longrightarrow> tp_free_list p' = tp_free_list p \<and> tp_waker_ids p' = tp_waker_ids p \<and> length (tp_fired p') = length (tp_fired p)"
  by (auto simp: tp_pop_expired_def split: list.splits prod.splits if_splits)

lemma fire_expired_slots:
  "tp_fire_expired now p = Ret (ws, p') \<Longrightarrow> tp_free_list p' = tp_free_list p \<and> tp_waker_ids p' = tp_waker_ids p \<and> length (tp_fired p') = length (tp_fired p)"
proof (induction now p arbitrary: ws p' rule: tp_fire_expired.induct)
  case (1 now p)
  obtain r p1 where pop: "tp_pop_expired now p = (r, p1)" by (cases "tp_pop_expired now p")
  show ?case
  proof (cases r)
    case None
    then show ?thesis using 1(2) pop pop_preserves_slots [OF pop] by (subst (asm) tp_fire_expired.simps) simp
  next
    case (Some x)
    obtain i g where x: "x = (i, g)" by (cases x)
    obtain w p2 where f: "tp_fire i g p1 = Ret (w, p2)"
      using 1(2) pop Some x by (subst (asm) tp_fire_expired.simps) (auto split: outcome.splits)
    obtain ws2 p3 where r: "tp_fire_expired now p2 = Ret (ws2, p3)" "p' = p3"
      using 1(2) pop Some x f by (subst (asm) tp_fire_expired.simps) (cases "tp_fire_expired now p2"; auto split: option.splits)
    show ?thesis
      using 1(1) [OF pop [symmetric] Some x [symmetric] f refl r(1)] fire_preserves_slots [OF f] pop_preserves_slots [OF pop] r(2) by simp
  qed
qed

lemma mio_expire_inv:
  assumes "mio_inv p"
  shows "\<exists>p'. mio_step (MioExpire now) p = Ret p' \<and> mio_inv p'"
proof -
  obtain ws p' where f: "tp_fire_expired now p = Ret (ws, p')" "mio_ok p'" "tp_capacity p' = tp_capacity p" "tp_deadlines p' = tp_deadlines p"
    using fire_expired_sound [of p now] assms by (auto simp: mio_inv_def)
  then show ?thesis
    using fire_expired_slots [OF f(1)] assms by (auto simp: mio_inv_def tp_ok_def)
qed

lemma mio_run_inv: "mio_inv p \<Longrightarrow> \<exists>p'. mio_run evs p = Ret p' \<and> mio_inv p'"
proof (induction evs arbitrary: p)
  case (Cons ev evs)
  have "\<exists>p1. mio_step ev p = Ret p1 \<and> mio_inv p1"
    using mio_sleep_inv [OF Cons.prems] mio_drop_inv [OF Cons.prems] mio_expire_inv [OF Cons.prems] by (cases ev) blast+
  then show ?case using Cons.IH by auto
qed simp

lemma mio_new_inv: "mio_inv (tp_mio_new n)"
  by (auto simp: mio_inv_def tp_ok_def mio_ok_def tp_mio_new_def tp_capacity_def)

text \<open>
  C13. On the mio backend every due timer fires exactly once and no other does. After any
  history of sleeps, drops and expiry passes, a pass at time \<open>now\<close> terminates, marks exactly
  the armed timers whose deadline has been reached, returns each one's waker exactly once,
  leaves none of them due, and leaves every other timer and all deadlines untouched: stale
  heap entries of released or re-armed slots are skipped, and lazy deletion loses none.
\<close>

theorem mio_due_timers_fire_once:
  assumes "mio_run evs (tp_mio_new n) = Ret p"
  shows "\<exists>ws p' is. tp_fire_expired now p = Ret (ws, p') \<and> due now p' = {} \<and>
     distinct is \<and> set is = due now p \<and> ws = map (\<lambda>i. tp_waker_ids p ! i) is \<and>
     (\<forall>i < tp_capacity p. tp_is_fired i p' = (tp_is_fired i p \<or> i \<in> due now p)) \<and>
     tp_deadlines p' = tp_deadlines p \<and> tp_generations p' = tp_generations p"
proof -
  have inv: "mio_inv p" using mio_run_inv [OF mio_new_inv, of evs n] assms by auto
  then have len: "length (tp_fired p) = tp_capacity p" by (simp add: mio_inv_def tp_ok_def)
  obtain ws p' "is" where f: "tp_fire_expired now p = Ret (ws, p')" "due now p' = {}" "distinct is" "set is = due now p"
      "ws = map (\<lambda>i. tp_waker_ids p ! i) is" "\<forall>i < tp_capacity p. tp_fired p' ! i = (tp_fired p ! i \<or> i \<in> due now p)"
      "tp_deadlines p' = tp_deadlines p" "tp_generations p' = tp_generations p"
    using fire_expired_sound [of p now] inv unfolding mio_inv_def by blast
  have "\<forall>i < tp_capacity p. tp_is_fired i p' = (tp_is_fired i p \<or> i \<in> due now p)"
    using f(6) len fire_expired_slots [OF f(1)] by (simp add: tp_is_fired_def)
  then show ?thesis using f(1-5,7,8) by blast
qed

theorem mio_due_timers_fire_once_witness:
  "\<exists>p ws p' is. mio_run [MioSleep 7 0 10, MioSleep 8 0 50, MioDrop 1, MioSleep 9 5 20] (tp_mio_new 2) = Ret p \<and>
     tp_fire_expired 30 p = Ret (ws, p') \<and> distinct is \<and> set is = due 30 p \<and> ws = map (\<lambda>i. tp_waker_ids p ! i) is"
proof -
  let ?evs = "[MioSleep 7 0 10, MioSleep 8 0 50, MioDrop 1, MioSleep 9 5 20]"
  obtain p where p: "mio_run ?evs (tp_mio_new 2) = Ret p" using mio_run_inv [OF mio_new_inv] by blast
  show ?thesis using p mio_due_timers_fire_once [OF p, of 30] by blast
qed

end
