(* ===== verification/Executor.thy ===== *)
theory Executor
  imports Task_Slab Timer_Slots Send_Capacity
begin

section \<open>The executor and its poll loop (\<open>runtime/mod.rs\<close>, \<open>runtime/waker.rs\<close>, \<open>backend/uring/event_loop.rs\<close>)\<close>

text \<open>
  One executor per worker thread. Task ids are \<open>u32\<close>: a connection index, or a standalone
  index with \<open>STANDALONE_BIT\<close>. The thread-local queue that standard wakers push to is a field
  of the executor, for each executor has its own thread. Hash maps are maps. What a future
  does during its poll is an argument of the loop: the scheduling effects it performs, in
  order, and the result of the poll. The timer pool, the datagram queues and the request-id
  counters are not touched by the operations here and are left out of the record. All
  per-connection vectors get their length in \<open>new\<close> and keep it, so one length check guards
  the accesses to all of them.
\<close>

datatype IoResult = IoSend io_result | IoConnect "io_error + unit"

record RecvSink =
  sink_ptr :: nat
  sink_cap :: nat
  sink_pos :: nat

record SpawnResult =
  sp_pid :: u32
  sp_pidfd :: int

record 'f Executor =
  ex_task_slab :: "'f TaskSlab"
  ex_standalone_slab :: "'f StandaloneTaskSlab"
  ex_ready_queue :: "u32 list"
  ex_currently_polling :: "u32 option"
  ex_woken_while_polling :: bool
  ex_waker_queue :: "u32 list"
  ex_recv_waiters :: "bool list"
  ex_recv_errors :: "(u32 \<times> io_error) option list"
  ex_send_waiters :: "bool list"
  ex_send_capacity :: SendCapacityQueue
  ex_connect_waiters :: "bool list"
  ex_io_results :: "IoResult option list"
  ex_owner_task :: "u32 option list"
  ex_recv_sinks :: "RecvSink option list"
  ex_udp_recv_waiters :: "u32 option list"
  ex_udp_send_ready_waiters :: "u32 option list"
  ex_disk_io_waiters :: "u32 \<Rightarrow> u32 option"
  ex_disk_io_results :: "u32 \<Rightarrow> int option"
  ex_disk_io_graveyard :: "u32 \<Rightarrow> bytes option"
  ex_pending_resolves :: "nat \<Rightarrow> (u32 \<times> (io_error + nat) option) option"
  ex_pending_spawns :: "nat \<Rightarrow> (u32 \<times> (io_error + SpawnResult) option) option"
  ex_pidfd_waiters :: "u32 \<Rightarrow> u32 option"
  ex_pidfd_results :: "u32 \<Rightarrow> int option"
  ex_pending_blocking :: "nat \<Rightarrow> (u32 \<times> nat option) option"
  ex_poll_dedup_conn :: "bool list"
  ex_poll_dedup_standalone :: "bool list"

definition ex_new :: "nat \<Rightarrow> nat \<Rightarrow> nat \<Rightarrow> 'f Executor" where
  "ex_new max_connections standalone_capacity udp_count =
     \<lparr>ex_task_slab = task_slab_new max_connections, ex_standalone_slab = st_new standalone_capacity,
      ex_ready_queue = [], ex_currently_polling = None, ex_woken_while_polling = False, ex_waker_queue = [],
      ex_recv_waiters = replicate max_connections False, ex_recv_errors = replicate max_connections None,
      ex_send_waiters = replicate max_connections False, ex_send_capacity = scq_new,
      ex_connect_waiters = replicate max_connections False, ex_io_results = replicate max_connections None,
      ex_owner_task = replicate max_connections None, ex_recv_sinks = replicate max_connections None,
      ex_udp_recv_waiters = replicate udp_count None,
      ex_udp_send_ready_waiters = replicate udp_count None, ex_disk_io_waiters = Map.empty,
      ex_disk_io_results = Map.empty, ex_disk_io_graveyard = Map.empty, ex_pending_resolves = Map.empty,
      ex_pending_spawns = Map.empty, ex_pidfd_waiters = Map.empty, ex_pidfd_results = Map.empty,
      ex_pending_blocking = Map.empty, ex_poll_dedup_conn = replicate max_connections False,
      ex_poll_dedup_standalone = replicate standalone_capacity False\<rparr>"

definition is_standalone :: "u32 \<Rightarrow> bool" where
  "is_standalone tid \<longleftrightarrow> tid AND STANDALONE_BIT \<noteq> 0"

definition standalone_idx :: "u32 \<Rightarrow> nat" where
  "standalone_idx tid = unat (tid AND NOT STANDALONE_BIT)"

text \<open>Waking: \<open>wake_task\<close> for the runtime itself, the waker vtable for futures.\<close>

definition ex_wake_task :: "u32 \<Rightarrow> 'f Executor \<Rightarrow> bool \<times> 'f Executor" where
  "ex_wake_task task_id ex =
     (if ex_currently_polling ex = Some task_id then (True, ex\<lparr>ex_woken_while_polling := True\<rparr>)
      else if is_standalone task_id then
        (case st_wake (standalone_idx task_id) (ex_standalone_slab ex) of
           (True, slab) \<Rightarrow> (True, ex\<lparr>ex_standalone_slab := slab, ex_ready_queue := ex_ready_queue ex @ [task_id]\<rparr>)
         | (False, slab) \<Rightarrow> (False, ex\<lparr>ex_standalone_slab := slab\<rparr>))
      else
        (case task_wake (unat task_id) (ex_task_slab ex) of
           (True, slab) \<Rightarrow> (True, ex\<lparr>ex_task_slab := slab, ex_ready_queue := ex_ready_queue ex @ [task_id]\<rparr>)
         | (False, slab) \<Rightarrow> (False, ex\<lparr>ex_task_slab := slab\<rparr>)))"

abbreviation ex_wake :: "u32 \<Rightarrow> 'f Executor \<Rightarrow> 'f Executor" where
  "ex_wake tid ex \<equiv> snd (ex_wake_task tid ex)"

definition ex_waker_wake :: "u32 \<Rightarrow> 'f Executor \<Rightarrow> 'f Executor" where
  "ex_waker_wake tid ex = ex\<lparr>ex_waker_queue := ex_waker_queue ex @ [tid]\<rparr>"

definition ex_collect_wakeups :: "'f Executor \<Rightarrow> 'f Executor" where
  "ex_collect_wakeups ex = fold ex_wake (ex_waker_queue ex) (ex\<lparr>ex_waker_queue := []\<rparr>)"

definition ex_remove_connection :: "u32 \<Rightarrow> 'f Executor \<Rightarrow> 'f Executor" where
  "ex_remove_connection conn_index ex =
     (let idx = unat conn_index;
          ex0 = (if idx < length (ex_recv_sinks ex) then ex\<lparr>ex_recv_sinks := (ex_recv_sinks ex)[idx := None]\<rparr> else ex);
          ex1 = ex0\<lparr>ex_task_slab := task_remove idx (ex_task_slab ex0)\<rparr>;
          (wakes, scq) = scq_remove_connection conn_index (ex_send_capacity ex1);
          ex2 = fold ex_wake wakes (ex1\<lparr>ex_send_capacity := scq\<rparr>)
      in if idx < length (ex_recv_waiters ex2) then
           let any_waiter = ex_recv_waiters ex2 ! idx \<or> ex_send_waiters ex2 ! idx \<or> ex_connect_waiters ex2 ! idx;
               ex3 = (case ex_owner_task ex2 ! idx of
                        Some task_id \<Rightarrow> if any_waiter \<and> (is_standalone task_id \<or> task_id \<noteq> conn_index) then ex_wake task_id ex2 else ex2
                      | None \<Rightarrow> ex2)
           in ex3\<lparr>ex_recv_waiters := (ex_recv_waiters ex3)[idx := False],
                  ex_send_waiters := (ex_send_waiters ex3)[idx := False],
                  ex_connect_waiters := (ex_connect_waiters ex3)[idx := False],
                  ex_io_results := (ex_io_results ex3)[idx := None],
                  ex_owner_task := (ex_owner_task ex3)[idx := None]\<rparr>
         else ex2)"

definition ex_owner :: "u32 \<Rightarrow> 'f Executor \<Rightarrow> u32" where
  "ex_owner conn_index ex = (case ex_owner_task ex ! unat conn_index of Some t \<Rightarrow> t | None \<Rightarrow> conn_index)"

definition ex_wake_recv :: "u32 \<Rightarrow> 'f Executor \<Rightarrow> 'f Executor" where
  "ex_wake_recv conn_index ex =
     (let idx = unat conn_index in
      if idx < length (ex_recv_waiters ex) \<and> ex_recv_waiters ex ! idx then
        ex_wake (ex_owner conn_index ex) (ex\<lparr>ex_recv_waiters := (ex_recv_waiters ex)[idx := False]\<rparr>)
      else ex)"

definition ex_fail_recv :: "u32 \<Rightarrow> u32 \<Rightarrow> io_error \<Rightarrow> 'f Executor \<Rightarrow> 'f Executor" where
  "ex_fail_recv conn_index generation err ex =
     (let idx = unat conn_index in
      ex_wake_recv conn_index
        (if idx < length (ex_recv_errors ex)
         then ex\<lparr>ex_recv_errors := (ex_recv_errors ex)[idx := Some (generation, err)]\<rparr> else ex))"

definition ex_take_recv_error :: "u32 \<Rightarrow> u32 \<Rightarrow> 'f Executor \<Rightarrow> io_error option \<times> 'f Executor" where
  "ex_take_recv_error conn_index generation ex =
     (let idx = unat conn_index in
      if idx < length (ex_recv_errors ex) then
        (case ex_recv_errors ex ! idx of
           Some (stored, err) \<Rightarrow>
             if stored = generation then (Some err, ex\<lparr>ex_recv_errors := (ex_recv_errors ex)[idx := None]\<rparr>) else (None, ex)
         | None \<Rightarrow> (None, ex))
      else (None, ex))"

definition ex_wake_send :: "u32 \<Rightarrow> io_result \<Rightarrow> 'f Executor \<Rightarrow> 'f Executor" where
  "ex_wake_send conn_index result ex =
     (let idx = unat conn_index in
      if idx < length (ex_send_waiters ex) \<and> ex_send_waiters ex ! idx then
        ex_wake (ex_owner conn_index ex)
          (ex\<lparr>ex_send_waiters := (ex_send_waiters ex)[idx := False],
              ex_io_results := (ex_io_results ex)[idx := Some (IoSend result)]\<rparr>)
      else ex)"

definition ex_wake_connect :: "u32 \<Rightarrow> io_error + unit \<Rightarrow> 'f Executor \<Rightarrow> 'f Executor" where
  "ex_wake_connect conn_index result ex =
     (let idx = unat conn_index in
      if idx < length (ex_connect_waiters ex) \<and> ex_connect_waiters ex ! idx then
        ex_wake (ex_owner conn_index ex)
          (ex\<lparr>ex_connect_waiters := (ex_connect_waiters ex)[idx := False],
              ex_io_results := (ex_io_results ex)[idx := Some (IoConnect result)]\<rparr>)
      else ex)"

definition ex_wake_udp_recv :: "nat \<Rightarrow> 'f Executor \<Rightarrow> 'f Executor" where
  "ex_wake_udp_recv idx ex =
     (if idx < length (ex_udp_recv_waiters ex) then
        (case ex_udp_recv_waiters ex ! idx of
           Some task_id \<Rightarrow> ex_wake task_id (ex\<lparr>ex_udp_recv_waiters := (ex_udp_recv_waiters ex)[idx := None]\<rparr>)
         | None \<Rightarrow> ex)
      else ex)"

definition ex_wake_udp_send_ready :: "nat \<Rightarrow> 'f Executor \<Rightarrow> 'f Executor" where
  "ex_wake_udp_send_ready idx ex =
     (if idx < length (ex_udp_send_ready_waiters ex) then
        (case ex_udp_send_ready_waiters ex ! idx of
           Some task_id \<Rightarrow> ex_wake task_id (ex\<lparr>ex_udp_send_ready_waiters := (ex_udp_send_ready_waiters ex)[idx := None]\<rparr>)
         | None \<Rightarrow> ex)
      else ex)"

definition ex_wake_disk_io :: "u32 \<Rightarrow> int \<Rightarrow> 'f Executor \<Rightarrow> 'f Executor" where
  "ex_wake_disk_io sq result ex =
     (case ex_disk_io_graveyard ex sq of
        Some _ \<Rightarrow> ex\<lparr>ex_disk_io_graveyard := (ex_disk_io_graveyard ex)(sq := None)\<rparr>
      | None \<Rightarrow>
          let ex1 = ex\<lparr>ex_disk_io_results := (ex_disk_io_results ex)(sq \<mapsto> result)\<rparr> in
          case ex_disk_io_waiters ex1 sq of
            Some task_id \<Rightarrow> ex_wake task_id (ex1\<lparr>ex_disk_io_waiters := (ex_disk_io_waiters ex1)(sq := None)\<rparr>)
          | None \<Rightarrow> ex1)"

definition ex_wake_pidfd :: "u32 \<Rightarrow> int \<Rightarrow> 'f Executor \<Rightarrow> 'f Executor" where
  "ex_wake_pidfd sq result ex =
     (let ex1 = ex\<lparr>ex_pidfd_results := (ex_pidfd_results ex)(sq \<mapsto> result)\<rparr> in
      case ex_pidfd_waiters ex1 sq of
        Some task_id \<Rightarrow> ex_wake task_id (ex1\<lparr>ex_pidfd_waiters := (ex_pidfd_waiters ex1)(sq := None)\<rparr>)
      | None \<Rightarrow> ex1)"

text \<open>\<open>deliver_spawn\<close> also returns the pidfd it closes when nobody waits.\<close>

definition ex_deliver_spawn :: "nat \<Rightarrow> io_error + SpawnResult \<Rightarrow> 'f Executor \<Rightarrow> int option \<times> 'f Executor" where
  "ex_deliver_spawn request_id result ex =
     (case ex_pending_spawns ex request_id of
        Some (task_id, _) \<Rightarrow>
          (None, ex_wake task_id (ex\<lparr>ex_pending_spawns := (ex_pending_spawns ex)(request_id \<mapsto> (task_id, Some result))\<rparr>))
      | None \<Rightarrow> (case result of Inr r \<Rightarrow> Some (sp_pidfd r) | Inl _ \<Rightarrow> None, ex))"

definition ex_deliver_blocking :: "nat \<Rightarrow> nat \<Rightarrow> 'f Executor \<Rightarrow> 'f Executor" where
  "ex_deliver_blocking request_id result ex =
     (case ex_pending_blocking ex request_id of
        Some (task_id, _) \<Rightarrow>
          ex_wake task_id (ex\<lparr>ex_pending_blocking := (ex_pending_blocking ex)(request_id \<mapsto> (task_id, Some result))\<rparr>)
      | None \<Rightarrow> ex)"

definition ex_deliver_resolve :: "nat \<Rightarrow> io_error + nat \<Rightarrow> 'f Executor \<Rightarrow> 'f Executor" where
  "ex_deliver_resolve request_id result ex =
     (case ex_pending_resolves ex request_id of
        Some (task_id, _) \<Rightarrow>
          ex_wake task_id (ex\<lparr>ex_pending_resolves := (ex_pending_resolves ex)(request_id \<mapsto> (task_id, Some result))\<rparr>)
      | None \<Rightarrow> ex)"

text \<open>\<open>spawn\<close> and \<open>TaskId::cancel\<close> of \<open>runtime/io.rs\<close>.\<close>

definition ex_spawn :: "'f \<Rightarrow> 'f Executor \<Rightarrow> (nat option \<times> 'f Executor) outcome" where
  "ex_spawn fut ex =
     outcome_bind (st_spawn fut (ex_standalone_slab ex)) (\<lambda>(r, slab).
       case r of
         Some idx \<Rightarrow> Ret (Some idx, ex\<lparr>ex_standalone_slab := slab,
                        ex_ready_queue := ex_ready_queue ex @ [of_nat idx OR STANDALONE_BIT]\<rparr>)
       | None \<Rightarrow> Ret (None, ex\<lparr>ex_standalone_slab := slab\<rparr>))"

definition ex_cancel :: "nat \<Rightarrow> 'f Executor \<Rightarrow> 'f Executor" where
  "ex_cancel idx ex = ex\<lparr>ex_standalone_slab := st_remove idx (ex_standalone_slab ex)\<rparr>"

text \<open>The executor's part of \<open>spawn_accept_task\<close>, once the handler has returned a future.\<close>

definition ex_spawn_accept :: "profile \<Rightarrow> u32 \<Rightarrow> 'f \<Rightarrow> 'f Executor \<Rightarrow> 'f Executor outcome" where
  "ex_spawn_accept dbg conn_index fut ex =
     ensure (unat conn_index < length (ex_owner_task ex))
       (outcome_bind (task_spawn dbg (unat conn_index) fut (ex_task_slab ex)) (\<lambda>slab.
          Ret (ex\<lparr>ex_owner_task := (ex_owner_task ex)[unat conn_index := Some conn_index],
                  ex_task_slab := slab, ex_ready_queue := ex_ready_queue ex @ [conn_index]\<rparr>)))"

subsection \<open>Waiters\<close>

text \<open>
  What a future writes into the executor before it returns \<open>Pending\<close>: that the task being
  polled waits for a completion. A write out of range, or a second consumer of a UDP socket in
  a debug build, is a panic of the poll, which the loop catches: it is the \<open>PollPanicked\<close>
  result of the future below.
\<close>

definition register_recv :: "u32 \<Rightarrow> u32 \<Rightarrow> 'f Executor \<Rightarrow> 'f Executor" where
  "register_recv t conn_index ex = ex\<lparr>ex_owner_task := (ex_owner_task ex)[unat conn_index := Some t],
     ex_recv_waiters := (ex_recv_waiters ex)[unat conn_index := True]\<rparr>"

definition register_send :: "u32 \<Rightarrow> u32 \<Rightarrow> 'f Executor \<Rightarrow> 'f Executor" where
  "register_send t conn_index ex = ex\<lparr>ex_owner_task := (ex_owner_task ex)[unat conn_index := Some t],
     ex_send_waiters := (ex_send_waiters ex)[unat conn_index := True]\<rparr>"

definition register_connect :: "u32 \<Rightarrow> u32 \<Rightarrow> 'f Executor \<Rightarrow> 'f Executor" where
  "register_connect t conn_index ex = ex\<lparr>ex_owner_task := (ex_owner_task ex)[unat conn_index := Some t],
     ex_connect_waiters := (ex_connect_waiters ex)[unat conn_index := True]\<rparr>"

definition register_udp_recv :: "u32 \<Rightarrow> nat \<Rightarrow> 'f Executor \<Rightarrow> 'f Executor" where
  "register_udp_recv t idx ex = ex\<lparr>ex_udp_recv_waiters := (ex_udp_recv_waiters ex)[idx := Some t]\<rparr>"

definition register_udp_send_ready :: "u32 \<Rightarrow> nat \<Rightarrow> 'f Executor \<Rightarrow> 'f Executor" where
  "register_udp_send_ready t idx ex = ex\<lparr>ex_udp_send_ready_waiters := (ex_udp_send_ready_waiters ex)[idx := Some t]\<rparr>"

definition register_disk_io :: "u32 \<Rightarrow> u32 \<Rightarrow> 'f Executor \<Rightarrow> 'f Executor" where
  "register_disk_io t sq ex = ex\<lparr>ex_disk_io_waiters := (ex_disk_io_waiters ex)(sq \<mapsto> t)\<rparr>"

definition register_pidfd :: "u32 \<Rightarrow> u32 \<Rightarrow> 'f Executor \<Rightarrow> 'f Executor" where
  "register_pidfd t sq ex = ex\<lparr>ex_pidfd_waiters := (ex_pidfd_waiters ex)(sq \<mapsto> t)\<rparr>"

definition register_spawn :: "u32 \<Rightarrow> nat \<Rightarrow> 'f Executor \<Rightarrow> 'f Executor" where
  "register_spawn t request_id ex = ex\<lparr>ex_pending_spawns := (ex_pending_spawns ex)(request_id \<mapsto> (t, None))\<rparr>"

definition register_blocking :: "u32 \<Rightarrow> nat \<Rightarrow> 'f Executor \<Rightarrow> 'f Executor" where
  "register_blocking t request_id ex = ex\<lparr>ex_pending_blocking := (ex_pending_blocking ex)(request_id \<mapsto> (t, None))\<rparr>"

definition register_resolve :: "u32 \<Rightarrow> nat \<Rightarrow> 'f Executor \<Rightarrow> 'f Executor" where
  "register_resolve t request_id ex = ex\<lparr>ex_pending_resolves := (ex_pending_resolves ex)(request_id \<mapsto> (t, None))\<rparr>"

lemmas register_defs = register_recv_def register_send_def register_connect_def register_udp_recv_def register_udp_send_ready_def
  register_disk_io_def register_pidfd_def register_spawn_def register_blocking_def register_resolve_def

datatype wait_for =
    ForRecv u32 | ForSend u32 | ForConnect u32 | ForUdpRecv nat | ForUdpSendReady nat | ForDiskIo u32 | ForPidfd u32
  | ForSpawn nat | ForBlocking nat | ForResolve nat

fun ex_register :: "u32 \<Rightarrow> wait_for \<Rightarrow> 'f Executor \<Rightarrow> 'f Executor" where
  "ex_register t (ForRecv c) ex = register_recv t c ex"
| "ex_register t (ForSend c) ex = register_send t c ex"
| "ex_register t (ForConnect c) ex = register_connect t c ex"
| "ex_register t (ForUdpRecv i) ex = register_udp_recv t i ex"
| "ex_register t (ForUdpSendReady i) ex = register_udp_send_ready t i ex"
| "ex_register t (ForDiskIo sq) ex = register_disk_io t sq ex"
| "ex_register t (ForPidfd sq) ex = register_pidfd t sq ex"
| "ex_register t (ForSpawn k) ex = register_spawn t k ex"
| "ex_register t (ForBlocking k) ex = register_blocking t k ex"
| "ex_register t (ForResolve k) ex = register_resolve t k ex"

lemma ex_register_fields [simp]:
  "ex_task_slab (ex_register t w ex) = ex_task_slab ex" "ex_standalone_slab (ex_register t w ex) = ex_standalone_slab ex"
  "ex_ready_queue (ex_register t w ex) = ex_ready_queue ex" "ex_currently_polling (ex_register t w ex) = ex_currently_polling ex"
  "ex_woken_while_polling (ex_register t w ex) = ex_woken_while_polling ex" "ex_waker_queue (ex_register t w ex) = ex_waker_queue ex"
  "ex_poll_dedup_conn (ex_register t w ex) = ex_poll_dedup_conn ex" "ex_poll_dedup_standalone (ex_register t w ex) = ex_poll_dedup_standalone ex"
  by (cases w; simp add: register_defs)+

subsection \<open>The poll loop\<close>

datatype 'f poll_effect = EffWake u32 | EffWaker u32 | EffSpawn 'f | EffCancel nat | EffRegister wait_for
datatype 'f poll_result = PollReady | PollPending 'f | PollPanicked

type_synonym 'f poller = "u32 \<Rightarrow> 'f \<Rightarrow> 'f poll_effect list \<times> 'f poll_result"

fun ex_effects :: "'f poll_effect list \<Rightarrow> 'f Executor \<Rightarrow> 'f Executor outcome" where
  "ex_effects [] ex = Ret ex"
| "ex_effects (EffWake t # es) ex = ex_effects es (ex_wake t ex)"
| "ex_effects (EffWaker t # es) ex = ex_effects es (ex_waker_wake t ex)"
| "ex_effects (EffSpawn fut # es) ex = outcome_bind (ex_spawn fut ex) (\<lambda>(_, ex'). ex_effects es ex')"
| "ex_effects (EffCancel i # es) ex = ex_effects es (ex_cancel i ex)"
| "ex_effects (EffRegister w # es) ex =
     (case ex_currently_polling ex of
        Some t \<Rightarrow> ex_effects es (ex_register t w ex)
      | None \<Rightarrow> ex_effects es ex)"

text \<open>Polling one task whose future has been taken out of its slot; \<open>remove\<close> and \<open>park\<close> are the slab's.\<close>

definition ex_poll_future ::
  "'f poller \<Rightarrow> u32 \<Rightarrow> 'f \<Rightarrow> ('f Executor \<Rightarrow> 'f Executor) \<Rightarrow> ('f \<Rightarrow> 'f Executor \<Rightarrow> 'f Executor outcome) \<Rightarrow>
   'f Executor \<Rightarrow> 'f Executor outcome" where
  "ex_poll_future poll raw_id fut remove park ex =
     (case poll raw_id fut of (effs, res) \<Rightarrow>
        outcome_bind (ex_effects effs (ex\<lparr>ex_currently_polling := Some raw_id, ex_woken_while_polling := False\<rparr>)) (\<lambda>ex1.
          let ex2 = ex1\<lparr>ex_currently_polling := None\<rparr> in
          case res of
            PollReady \<Rightarrow> Ret (remove ex2)
          | PollPending fut' \<Rightarrow>
              outcome_bind (park fut' ex2) (\<lambda>ex3. Ret (if ex_woken_while_polling ex3 then ex_wake raw_id ex3 else ex3))
          | PollPanicked \<Rightarrow> Ret (remove ex2)))"

definition ex_poll_standalone :: "profile \<Rightarrow> 'f poller \<Rightarrow> u32 \<Rightarrow> 'f Executor \<Rightarrow> 'f Executor outcome" where
  "ex_poll_standalone dbg poll raw_id ex =
     (let task_idx = standalone_idx raw_id in
      case st_take_ready task_idx (ex_standalone_slab ex) of
        (None, slab) \<Rightarrow> Ret (ex\<lparr>ex_standalone_slab := slab\<rparr>)
      | (Some fut, slab) \<Rightarrow>
          ex_poll_future poll raw_id fut
            (\<lambda>e. e\<lparr>ex_standalone_slab := st_remove task_idx (ex_standalone_slab e)\<rparr>)
            (\<lambda>f e. outcome_bind (st_park dbg task_idx f (ex_standalone_slab e)) (\<lambda>s. Ret (e\<lparr>ex_standalone_slab := s\<rparr>)))
            (ex\<lparr>ex_standalone_slab := slab\<rparr>))"

definition ex_poll_conn :: "profile \<Rightarrow> 'f poller \<Rightarrow> u32 \<Rightarrow> 'f Executor \<Rightarrow> 'f Executor outcome" where
  "ex_poll_conn dbg poll conn_index ex =
     (case task_take_ready (unat conn_index) (ex_task_slab ex) of
        (None, slab) \<Rightarrow> Ret (ex\<lparr>ex_task_slab := slab\<rparr>)
      | (Some fut, slab) \<Rightarrow>
          ex_poll_future poll conn_index fut
            (ex_remove_connection conn_index)
            (\<lambda>f e. outcome_bind (task_park dbg (unat conn_index) f (ex_task_slab e)) (\<lambda>s. Ret (e\<lparr>ex_task_slab := s\<rparr>)))
            (ex\<lparr>ex_task_slab := slab\<rparr>))"

text \<open>The dedup bit of a task id, and setting it; ids beyond the arrays have none.\<close>

definition dedup_bit :: "u32 \<Rightarrow> 'f Executor \<Rightarrow> bool" where
  "dedup_bit t ex =
     (if is_standalone t
      then standalone_idx t < length (ex_poll_dedup_standalone ex) \<and> ex_poll_dedup_standalone ex ! standalone_idx t
      else unat t < length (ex_poll_dedup_conn ex) \<and> ex_poll_dedup_conn ex ! unat t)"

definition set_dedup :: "u32 \<Rightarrow> bool \<Rightarrow> 'f Executor \<Rightarrow> 'f Executor" where
  "set_dedup t b ex =
     (if is_standalone t
      then ex\<lparr>ex_poll_dedup_standalone := (ex_poll_dedup_standalone ex)[standalone_idx t := b]\<rparr>
      else ex\<lparr>ex_poll_dedup_conn := (ex_poll_dedup_conn ex)[unat t := b]\<rparr>)"

definition ex_poll_entry :: "profile \<Rightarrow> 'f poller \<Rightarrow> bool \<Rightarrow> u32 \<Rightarrow> 'f Executor \<Rightarrow> 'f Executor outcome" where
  "ex_poll_entry dbg poll in_initial_batch raw_id ex =
     (if in_initial_batch \<and> dedup_bit raw_id ex then Ret ex
      else let ex1 = (if in_initial_batch then set_dedup raw_id True ex else ex) in
        if is_standalone raw_id then ex_poll_standalone dbg poll raw_id ex1 else ex_poll_conn dbg poll raw_id ex1)"

text \<open>The loop over the growing ready queue, with fuel: tasks can wake each other without end.\<close>

fun ex_poll_loop :: "nat \<Rightarrow> profile \<Rightarrow> 'f poller \<Rightarrow> nat \<Rightarrow> nat \<Rightarrow> 'f Executor \<Rightarrow> 'f Executor option outcome" where
  "ex_poll_loop n dbg poll initial_len i ex =
     (if length (ex_ready_queue ex) \<le> i then Ret (Some ex)
      else case n of
          0 \<Rightarrow> Ret None
        | Suc m \<Rightarrow> outcome_bind (ex_poll_entry dbg poll (i < initial_len) (ex_ready_queue ex ! i) ex)
            (ex_poll_loop m dbg poll initial_len (Suc i)))"

declare ex_poll_loop.simps [simp del]

definition ex_finish_pass :: "nat \<Rightarrow> 'f Executor \<Rightarrow> 'f Executor" where
  "ex_finish_pass initial_len ex =
     (let reset_end = min initial_len (length (ex_ready_queue ex));
          ex1 = fold (\<lambda>t. set_dedup t False) (take reset_end (ex_ready_queue ex)) ex
      in ex_collect_wakeups (ex1\<lparr>ex_ready_queue := []\<rparr>))"

definition ex_poll_ready_tasks :: "nat \<Rightarrow> profile \<Rightarrow> 'f poller \<Rightarrow> 'f Executor \<Rightarrow> 'f Executor option outcome" where
  "ex_poll_ready_tasks n dbg poll ex =
     (let initial_len = length (ex_ready_queue ex) in
      outcome_bind (ex_poll_loop n dbg poll initial_len 0 ex) (\<lambda>r. Ret (map_option (ex_finish_pass initial_len) r)))"

subsection \<open>Runnable tasks\<close>

definition task_slot :: "u32 \<Rightarrow> 'f Executor \<Rightarrow> 'f TaskSlot" where
  "task_slot t ex =
     (if is_standalone t
      then (if standalone_idx t < length (st_tasks (ex_standalone_slab ex))
            then st_tasks (ex_standalone_slab ex) ! standalone_idx t else TaskEmpty)
      else (if unat t < length (ex_task_slab ex) then ex_task_slab ex ! unat t else TaskEmpty))"

fun is_ready :: "'f TaskSlot \<Rightarrow> bool" where
  "is_ready (TaskReady f) = True"
| "is_ready s = False"

definition task_ready :: "'f Executor \<Rightarrow> u32 \<Rightarrow> bool" where
  "task_ready ex t \<longleftrightarrow> is_ready (task_slot t ex)"

text \<open>
  What every scheduling operation does to the ready queue: it appends some ids, leaves the
  dedup bits alone, and a task that becomes ready is among the appended ids.
\<close>

definition extends :: "'f Executor \<Rightarrow> 'f Executor \<Rightarrow> bool" where
  "extends ex ex' \<longleftrightarrow> (\<exists>xs. ex_ready_queue ex' = ex_ready_queue ex @ xs \<and>
     (\<forall>t. task_ready ex' t \<longrightarrow> task_ready ex t \<or> t \<in> set xs) \<and>
     ex_poll_dedup_conn ex' = ex_poll_dedup_conn ex \<and> ex_poll_dedup_standalone ex' = ex_poll_dedup_standalone ex)"

lemma extends_refl [simp, intro]: "extends ex ex"
  by (auto simp: extends_def)

lemma extends_trans: "extends a b \<Longrightarrow> extends b c \<Longrightarrow> extends a c"
  unfolding extends_def by (elim exE conjE) (auto intro!: exI)

lemma extends_same_slots:
  "ex_ready_queue ex' = ex_ready_queue ex \<Longrightarrow> ex_task_slab ex' = ex_task_slab ex \<Longrightarrow> ex_standalone_slab ex' = ex_standalone_slab ex \<Longrightarrow>
   ex_poll_dedup_conn ex' = ex_poll_dedup_conn ex \<Longrightarrow> ex_poll_dedup_standalone ex' = ex_poll_dedup_standalone ex \<Longrightarrow> extends ex ex'"
  by (auto simp: extends_def task_ready_def task_slot_def)

lemma bit_STANDALONE_BIT: "bit STANDALONE_BIT n \<longleftrightarrow> n = 31"
  unfolding STANDALONE_BIT_def by (simp only: bit_push_bit_iff bit_1_iff) auto

lemma standalone_id: "is_standalone t \<Longrightarrow> t = of_nat (standalone_idx t) OR STANDALONE_BIT"
proof -
  assume a: "is_standalone t"
  have bit: "bit t 31"
  proof (rule ccontr)
    assume "\<not> bit t 31"
    then have "t AND STANDALONE_BIT = 0" by (auto intro!: bit_word_eqI simp: bit_STANDALONE_BIT bit_simps)
    then show False using a by (simp add: is_standalone_def)
  qed
  have "(of_nat (standalone_idx t) :: u32) = t AND NOT STANDALONE_BIT" by (simp add: standalone_idx_def)
  then show ?thesis using bit by (auto intro!: bit_word_eqI simp: bit_STANDALONE_BIT bit_simps)
qed

lemma standalone_inj: "is_standalone t \<Longrightarrow> is_standalone u \<Longrightarrow> standalone_idx t = standalone_idx u \<longleftrightarrow> t = u"
  by (metis standalone_id)

lemma conn_inj: "unat t = unat u \<longleftrightarrow> (t :: u32) = u"
  using word_unat_eq_iff by blast

lemma extends_conn_slot:
  assumes "ts = (ex_task_slab ex)[i := s]" "is_ready s \<Longrightarrow> i < length (ex_task_slab ex) \<Longrightarrow> i = unat u \<and> u \<in> set xs"
  shows "extends ex (ex\<lparr>ex_task_slab := ts, ex_ready_queue := ex_ready_queue ex @ xs\<rparr>)"
proof -
  have "task_ready ex t \<or> t \<in> set xs" if "task_ready (ex\<lparr>ex_task_slab := ts, ex_ready_queue := ex_ready_queue ex @ xs\<rparr>) t" for t
  proof (cases "is_standalone t")
    case True
    then show ?thesis using that by (auto simp: task_ready_def task_slot_def split: if_splits)
  next
    case False
    then show ?thesis
      using that assms conn_inj [of t u]
      by (cases "i = unat t") (auto simp: task_ready_def task_slot_def split: if_splits)
  qed
  then show ?thesis by (auto simp: extends_def)
qed

lemma extends_standalone_slot:
  assumes "st_tasks slab = (st_tasks (ex_standalone_slab ex))[i := s]"
    and "is_ready s \<Longrightarrow> i < length (st_tasks (ex_standalone_slab ex)) \<Longrightarrow> of_nat i OR STANDALONE_BIT \<in> set xs"
  shows "extends ex (ex\<lparr>ex_standalone_slab := slab, ex_ready_queue := ex_ready_queue ex @ xs\<rparr>)"
proof -
  have "task_ready ex t \<or> t \<in> set xs" if "task_ready (ex\<lparr>ex_standalone_slab := slab, ex_ready_queue := ex_ready_queue ex @ xs\<rparr>) t" for t
  proof (cases "is_standalone t")
    case True
    then show ?thesis
      using that assms standalone_id [of t]
      by (cases "i = standalone_idx t") (auto simp: task_ready_def task_slot_def split: if_splits)
  next
    case False
    then show ?thesis using that by (auto simp: task_ready_def task_slot_def split: if_splits)
  qed
  then show ?thesis by (auto simp: extends_def)
qed

lemma extends_slabs:
  assumes "ex_ready_queue ex' = ex_ready_queue ex" "ex_poll_dedup_conn ex' = ex_poll_dedup_conn ex"
    and "ex_poll_dedup_standalone ex' = ex_poll_dedup_standalone ex"
    and "\<And>t. is_ready (task_slot t ex') \<Longrightarrow> is_ready (task_slot t ex)"
  shows "extends ex ex'"
  using assms by (auto simp: extends_def task_ready_def)

lemma extends_task_remove: "extends ex (ex\<lparr>ex_task_slab := task_remove i (ex_task_slab ex)\<rparr>)"
  by (rule extends_slabs) (auto simp: task_slot_def task_remove_def nth_list_update split: if_splits)

lemma extends_st_remove: "extends ex (ex\<lparr>ex_standalone_slab := st_remove i (ex_standalone_slab ex)\<rparr>)"
  by (rule extends_slabs) (auto simp: task_slot_def st_remove_def nth_list_update split: if_splits TaskSlot.splits)

lemma extends_wake: "extends ex (ex_wake t ex)"
proof (cases "ex_currently_polling ex = Some t")
  case True
  then show ?thesis by (auto simp: ex_wake_task_def intro: extends_same_slots)
next
  case False
  show ?thesis
  proof (cases "is_standalone t")
    case True
    obtain b ts where w: "task_wake (standalone_idx t) (st_tasks (ex_standalone_slab ex)) = (b, ts)"
      by (cases "task_wake (standalone_idx t) (st_tasks (ex_standalone_slab ex))")
    have e: "ex_wake t ex = (if b then ex\<lparr>ex_standalone_slab := (ex_standalone_slab ex)\<lparr>st_tasks := ts\<rparr>, ex_ready_queue := ex_ready_queue ex @ [t]\<rparr>
        else ex\<lparr>ex_standalone_slab := (ex_standalone_slab ex)\<lparr>st_tasks := ts\<rparr>\<rparr>)"
      using False True w by (auto simp: ex_wake_task_def st_wake_def split: bool.splits)
    have ts: "\<exists>s. ts = (st_tasks (ex_standalone_slab ex))[standalone_idx t := s] \<and> (is_ready s \<longrightarrow> b \<or> (\<exists>f. st_tasks (ex_standalone_slab ex) ! standalone_idx t = TaskReady f))"
      using w list_update_beyond [of "st_tasks (ex_standalone_slab ex)" "standalone_idx t" TaskEmpty]
      by (auto simp: task_wake_def split: if_splits TaskSlot.splits intro: exI [of _ TaskEmpty])
    show ?thesis
    proof (cases b)
      case True
      then show ?thesis
        using ts e standalone_id [OF \<open>is_standalone t\<close>] extends_standalone_slot [of "(ex_standalone_slab ex)\<lparr>st_tasks := ts\<rparr>" ex "standalone_idx t" _ "[t]"] by auto
    next
      case False
      then have "ts = st_tasks (ex_standalone_slab ex)" using w by (auto simp: task_wake_def list_update_same_conv split: if_splits TaskSlot.splits)
      then show ?thesis using e False by (auto intro: extends_same_slots)
    qed
  next
    case conn: False
    obtain b ts where w: "task_wake (unat t) (ex_task_slab ex) = (b, ts)" by (cases "task_wake (unat t) (ex_task_slab ex)")
    have e: "ex_wake t ex = (if b then ex\<lparr>ex_task_slab := ts, ex_ready_queue := ex_ready_queue ex @ [t]\<rparr> else ex\<lparr>ex_task_slab := ts\<rparr>)"
      using False conn w by (auto simp: ex_wake_task_def split: bool.splits)
    show ?thesis
    proof (cases b)
      case True
      then obtain f where "ts = (ex_task_slab ex)[unat t := TaskReady f]" using w by (auto simp: task_wake_def split: if_splits TaskSlot.splits)
      then show ?thesis using e True extends_conn_slot [of ts ex "unat t" "TaskReady f" t "[t]"] by simp
    next
      case False
      then have "ts = ex_task_slab ex" using w by (auto simp: task_wake_def list_update_same_conv split: if_splits TaskSlot.splits)
      then show ?thesis using e False by (auto intro: extends_same_slots)
    qed
  qed
qed

lemma extends_fold_wake: "extends ex (fold ex_wake ts ex)"
  by (induction ts arbitrary: ex) (auto intro: extends_trans [OF extends_wake])

lemma extends_wake_after:
  "extends ex ex' \<Longrightarrow> extends ex (ex_wake t ex')"
  by (rule extends_trans [OF _ extends_wake])

lemma extends_remove_connection: "extends ex (ex_remove_connection c ex)"
proof -
  define ex0 where "ex0 = (if unat c < length (ex_recv_sinks ex) then ex\<lparr>ex_recv_sinks := (ex_recv_sinks ex)[unat c := None]\<rparr> else ex)"
  define ex1 where "ex1 = ex0\<lparr>ex_task_slab := task_remove (unat c) (ex_task_slab ex0)\<rparr>"
  obtain wakes scq where w: "scq_remove_connection c (ex_send_capacity ex1) = (wakes, scq)"
    by (cases "scq_remove_connection c (ex_send_capacity ex1)")
  define ex2 where "ex2 = fold ex_wake wakes (ex1\<lparr>ex_send_capacity := scq\<rparr>)"
  have 0: "extends ex ex0" unfolding ex0_def by (simp add: extends_same_slots)
  have 1: "extends ex0 ex1" unfolding ex1_def by (rule extends_task_remove)
  have 2: "extends ex1 ex2" unfolding ex2_def by (rule extends_trans [OF _ extends_fold_wake]) (simp add: extends_same_slots)
  have ex2: "extends ex ex2" by (rule extends_trans [OF extends_trans [OF 0 1] 2])
  have owner: "extends ex (case ex_owner_task ex2 ! unat c of Some t \<Rightarrow> if P t then ex_wake t ex2 else ex2 | None \<Rightarrow> ex2)" for P
    using ex2 extends_wake_after [OF ex2] by (simp split: option.split)
  have upd: "extends ex e \<Longrightarrow> extends ex (e\<lparr>ex_recv_waiters := a, ex_send_waiters := b, ex_connect_waiters := d, ex_io_results := g, ex_owner_task := h\<rparr>)"
    for e a b d g h by (rule extends_trans, assumption, rule extends_same_slots) simp_all
  show ?thesis
    unfolding ex_remove_connection_def Let_def ex0_def [symmetric] ex1_def [symmetric] w prod.case ex2_def [symmetric]
    by (rule if_split [THEN iffD2], intro conjI impI) (rule upd, rule owner, rule ex2)
qed

lemma extends_spawn: "ex_spawn fut ex = Ret (r, ex') \<Longrightarrow> extends ex ex'"
proof -
  assume a: "ex_spawn fut ex = Ret (r, ex')"
  show ?thesis
  proof (cases "vec_pop (st_free_list (ex_standalone_slab ex))")
    case None
    then show ?thesis using a by (auto simp: ex_spawn_def st_spawn_def intro: extends_same_slots)
  next
    case (Some x)
    obtain i fl where x: "x = (i, fl)" by (cases x)
    let ?slab = "(ex_standalone_slab ex)\<lparr>st_tasks := (st_tasks (ex_standalone_slab ex))[i := TaskReady fut], st_free_list := fl\<rparr>"
    have "ex' = ex\<lparr>ex_standalone_slab := ?slab, ex_ready_queue := ex_ready_queue ex @ [of_nat i OR STANDALONE_BIT]\<rparr>"
      using a Some x by (auto simp: ex_spawn_def st_spawn_def ensure_def split: if_splits)
    then show ?thesis
      using extends_standalone_slot [of ?slab ex i "TaskReady fut" "[of_nat i OR STANDALONE_BIT]"] by simp
  qed
qed

lemma extends_effects: "ex_effects effs ex = Ret ex' \<Longrightarrow> extends ex ex'"
proof (induction effs ex rule: ex_effects.induct)
  case (2 t es ex)
  then show ?case by (auto intro: extends_trans [OF extends_wake])
next
  case (3 t es ex)
  have "extends ex (ex_waker_wake t ex)" by (auto simp: ex_waker_wake_def intro: extends_same_slots)
  then show ?case using 3 by (auto intro: extends_trans)
next
  case (4 fut es ex)
  then obtain r ex1 where "ex_spawn fut ex = Ret (r, ex1)" "ex_effects es ex1 = Ret ex'"
    by (cases "ex_spawn fut ex") auto
  then show ?case using 4 extends_spawn extends_trans by (metis prod.collapse)
next
  case (5 i es ex)
  have "extends ex (ex_cancel i ex)" unfolding ex_cancel_def by (rule extends_st_remove)
  then show ?case using 5 by (auto intro: extends_trans)
next
  case (6 w es ex)
  have "extends ex (ex_register t w ex)" for t by (rule extends_same_slots) simp_all
  then show ?case using 6 by (auto intro: extends_trans split: option.splits)
qed auto

text \<open>One poll, from the moment its future is out of the slot.\<close>

lemma extends_poll_future:
  assumes "ex_poll_future poll t fut remove park ex = Ret ex'"
    and rem: "\<And>e. extends e (remove e)" and prk: "\<And>f e e'. park f e = Ret e' \<Longrightarrow> extends e e'"
  shows "extends ex ex'"
proof -
  obtain effs res where p: "poll t fut = (effs, res)" by (cases "poll t fut")
  let ?ex0 = "ex\<lparr>ex_currently_polling := Some t, ex_woken_while_polling := False\<rparr>"
  obtain ex1 where ex1: "ex_effects effs ?ex0 = Ret ex1"
    using assms(1) p by (cases "ex_effects effs ?ex0") (auto simp: ex_poll_future_def)
  let ?ex2 = "ex1\<lparr>ex_currently_polling := None\<rparr>"
  have "extends ex ?ex0" "extends ex1 ?ex2" by (auto intro: extends_same_slots)
  then have 2: "extends ex ?ex2" using extends_effects [OF ex1] by (metis extends_trans)
  show ?thesis
  proof (cases res)
    case (PollPending f)
    then obtain ex3 where ex3: "park f ?ex2 = Ret ex3"
      using assms(1) p ex1 by (cases "park f ?ex2") (auto simp: ex_poll_future_def Let_def)
    then have "ex' = (if ex_woken_while_polling ex3 then ex_wake t ex3 else ex3)"
      using assms(1) p ex1 PollPending by (simp add: ex_poll_future_def Let_def)
    then show ?thesis using 2 prk [OF ex3] by (auto intro: extends_trans extends_wake_after)
  qed (use assms(1) p ex1 2 rem in \<open>auto simp: ex_poll_future_def Let_def intro: extends_trans\<close>)
qed

lemma extends_task_park:
  "outcome_bind (task_park dbg i f (ex_task_slab e)) (\<lambda>s. Ret (e\<lparr>ex_task_slab := s\<rparr>)) = Ret e' \<Longrightarrow> extends e e'"
  using extends_conn_slot [of "(ex_task_slab e)[i := TaskParked f]" e i "TaskParked f" 0 "[]"]
  by (auto simp: task_park_def debug_assert_def ensure_def split: if_splits)

lemma extends_st_park:
  "outcome_bind (st_park dbg i f (ex_standalone_slab e)) (\<lambda>s. Ret (e\<lparr>ex_standalone_slab := s\<rparr>)) = Ret e' \<Longrightarrow> extends e e'"
  using extends_standalone_slot [of "(ex_standalone_slab e)\<lparr>st_tasks := (st_tasks (ex_standalone_slab e))[i := TaskParked f]\<rparr>" e i "TaskParked f" "[]"]
  by (auto simp: st_park_def task_park_def debug_assert_def ensure_def split: if_splits)

text \<open>Polling takes the task out of its slot first, so it is no longer ready.\<close>

definition taken :: "u32 \<Rightarrow> 'f Executor \<Rightarrow> 'f Executor" where
  "taken t ex =
     (if is_standalone t then ex\<lparr>ex_standalone_slab := snd (st_take_ready (standalone_idx t) (ex_standalone_slab ex))\<rparr>
      else ex\<lparr>ex_task_slab := snd (task_take_ready (unat t) (ex_task_slab ex))\<rparr>)"

lemma taken_ready: "task_ready (taken t ex) u \<Longrightarrow> task_ready ex u \<and> u \<noteq> t"
  using standalone_inj [of t u] conn_inj [of t u]
  by (cases "is_standalone t"; cases "is_standalone u"; cases "u = t")
    (auto simp: taken_def task_ready_def task_slot_def st_take_ready_def task_take_ready_def split: if_splits TaskSlot.splits)

lemma taken_fields [simp]:
  "ex_ready_queue (taken t ex) = ex_ready_queue ex" "ex_poll_dedup_conn (taken t ex) = ex_poll_dedup_conn ex"
  "ex_poll_dedup_standalone (taken t ex) = ex_poll_dedup_standalone ex"
  by (simp_all add: taken_def)

lemma poll_extends_taken:
  assumes "(if is_standalone t then ex_poll_standalone dbg poll t ex else ex_poll_conn dbg poll t ex) = Ret ex'"
  shows "extends (taken t ex) ex'"
proof (cases "is_standalone t")
  case True
  obtain r slab where r: "st_take_ready (standalone_idx t) (ex_standalone_slab ex) = (r, slab)"
    by (cases "st_take_ready (standalone_idx t) (ex_standalone_slab ex)")
  show ?thesis
  proof (cases r)
    case (Some fut)
    let ?i = "standalone_idx t"
    have "ex_poll_future poll t fut (\<lambda>e. e\<lparr>ex_standalone_slab := st_remove ?i (ex_standalone_slab e)\<rparr>)
        (\<lambda>f e. outcome_bind (st_park dbg ?i f (ex_standalone_slab e)) (\<lambda>s. Ret (e\<lparr>ex_standalone_slab := s\<rparr>)))
        (taken t ex) = Ret ex'"
      using assms True r Some by (simp add: ex_poll_standalone_def taken_def Let_def)
    then show ?thesis by (rule extends_poll_future) (rule extends_st_remove, erule extends_st_park)
  qed (use assms True r in \<open>simp add: ex_poll_standalone_def taken_def Let_def\<close>)
next
  case False
  obtain r slab where r: "task_take_ready (unat t) (ex_task_slab ex) = (r, slab)"
    by (cases "task_take_ready (unat t) (ex_task_slab ex)")
  show ?thesis
  proof (cases r)
    case (Some fut)
    have "ex_poll_future poll t fut (ex_remove_connection t)
        (\<lambda>f e. outcome_bind (task_park dbg (unat t) f (ex_task_slab e)) (\<lambda>s. Ret (e\<lparr>ex_task_slab := s\<rparr>)))
        (taken t ex) = Ret ex'"
      using assms False r Some by (simp add: ex_poll_conn_def taken_def)
    then show ?thesis by (rule extends_poll_future) (rule extends_remove_connection, erule extends_task_park)
  qed (use assms False r in \<open>simp add: ex_poll_conn_def taken_def\<close>)
qed

subsection \<open>The invariant of the poll loop\<close>

text \<open>
  At position \<open>i\<close> of a pass whose initial batch is the first \<open>L\<close> entries, a ready task is still
  ahead in the queue: behind the batch, or inside it with its dedup bit clear.
\<close>

definition sched_inv :: "nat \<Rightarrow> nat \<Rightarrow> 'f Executor \<Rightarrow> bool" where
  "sched_inv i L ex \<longleftrightarrow> L \<le> length (ex_ready_queue ex) \<and>
     (\<forall>t. dedup_bit t ex \<longrightarrow> t \<in> set (take L (ex_ready_queue ex))) \<and>
     (\<forall>t. task_ready ex t \<longrightarrow>
        (\<exists>j<length (ex_ready_queue ex). L \<le> j \<and> i \<le> j \<and> ex_ready_queue ex ! j = t) \<or>
        (\<not> dedup_bit t ex \<and> (\<exists>j<L. i \<le> j \<and> ex_ready_queue ex ! j = t)))"

lemma sched_invE:
  assumes "sched_inv i L ex" "task_ready ex t"
  obtains j where "j < length (ex_ready_queue ex)" "L \<le> j" "i \<le> j" "ex_ready_queue ex ! j = t"
    | j where "\<not> dedup_bit t ex" "j < L" "i \<le> j" "ex_ready_queue ex ! j = t"
  using assms unfolding sched_inv_def by blast

lemma dedup_bit_cong:
  "ex_poll_dedup_conn ex' = ex_poll_dedup_conn ex \<Longrightarrow> ex_poll_dedup_standalone ex' = ex_poll_dedup_standalone ex \<Longrightarrow>
   dedup_bit t ex' = dedup_bit t ex"
  by (simp add: dedup_bit_def)

lemma sched_inv_extends:
  assumes "sched_inv i L ex" "extends ex ex'" "i \<le> length (ex_ready_queue ex)"
  shows "sched_inv i L ex'"
proof -
  obtain xs where xs: "ex_ready_queue ex' = ex_ready_queue ex @ xs" "\<And>t. task_ready ex' t \<Longrightarrow> task_ready ex t \<or> t \<in> set xs"
    and d: "\<And>t. dedup_bit t ex' = dedup_bit t ex"
    using assms(2) dedup_bit_cong by (auto simp: extends_def)
  have L: "L \<le> length (ex_ready_queue ex)" using assms(1) by (simp add: sched_inv_def)
  have "(\<exists>j<length (ex_ready_queue ex'). L \<le> j \<and> i \<le> j \<and> ex_ready_queue ex' ! j = t) \<or>
        (\<not> dedup_bit t ex' \<and> (\<exists>j<L. i \<le> j \<and> ex_ready_queue ex' ! j = t))" if "task_ready ex' t" for t
  proof (cases "t \<in> set xs")
    case True
    then obtain k where "k < length xs" "xs ! k = t" by (auto simp: in_set_conv_nth)
    then show ?thesis
      using L assms(3) by (intro disjI1 exI [of _ "length (ex_ready_queue ex) + k"]) (simp add: xs(1))
  next
    case False
    then have "task_ready ex t" using xs(2) that by blast
    with assms(1) show ?thesis
    proof (cases rule: sched_invE)
      case (1 j)
      then show ?thesis by (intro disjI1 exI [of _ j]) (simp add: xs(1) nth_append)
    next
      case (2 j)
      then show ?thesis using L d by (intro disjI2 conjI exI [of _ j]) (simp_all add: xs(1) nth_append)
    qed
  qed
  then show ?thesis using assms(1) L by (simp add: sched_inv_def xs(1) d)
qed

lemma dedup_bit_set:
  "dedup_bit u (set_dedup t b ex) \<Longrightarrow> u \<noteq> t \<Longrightarrow> dedup_bit u ex" "dedup_bit t (set_dedup t b ex) \<Longrightarrow> b"
  "u \<noteq> t \<Longrightarrow> dedup_bit u (set_dedup t b ex) = dedup_bit u ex"
  using standalone_inj [of t u] conn_inj [of t u]
  by (auto simp: dedup_bit_def set_dedup_def split: if_splits)

lemma set_dedup_fields [simp]:
  "ex_ready_queue (set_dedup t b ex) = ex_ready_queue ex" "task_ready (set_dedup t b ex) = task_ready ex"
  "ex_currently_polling (set_dedup t b ex) = ex_currently_polling ex" "ex_waker_queue (set_dedup t b ex) = ex_waker_queue ex"
  "ex_task_slab (set_dedup t b ex) = ex_task_slab ex" "ex_standalone_slab (set_dedup t b ex) = ex_standalone_slab ex"
  by (auto simp: set_dedup_def task_ready_def task_slot_def fun_eq_iff)

lemma sched_inv_entry:
  assumes inv: "sched_inv i L ex" and i: "i < length (ex_ready_queue ex)"
    and e: "ex_poll_entry dbg poll (i < L) (ex_ready_queue ex ! i) ex = Ret ex'"
  shows "sched_inv (Suc i) L ex'" "Suc i \<le> length (ex_ready_queue ex')"
proof -
  let ?q = "ex_ready_queue ex" and ?t = "ex_ready_queue ex ! i"
  have L: "L \<le> length ?q" using inv by (simp add: sched_inv_def)
  have le: "Suc j \<le> k" if "j \<le> k" "?q ! k \<noteq> ?q ! j" for j k using that by (cases "j = k") auto
  show "sched_inv (Suc i) L ex'" "Suc i \<le> length (ex_ready_queue ex')"
  proof (atomize (full), cases "i < L \<and> dedup_bit ?t ex")
    case True
    then have "ex' = ex" using e by (simp add: ex_poll_entry_def)
    moreover have "(\<exists>j<length ?q. L \<le> j \<and> Suc i \<le> j \<and> ?q ! j = t) \<or>
        \<not> dedup_bit t ex \<and> (\<exists>j<L. Suc i \<le> j \<and> ?q ! j = t)" if "task_ready ex t" for t
      using inv that
    proof (cases rule: sched_invE)
      case (1 j)
      then show ?thesis using True by (intro disjI1 exI [of _ j]) simp
    next
      case (2 j)
      then have "Suc i \<le> j" using True by (intro le) auto
      then show ?thesis using 2 by (intro disjI2 conjI exI [of _ j])
    qed
    ultimately show "sched_inv (Suc i) L ex' \<and> Suc i \<le> length (ex_ready_queue ex')"
      using inv i unfolding sched_inv_def by (simp only: Suc_le_eq) blast
  next
    case False
    define ex1 where "ex1 = (if i < L then set_dedup ?t True ex else ex)"
    have q1: "ex_ready_queue ex1 = ?q" "task_ready ex1 = task_ready ex" by (simp_all add: ex1_def)
    have d1: "t \<noteq> ?t \<Longrightarrow> dedup_bit t ex1 = dedup_bit t ex" "dedup_bit t ex1 \<Longrightarrow> dedup_bit t ex \<or> (t = ?t \<and> i < L)" for t
      using dedup_bit_set(1,3) [where u = t and t = ?t and b = True and ex = ex] by (auto simp: ex1_def split: if_splits)
    have "(if is_standalone ?t then ex_poll_standalone dbg poll ?t ex1 else ex_poll_conn dbg poll ?t ex1) = Ret ex'"
      using e False by (auto simp: ex_poll_entry_def ex1_def Let_def split: if_splits)
    then have ext: "extends (taken ?t ex1) ex'" by (rule poll_extends_taken)
    have db: "dedup_bit t (taken ?t ex1) = dedup_bit t ex1" for t by (rule dedup_bit_cong) simp_all
    have taken: "sched_inv (Suc i) L (taken ?t ex1)"
      unfolding sched_inv_def
    proof (intro conjI allI impI)
      show "L \<le> length (ex_ready_queue (taken ?t ex1))" using L by (simp add: q1)
      fix t
      show "t \<in> set (take L (ex_ready_queue (taken ?t ex1)))" if "dedup_bit t (taken ?t ex1)"
        using that d1(2) [of t] inv L by (auto simp: db q1 sched_inv_def in_set_conv_nth)
      assume "task_ready (taken ?t ex1) t"
      then have t: "task_ready ex t" "t \<noteq> ?t" using taken_ready q1 by metis+
      from inv t(1) show "(\<exists>j<length (ex_ready_queue (taken ?t ex1)). L \<le> j \<and> Suc i \<le> j \<and> ex_ready_queue (taken ?t ex1) ! j = t) \<or>
        \<not> dedup_bit t (taken ?t ex1) \<and> (\<exists>j<L. Suc i \<le> j \<and> ex_ready_queue (taken ?t ex1) ! j = t)"
      proof (cases rule: sched_invE)
        case (1 j)
        then show ?thesis using t le [of i j] by (intro disjI1 exI [of _ j]) (simp add: q1)
      next
        case (2 j)
        then show ?thesis using t le [of i j] d1(1) [of t] by (intro disjI2 conjI exI [of _ j]) (simp_all add: q1 db)
      qed
    qed
    have "length ?q \<le> length (ex_ready_queue ex')" using ext by (auto simp: extends_def q1)
    then show "sched_inv (Suc i) L ex' \<and> Suc i \<le> length (ex_ready_queue ex')"
      using sched_inv_extends [OF taken ext] i by (simp add: q1)
  qed
qed

lemma sched_inv_done: "sched_inv i L ex \<Longrightarrow> length (ex_ready_queue ex) \<le> i \<Longrightarrow> \<not> task_ready ex t"
proof
  assume inv: "sched_inv i L ex" "length (ex_ready_queue ex) \<le> i" "task_ready ex t"
  have "L \<le> length (ex_ready_queue ex)" using inv(1) by (simp add: sched_inv_def)
  from inv(1,3) this inv(2) show False by (cases rule: sched_invE) auto
qed

lemma ex_poll_loop_unfold:
  "length (ex_ready_queue ex) \<le> i \<Longrightarrow> ex_poll_loop n dbg poll L i ex = Ret (Some ex)"
  "i < length (ex_ready_queue ex) \<Longrightarrow> ex_poll_loop 0 dbg poll L i ex = Ret None"
  "i < length (ex_ready_queue ex) \<Longrightarrow> ex_poll_loop (Suc n) dbg poll L i ex =
     outcome_bind (ex_poll_entry dbg poll (i < L) (ex_ready_queue ex ! i) ex) (ex_poll_loop n dbg poll L (Suc i))"
  by (subst ex_poll_loop.simps, simp)+

lemma ex_poll_loop_drained:
  assumes "ex_poll_loop n dbg poll L i ex = Ret (Some ex')" "sched_inv i L ex"
  shows "(\<forall>t. \<not> task_ready ex' t) \<and> (\<exists>k. sched_inv k L ex')"
  using assms
proof (induction n arbitrary: i ex)
  case 0
  then have "ex' = ex" "length (ex_ready_queue ex) \<le> i"
    by (cases "length (ex_ready_queue ex) \<le> i"; simp add: ex_poll_loop_unfold)+
  then show ?case using 0(2) sched_inv_done by blast
next
  case (Suc n)
  show ?case
  proof (cases "length (ex_ready_queue ex) \<le> i")
    case True
    then have "ex' = ex" using Suc.prems by (simp add: ex_poll_loop_unfold)
    then show ?thesis using True Suc.prems(2) sched_inv_done by blast
  next
    case False
    then obtain ex1 where e: "ex_poll_entry dbg poll (i < L) (ex_ready_queue ex ! i) ex = Ret ex1"
      and r: "ex_poll_loop n dbg poll L (Suc i) ex1 = Ret (Some ex')"
      using Suc.prems(1) by (cases "ex_poll_entry dbg poll (i < L) (ex_ready_queue ex ! i) ex")
        (auto simp: ex_poll_loop_unfold)
    then show ?thesis using Suc.IH [OF r] sched_inv_entry(1) [OF Suc.prems(2) _ e] False by simp
  qed
qed

subsection \<open>Between passes\<close>

text \<open>Between two passes every ready task is queued, no dedup bit is set, and nothing is being polled.\<close>

definition sched_ok :: "'f Executor \<Rightarrow> bool" where
  "sched_ok ex \<longleftrightarrow> (\<forall>t. task_ready ex t \<longrightarrow> t \<in> set (ex_ready_queue ex)) \<and> (\<forall>t. \<not> dedup_bit t ex)"

lemma sched_ok_new: "sched_ok (ex_new m s u)"
  by (simp add: sched_ok_def ex_new_def task_ready_def task_slot_def dedup_bit_def task_slab_new_def st_new_def)

lemma sched_ok_extends: "sched_ok ex \<Longrightarrow> extends ex ex' \<Longrightarrow> sched_ok ex'"
  using dedup_bit_cong [of ex' ex] by (auto simp: sched_ok_def extends_def)

lemma sched_ok_inv: "sched_ok ex \<Longrightarrow> sched_inv 0 (length (ex_ready_queue ex)) ex"
  by (auto simp: sched_ok_def sched_inv_def in_set_conv_nth)

lemma fold_set_dedup:
  "task_ready (fold (\<lambda>t. set_dedup t False) ts ex) = task_ready ex"
  "ex_ready_queue (fold (\<lambda>t. set_dedup t False) ts ex) = ex_ready_queue ex"
  "dedup_bit t (fold (\<lambda>t. set_dedup t False) ts ex) \<Longrightarrow> dedup_bit t ex \<and> t \<notin> set ts"
proof (induction ts arbitrary: ex)
  case (Cons u ts)
  {
    case 3
    then show ?case
      using Cons.IH(3) [of "set_dedup u False ex"] dedup_bit_set(1,2) by (cases "t = u") auto
  }
qed auto

lemma extends_collect: "extends ex (ex_collect_wakeups ex)"
  unfolding ex_collect_wakeups_def by (rule extends_trans [OF _ extends_fold_wake]) (simp add: extends_same_slots)

lemma sched_ok_pass:
  assumes "sched_ok ex" "ex_poll_ready_tasks n dbg poll ex = Ret (Some ex')"
  shows "sched_ok ex'"
proof -
  let ?L = "length (ex_ready_queue ex)"
  obtain ex1 where l: "ex_poll_loop n dbg poll ?L 0 ex = Ret (Some ex1)" and f: "ex' = ex_finish_pass ?L ex1"
    using assms(2) by (cases "ex_poll_loop n dbg poll ?L 0 ex") (auto simp: ex_poll_ready_tasks_def Let_def)
  obtain k where d: "\<And>t. \<not> task_ready ex1 t" and k: "sched_inv k ?L ex1"
    using ex_poll_loop_drained [OF l sched_ok_inv [OF assms(1)]] by blast
  let ?ts = "take ?L (ex_ready_queue ex1)"
  let ?ex2 = "(fold (\<lambda>t. set_dedup t False) ?ts ex1)\<lparr>ex_ready_queue := []\<rparr>"
  have L: "min ?L (length (ex_ready_queue ex1)) = ?L" using k by (simp add: sched_inv_def)
  have "\<not> dedup_bit t ?ex2" for t
    using fold_set_dedup(3) [of t ?ts ex1] k dedup_bit_cong [of ?ex2 "fold (\<lambda>t. set_dedup t False) ?ts ex1" t]
    by (auto simp: sched_inv_def)
  moreover have "task_ready ?ex2 t = task_ready (fold (\<lambda>t. set_dedup t False) ?ts ex1) t" for t
    by (simp add: task_ready_def task_slot_def)
  ultimately have "sched_ok ?ex2" using d by (simp add: sched_ok_def fold_set_dedup(1))
  then show ?thesis
    unfolding f ex_finish_pass_def Let_def L by (rule sched_ok_extends [OF _ extends_collect])
qed

subsection \<open>What a wake does to the slots\<close>

lemma ex_wake_fields [simp]:
  "ex_currently_polling (ex_wake t ex) = ex_currently_polling ex" "ex_waker_queue (ex_wake t ex) = ex_waker_queue ex"
  by (auto simp: ex_wake_task_def split: prod.splits bool.splits)

lemma ex_wake_slabs:
  "ex_task_slab (ex_wake t ex) =
     (if ex_currently_polling ex = Some t \<or> is_standalone t then ex_task_slab ex else snd (task_wake (unat t) (ex_task_slab ex)))"
  "st_tasks (ex_standalone_slab (ex_wake t ex)) =
     (if ex_currently_polling ex = Some t \<or> \<not> is_standalone t then st_tasks (ex_standalone_slab ex)
      else snd (task_wake (standalone_idx t) (st_tasks (ex_standalone_slab ex))))"
  by (auto simp: ex_wake_task_def st_wake_def split: prod.splits bool.splits)

lemma task_wake_nth:
  "j < length ts \<Longrightarrow> snd (task_wake i ts) ! j = (if i = j then case ts ! j of TaskParked f \<Rightarrow> TaskReady f | s \<Rightarrow> s else ts ! j)"
  by (auto simp: task_wake_eq split: TaskSlot.splits)

lemma task_slot_wake:
  "task_slot u (ex_wake t ex) =
     (if u = t \<and> ex_currently_polling ex \<noteq> Some t then case task_slot t ex of TaskParked f \<Rightarrow> TaskReady f | s \<Rightarrow> s else task_slot u ex)"
proof (cases "is_standalone u")
  case True
  have "is_standalone t \<Longrightarrow> standalone_idx t = standalone_idx u \<longleftrightarrow> u = t" using standalone_inj [of t u] True by auto
  then show ?thesis using True by (auto simp: task_slot_def ex_wake_slabs task_wake_nth)
next
  case False
  then show ?thesis using conn_inj [of t u] by (auto simp: task_slot_def ex_wake_slabs task_wake_nth)
qed

lemma ex_wake_queues:
  "ex_currently_polling ex \<noteq> Some t \<Longrightarrow> task_slot t ex = TaskParked f \<Longrightarrow> t \<in> set (ex_ready_queue (ex_wake t ex))"
  by (auto simp: ex_wake_task_def task_slot_def st_wake_def task_wake_def split: if_splits prod.splits bool.splits TaskSlot.splits)

lemma fold_wake_fields [simp]:
  "ex_currently_polling (fold ex_wake ts ex) = ex_currently_polling ex" "ex_waker_queue (fold ex_wake ts ex) = ex_waker_queue ex"
  by (induction ts arbitrary: ex) simp_all

lemma task_slot_fold_wake:
  "ex_currently_polling ex = None \<Longrightarrow> task_slot t (fold ex_wake ts ex) =
     (if t \<in> set ts then case task_slot t ex of TaskParked f \<Rightarrow> TaskReady f | s \<Rightarrow> s else task_slot t ex)"
  by (induction ts arbitrary: ex) (auto simp: task_slot_wake split: TaskSlot.splits)

lemma task_slot_collect:
  assumes "ex_currently_polling ex = None"
  shows "task_slot t (ex_collect_wakeups ex) =
    (if t \<in> set (ex_waker_queue ex) then case task_slot t ex of TaskParked f \<Rightarrow> TaskReady f | s \<Rightarrow> s else task_slot t ex)"
    and "ex_waker_queue (ex_collect_wakeups ex) = []" "ex_currently_polling (ex_collect_wakeups ex) = None"
proof -
  have "task_slot t (ex\<lparr>ex_waker_queue := []\<rparr>) = task_slot t ex" by (simp add: task_slot_def)
  then show "task_slot t (ex_collect_wakeups ex) =
    (if t \<in> set (ex_waker_queue ex) then case task_slot t ex of TaskParked f \<Rightarrow> TaskReady f | s \<Rightarrow> s else task_slot t ex)"
    using assms by (simp add: ex_collect_wakeups_def task_slot_fold_wake)
qed (use assms in \<open>simp_all add: ex_collect_wakeups_def\<close>)

end
