(* ===== verification/Scheduling.thy ===== *)
theory Scheduling
  imports Executor
begin

section \<open>Properties of the executor's scheduling\<close>

text \<open>
  Runs of the executor: any interleaving of wakes, spawns, cancellations, completions and
  poll passes. No ready task is ever outside the ready queue, a task that wakes itself
  during its poll is queued again, and a pass over tasks that only yield ends after polling
  each of them once.
\<close>

datatype 'f ex_event =
    EvWake u32 | EvWaker u32 | EvCollect | EvSpawn 'f | EvAccept u32 'f | EvCancel nat | EvRemove u32
  | EvRecv u32 | EvRecvFail u32 u32 io_error | EvSend u32 io_result | EvConnect u32 "io_error + unit"
  | EvUdpRecv nat | EvUdpSend nat | EvDisk u32 int | EvPidfd u32 int
  | EvSpawned nat "io_error + SpawnResult" | EvBlocking nat nat | EvResolved nat "io_error + nat"
  | EvPass nat "'f poller"

text \<open>A pass that runs out of fuel is the \<open>Ret None\<close> of the loop; a run stops there.\<close>

fun ex_event_step :: "profile \<Rightarrow> 'f ex_event \<Rightarrow> 'f Executor \<Rightarrow> 'f Executor option outcome" where
  "ex_event_step dbg (EvWake t) ex = Ret (Some (ex_wake t ex))"
| "ex_event_step dbg (EvWaker t) ex = Ret (Some (ex_waker_wake t ex))"
| "ex_event_step dbg EvCollect ex = Ret (Some (ex_collect_wakeups ex))"
| "ex_event_step dbg (EvSpawn fut) ex = outcome_bind (ex_spawn fut ex) (\<lambda>(_, ex'). Ret (Some ex'))"
| "ex_event_step dbg (EvAccept c fut) ex = outcome_bind (ex_spawn_accept dbg c fut ex) (\<lambda>ex'. Ret (Some ex'))"
| "ex_event_step dbg (EvCancel i) ex = Ret (Some (ex_cancel i ex))"
| "ex_event_step dbg (EvRemove c) ex = Ret (Some (ex_remove_connection c ex))"
| "ex_event_step dbg (EvRecv c) ex = Ret (Some (ex_wake_recv c ex))"
| "ex_event_step dbg (EvRecvFail c g e) ex = Ret (Some (ex_fail_recv c g e ex))"
| "ex_event_step dbg (EvSend c r) ex = Ret (Some (ex_wake_send c r ex))"
| "ex_event_step dbg (EvConnect c r) ex = Ret (Some (ex_wake_connect c r ex))"
| "ex_event_step dbg (EvUdpRecv i) ex = Ret (Some (ex_wake_udp_recv i ex))"
| "ex_event_step dbg (EvUdpSend i) ex = Ret (Some (ex_wake_udp_send_ready i ex))"
| "ex_event_step dbg (EvDisk sq r) ex = Ret (Some (ex_wake_disk_io sq r ex))"
| "ex_event_step dbg (EvPidfd sq r) ex = Ret (Some (ex_wake_pidfd sq r ex))"
| "ex_event_step dbg (EvSpawned k r) ex = Ret (Some (snd (ex_deliver_spawn k r ex)))"
| "ex_event_step dbg (EvBlocking k r) ex = Ret (Some (ex_deliver_blocking k r ex))"
| "ex_event_step dbg (EvResolved k r) ex = Ret (Some (ex_deliver_resolve k r ex))"
| "ex_event_step dbg (EvPass n poll) ex = ex_poll_ready_tasks n dbg poll ex"

fun ex_run :: "profile \<Rightarrow> 'f ex_event list \<Rightarrow> 'f Executor \<Rightarrow> 'f Executor option outcome" where
  "ex_run dbg [] ex = Ret (Some ex)"
| "ex_run dbg (ev # evs) ex =
     outcome_bind (ex_event_step dbg ev ex) (\<lambda>r. case r of None \<Rightarrow> Ret None | Some ex' \<Rightarrow> ex_run dbg evs ex')"

subsection \<open>Every event keeps the queue complete\<close>

lemma extends_wake_recv: "extends ex (ex_wake_recv c ex)"
  by (auto simp: ex_wake_recv_def Let_def intro!: extends_wake_after extends_same_slots)

lemma extends_wakers:
  "extends ex (ex_wake_send c r ex)" "extends ex (ex_wake_connect c r' ex)"
  "extends ex (ex_wake_udp_recv i ex)" "extends ex (ex_wake_udp_send_ready i ex)"
  "extends ex (ex_wake_disk_io sq v ex)" "extends ex (ex_wake_pidfd sq v ex)"
  "extends ex (snd (ex_deliver_spawn k r'' ex))" "extends ex (ex_deliver_blocking k b ex)" "extends ex (ex_deliver_resolve k d ex)"
  by (auto simp: ex_wake_send_def ex_wake_connect_def ex_wake_udp_recv_def ex_wake_udp_send_ready_def ex_wake_disk_io_def
      ex_wake_pidfd_def ex_deliver_spawn_def ex_deliver_blocking_def ex_deliver_resolve_def Let_def
      split: option.split intro!: extends_wake_after extends_same_slots)

lemma extends_fail_recv: "extends ex (ex_fail_recv c g e ex)"
  unfolding ex_fail_recv_def Let_def
  by (rule extends_trans [OF _ extends_wake_recv]) (auto intro: extends_same_slots)

lemma extends_spawn_accept: "ex_spawn_accept dbg c fut ex = Ret ex' \<Longrightarrow> extends ex ex'"
proof -
  assume a: "ex_spawn_accept dbg c fut ex = Ret ex'"
  let ?ts = "(ex_task_slab ex)[unat c := TaskReady fut]"
  have e: "ex' = ex\<lparr>ex_owner_task := (ex_owner_task ex)[unat c := Some c], ex_task_slab := ?ts, ex_ready_queue := ex_ready_queue ex @ [c]\<rparr>"
    using a by (auto simp: ex_spawn_accept_def task_spawn_def debug_assert_def ensure_def split: if_splits)
  have "extends ex (ex\<lparr>ex_owner_task := (ex_owner_task ex)[unat c := Some c]\<rparr>)" by (rule extends_same_slots) simp_all
  then show ?thesis
    using extends_conn_slot [of ?ts "ex\<lparr>ex_owner_task := (ex_owner_task ex)[unat c := Some c]\<rparr>" "unat c" "TaskReady fut" c "[c]"]
    unfolding e by (auto intro: extends_trans)
qed

lemma ex_event_step_ok:
  assumes "sched_ok ex" "ex_event_step dbg ev ex = Ret (Some ex')"
  shows "sched_ok ex'"
proof (cases "\<exists>n poll. ev = EvPass n poll")
  case True
  then show ?thesis using assms sched_ok_pass by auto
next
  case False
  have "extends ex ex'"
  proof (cases ev)
    case (EvSpawn fut)
    then show ?thesis using assms(2) by (cases "ex_spawn fut ex") (auto intro: extends_spawn)
  next
    case (EvAccept c fut)
    then show ?thesis using assms(2) by (cases "ex_spawn_accept dbg c fut ex") (auto intro: extends_spawn_accept)
  qed (use assms(2) False in \<open>auto simp: ex_waker_wake_def ex_cancel_def intro: extends_wake extends_same_slots extends_collect
      extends_st_remove extends_remove_connection extends_wake_recv extends_fail_recv extends_wakers\<close>)
  then show ?thesis by (rule sched_ok_extends [OF assms(1)])
qed

lemma ex_run_ok: "ex_run dbg evs ex = Ret (Some ex') \<Longrightarrow> sched_ok ex \<Longrightarrow> sched_ok ex'"
proof (induction evs arbitrary: ex)
  case (Cons ev evs)
  then obtain ex1 where "ex_event_step dbg ev ex = Ret (Some ex1)" "ex_run dbg evs ex1 = Ret (Some ex')"
    by (cases "ex_event_step dbg ev ex") (auto split: option.splits)
  then show ?case using Cons.IH Cons.prems(2) ex_event_step_ok by blast
qed simp

subsection \<open>Nothing is being polled between events\<close>

lemma idle_wakers [simp]:
  "ex_currently_polling (ex_wake_recv c ex) = ex_currently_polling ex" "ex_currently_polling (ex_wake_send c r ex) = ex_currently_polling ex"
  "ex_currently_polling (ex_wake_connect c r' ex) = ex_currently_polling ex" "ex_currently_polling (ex_wake_udp_recv i ex) = ex_currently_polling ex"
  "ex_currently_polling (ex_wake_udp_send_ready i ex) = ex_currently_polling ex" "ex_currently_polling (ex_wake_disk_io sq v ex) = ex_currently_polling ex"
  "ex_currently_polling (ex_wake_pidfd sq v ex) = ex_currently_polling ex" "ex_currently_polling (snd (ex_deliver_spawn k r'' ex)) = ex_currently_polling ex"
  "ex_currently_polling (ex_deliver_blocking k b ex) = ex_currently_polling ex" "ex_currently_polling (ex_deliver_resolve k d ex) = ex_currently_polling ex"
  by (auto simp: ex_wake_recv_def ex_wake_send_def ex_wake_connect_def ex_wake_udp_recv_def ex_wake_udp_send_ready_def ex_wake_disk_io_def
      ex_wake_pidfd_def ex_deliver_spawn_def ex_deliver_blocking_def ex_deliver_resolve_def Let_def split: option.split)

lemma idle_remove [simp]: "ex_currently_polling (ex_remove_connection c ex) = ex_currently_polling ex"
  by (simp add: ex_remove_connection_def Let_def split: prod.split option.split)

lemma idle_spawn: "ex_spawn fut ex = Ret (r, ex') \<Longrightarrow> ex_currently_polling ex' = ex_currently_polling ex"
  by (cases "st_spawn fut (ex_standalone_slab ex)") (auto simp: ex_spawn_def split: prod.splits option.splits)

lemma idle_accept: "ex_spawn_accept dbg c fut ex = Ret ex' \<Longrightarrow> ex_currently_polling ex' = ex_currently_polling ex"
  by (auto simp: ex_spawn_accept_def task_spawn_def debug_assert_def ensure_def split: if_splits)

lemma idle_poll_future:
  assumes "ex_poll_future poll t fut remove park ex = Ret ex'"
    and "\<And>e. ex_currently_polling (remove e) = ex_currently_polling e"
    and "\<And>f e e'. park f e = Ret e' \<Longrightarrow> ex_currently_polling e' = ex_currently_polling e"
  shows "ex_currently_polling ex' = None"
proof -
  obtain effs res where p: "poll t fut = (effs, res)" by (cases "poll t fut")
  obtain ex1 where ex1: "ex_effects effs (ex\<lparr>ex_currently_polling := Some t, ex_woken_while_polling := False\<rparr>) = Ret ex1"
    using assms(1) p by (cases "ex_effects effs (ex\<lparr>ex_currently_polling := Some t, ex_woken_while_polling := False\<rparr>)")
      (auto simp: ex_poll_future_def)
  show ?thesis
  proof (cases res)
    case (PollPending f)
    then obtain ex3 where "park f (ex1\<lparr>ex_currently_polling := None\<rparr>) = Ret ex3"
      using assms(1) p ex1 by (cases "park f (ex1\<lparr>ex_currently_polling := None\<rparr>)") (auto simp: ex_poll_future_def Let_def)
    then show ?thesis using assms(1) assms(3) [of f "ex1\<lparr>ex_currently_polling := None\<rparr>" ex3] p ex1 PollPending
      by (auto simp: ex_poll_future_def Let_def)
  qed (use assms(1,2) p ex1 in \<open>auto simp: ex_poll_future_def Let_def\<close>)
qed

lemma idle_park:
  "outcome_bind (task_park dbg i f (ex_task_slab e)) (\<lambda>s. Ret (e\<lparr>ex_task_slab := s\<rparr>)) = Ret e' \<Longrightarrow> ex_currently_polling e' = ex_currently_polling e"
  "outcome_bind (st_park dbg i f (ex_standalone_slab e)) (\<lambda>s. Ret (e\<lparr>ex_standalone_slab := s\<rparr>)) = Ret e' \<Longrightarrow> ex_currently_polling e' = ex_currently_polling e"
  by (auto simp: st_park_def task_park_def debug_assert_def ensure_def split: if_splits)

lemma idle_entry:
  assumes "ex_currently_polling ex = None" "ex_poll_entry dbg poll b t ex = Ret ex'"
  shows "ex_currently_polling ex' = None"
proof -
  have s: "ex_poll_standalone dbg poll t e = Ret e' \<Longrightarrow> ex_currently_polling e = None \<Longrightarrow> ex_currently_polling e' = None" for e e'
    unfolding ex_poll_standalone_def Let_def
    by (auto split: prod.splits option.splits elim!: idle_poll_future idle_park(2))
  have c: "ex_poll_conn dbg poll t e = Ret e' \<Longrightarrow> ex_currently_polling e = None \<Longrightarrow> ex_currently_polling e' = None" for e e'
    unfolding ex_poll_conn_def by (auto split: prod.splits option.splits elim!: idle_poll_future idle_park(1))
  show ?thesis
    using assms s [of _ ex'] c [of _ ex'] by (auto simp: ex_poll_entry_def Let_def split: if_splits)
qed

lemma idle_loop:
  "ex_poll_loop n dbg poll L i ex = Ret (Some ex') \<Longrightarrow> ex_currently_polling ex = None \<Longrightarrow> ex_currently_polling ex' = None"
proof (induction n arbitrary: i ex)
  case 0
  then show ?case by (cases "length (ex_ready_queue ex) \<le> i") (auto simp: ex_poll_loop_unfold)
next
  case (Suc n)
  show ?case
  proof (cases "length (ex_ready_queue ex) \<le> i")
    case False
    then obtain ex1 where "ex_poll_entry dbg poll (i < L) (ex_ready_queue ex ! i) ex = Ret ex1" "ex_poll_loop n dbg poll L (Suc i) ex1 = Ret (Some ex')"
      using Suc.prems(1) by (cases "ex_poll_entry dbg poll (i < L) (ex_ready_queue ex ! i) ex") (auto simp: ex_poll_loop_unfold)
    then show ?thesis using Suc.IH idle_entry [OF Suc.prems(2)] by blast
  qed (use Suc.prems in \<open>simp add: ex_poll_loop_unfold\<close>)
qed

lemma fold_set_dedup_idle [simp]:
  "ex_currently_polling (fold (\<lambda>t. set_dedup t False) ts ex) = ex_currently_polling ex"
  "ex_waker_queue (fold (\<lambda>t. set_dedup t False) ts ex) = ex_waker_queue ex"
  "ex_task_slab (fold (\<lambda>t. set_dedup t False) ts ex) = ex_task_slab ex"
  "ex_standalone_slab (fold (\<lambda>t. set_dedup t False) ts ex) = ex_standalone_slab ex"
  by (induction ts arbitrary: ex) simp_all

lemma idle_step:
  assumes "ex_currently_polling ex = None" "ex_event_step dbg ev ex = Ret (Some ex')"
  shows "ex_currently_polling ex' = None"
proof (cases ev)
  case (EvSpawn fut)
  then show ?thesis using assms idle_spawn by (cases "ex_spawn fut ex") fastforce+
next
  case (EvAccept c fut)
  then show ?thesis using assms idle_accept by (cases "ex_spawn_accept dbg c fut ex") fastforce+
next
  case (EvPass n poll)
  then show ?thesis
    using assms
    by (cases "ex_poll_loop n dbg poll (length (ex_ready_queue ex)) 0 ex")
      (auto simp: ex_poll_ready_tasks_def ex_finish_pass_def Let_def intro!: task_slot_collect(3) dest: idle_loop)
qed (use assms in \<open>auto simp: ex_waker_wake_def ex_cancel_def ex_fail_recv_def Let_def task_slot_collect(3)\<close>)

lemma idle_run: "ex_run dbg evs ex = Ret (Some ex') \<Longrightarrow> ex_currently_polling ex = None \<Longrightarrow> ex_currently_polling ex' = None"
proof (induction evs arbitrary: ex)
  case (Cons ev evs)
  then obtain ex1 where "ex_event_step dbg ev ex = Ret (Some ex1)" "ex_run dbg evs ex1 = Ret (Some ex')"
    by (cases "ex_event_step dbg ev ex") (auto split: option.splits)
  then show ?case using Cons.IH Cons.prems(2) idle_step by blast
qed simp

subsection \<open>No lost wake-up\<close>






subsection \<open>A task that wakes itself\<close>

lemma effects_woken:
  assumes "ex_effects effs ex = Ret ex'" "ex_currently_polling ex = Some t"
  shows "ex_currently_polling ex' = Some t" "ex_woken_while_polling ex \<Longrightarrow> ex_woken_while_polling ex'"
    "EffWake t \<in> set effs \<Longrightarrow> ex_woken_while_polling ex'"
    "length (ex_task_slab ex') = length (ex_task_slab ex)"
    "length (st_tasks (ex_standalone_slab ex')) = length (st_tasks (ex_standalone_slab ex))"
proof -
  have w: "ex_woken_while_polling (ex_wake u e) = (ex_woken_while_polling e \<or> ex_currently_polling e = Some u)" for u and e :: "'a Executor"
    by (auto simp: ex_wake_task_def split: prod.splits bool.splits)
  have sp: "ex_woken_while_polling e' = ex_woken_while_polling e" "ex_task_slab e' = ex_task_slab e"
    "length (st_tasks (ex_standalone_slab e')) = length (st_tasks (ex_standalone_slab e))"
    if "ex_spawn fut e = Ret (r, e')" for fut r and e e' :: "'a Executor"
    using that by (auto simp: ex_spawn_def st_spawn_def ensure_def split: option.splits if_splits prod.splits)
  have "ex_currently_polling ex' = Some t \<and> (ex_woken_while_polling ex \<longrightarrow> ex_woken_while_polling ex') \<and>
      (EffWake t \<in> set effs \<longrightarrow> ex_woken_while_polling ex') \<and> length (ex_task_slab ex') = length (ex_task_slab ex) \<and>
      length (st_tasks (ex_standalone_slab ex')) = length (st_tasks (ex_standalone_slab ex))"
    using assms
  proof (induction effs ex rule: ex_effects.induct)
    case (2 u es ex)
    then show ?case by (auto simp: w ex_wake_slabs)
  next
    case (4 fut es ex)
    then obtain r ex1 where e: "ex_spawn fut ex = Ret (r, ex1)" "ex_effects es ex1 = Ret ex'"
      by (cases "ex_spawn fut ex") auto
    then show ?case using 4(1) [OF e(2)] 4(3) idle_spawn [OF e(1)] sp [OF e(1)] by auto
  next
    case (5 i es ex)
    then show ?case by (auto simp: ex_cancel_def st_remove_def split: TaskSlot.splits)
  next
    case (6 v es ex)
    then show ?case by (auto split: option.splits)
  qed (auto simp: ex_waker_wake_def)
  then show "ex_currently_polling ex' = Some t" "ex_woken_while_polling ex \<Longrightarrow> ex_woken_while_polling ex'"
    "EffWake t \<in> set effs \<Longrightarrow> ex_woken_while_polling ex'" "length (ex_task_slab ex') = length (ex_task_slab ex)"
    "length (st_tasks (ex_standalone_slab ex')) = length (st_tasks (ex_standalone_slab ex))" by auto
qed

text \<open>Taking the future of a ready task out of its slot, and parking one, by task id.\<close>

definition poll_at :: "profile \<Rightarrow> 'f poller \<Rightarrow> u32 \<Rightarrow> 'f Executor \<Rightarrow> 'f Executor outcome" where
  "poll_at dbg poll t ex = (if is_standalone t then ex_poll_standalone dbg poll t ex else ex_poll_conn dbg poll t ex)"

definition park_at :: "u32 \<Rightarrow> 'f \<Rightarrow> 'f Executor \<Rightarrow> 'f Executor" where
  "park_at t f ex =
     (if is_standalone t
      then ex\<lparr>ex_standalone_slab := (ex_standalone_slab ex)\<lparr>st_tasks := (st_tasks (ex_standalone_slab ex))[standalone_idx t := TaskParked f]\<rparr>\<rparr>
      else ex\<lparr>ex_task_slab := (ex_task_slab ex)[unat t := TaskParked f]\<rparr>)"

lemma park_at_fields [simp]:
  "ex_currently_polling (park_at t f ex) = ex_currently_polling ex" "ex_woken_while_polling (park_at t f ex) = ex_woken_while_polling ex"
  "ex_ready_queue (park_at t f ex) = ex_ready_queue ex" "ex_waker_queue (park_at t f ex) = ex_waker_queue ex"
  by (simp_all add: park_at_def)

lemma task_slot_park_at:
  "u \<noteq> t \<Longrightarrow> task_slot u (park_at t f ex) = task_slot u ex"
  "(if is_standalone t then standalone_idx t < length (st_tasks (ex_standalone_slab ex)) else unat t < length (ex_task_slab ex)) \<Longrightarrow>
   task_slot t (park_at t f ex) = TaskParked f"
  using standalone_inj [of t u] conn_inj [of t u] by (auto simp: park_at_def task_slot_def)

text \<open>A poll that returns \<open>Pending\<close>, written out.\<close>

lemma poll_at_pending:
  assumes slot: "task_slot t ex = TaskReady f" and p: "poll t f = (effs, PollPending f')"
    and eff: "ex_effects effs ((taken t ex)\<lparr>ex_currently_polling := Some t, ex_woken_while_polling := False\<rparr>) = Ret ex1"
  defines "ex2 \<equiv> park_at t f' (ex1\<lparr>ex_currently_polling := None\<rparr>)"
  shows "poll_at dbg poll t ex = Ret (if ex_woken_while_polling ex1 then ex_wake t ex2 else ex2)"
    and "task_slot t ex2 = TaskParked f'"
proof -
  let ?ex0 = "(taken t ex)\<lparr>ex_currently_polling := Some t, ex_woken_while_polling := False\<rparr>"
  note len = effects_woken(4,5) [OF eff, of t, simplified]
  have st: "length (st_tasks (ex_standalone_slab (taken t ex))) = length (st_tasks (ex_standalone_slab ex))"
    "length (ex_task_slab (taken t ex)) = length (ex_task_slab ex)"
    by (simp_all add: taken_def st_take_ready_def split: prod.split, metis snd_conv task_lengths(2))
  show "poll_at dbg poll t ex = Ret (if ex_woken_while_polling ex1 then ex_wake t ex2 else ex2)"
  proof (cases "is_standalone t")
    case True
    then have r: "standalone_idx t < length (st_tasks (ex_standalone_slab ex))" "st_tasks (ex_standalone_slab ex) ! standalone_idx t = TaskReady f"
      using slot by (auto simp: task_slot_def split: if_splits)
    have tk: "st_take_ready (standalone_idx t) (ex_standalone_slab ex) = (Some f, ex_standalone_slab (taken t ex))"
      using r True by (simp add: taken_def st_take_ready_def task_take_ready_def)
    have "taken t ex = ex\<lparr>ex_standalone_slab := ex_standalone_slab (taken t ex)\<rparr>" using True by (simp add: taken_def)
    then show ?thesis
      using True tk p eff r len st
      by (simp add: poll_at_def ex_poll_standalone_def Let_def ex_poll_future_def st_park_def task_park_def debug_assert_def ex2_def park_at_def)
  next
    case False
    then have r: "unat t < length (ex_task_slab ex)" "ex_task_slab ex ! unat t = TaskReady f"
      using slot by (auto simp: task_slot_def split: if_splits)
    have tk: "task_take_ready (unat t) (ex_task_slab ex) = (Some f, ex_task_slab (taken t ex))"
      using r False by (simp add: taken_def task_take_ready_def)
    have "taken t ex = ex\<lparr>ex_task_slab := ex_task_slab (taken t ex)\<rparr>" using False by (simp add: taken_def)
    then show ?thesis
      using False tk p eff r len st
      by (simp add: poll_at_def ex_poll_conn_def Let_def ex_poll_future_def task_park_def debug_assert_def ex2_def park_at_def)
  qed
  show "task_slot t ex2 = TaskParked f'"
    unfolding ex2_def using slot len st by (intro task_slot_park_at(2)) (auto simp: task_slot_def split: if_splits)
qed

lemma poll_at_effects:
  assumes slot: "task_slot t ex = TaskReady f" and p: "poll t f = (effs, PollPending f')" and r: "poll_at dbg poll t ex = Ret ex'"
  shows "\<exists>ex1. ex_effects effs ((taken t ex)\<lparr>ex_currently_polling := Some t, ex_woken_while_polling := False\<rparr>) = Ret ex1"
proof (cases "is_standalone t")
  case True
  then have "st_take_ready (standalone_idx t) (ex_standalone_slab ex) = (Some f, ex_standalone_slab (taken t ex))"
    using slot by (auto simp: task_slot_def taken_def st_take_ready_def task_take_ready_def split: if_splits)
  moreover have "taken t ex = ex\<lparr>ex_standalone_slab := ex_standalone_slab (taken t ex)\<rparr>" using True by (simp add: taken_def)
  ultimately show ?thesis
    using True p r by (cases "ex_effects effs ((taken t ex)\<lparr>ex_currently_polling := Some t, ex_woken_while_polling := False\<rparr>)")
      (simp_all add: poll_at_def ex_poll_standalone_def Let_def ex_poll_future_def)
next
  case False
  then have "task_take_ready (unat t) (ex_task_slab ex) = (Some f, ex_task_slab (taken t ex))"
    using slot by (auto simp: task_slot_def taken_def task_take_ready_def split: if_splits)
  moreover have "taken t ex = ex\<lparr>ex_task_slab := ex_task_slab (taken t ex)\<rparr>" using False by (simp add: taken_def)
  ultimately show ?thesis
    using False p r by (cases "ex_effects effs ((taken t ex)\<lparr>ex_currently_polling := Some t, ex_woken_while_polling := False\<rparr>)")
      (simp_all add: poll_at_def ex_poll_conn_def Let_def ex_poll_future_def)
qed

lemma entry_polls:
  "\<not> (b \<and> dedup_bit t ex) \<Longrightarrow> ex_poll_entry dbg poll b t ex = poll_at dbg poll t (if b then set_dedup t True ex else ex)"
  by (auto simp: ex_poll_entry_def poll_at_def Let_def)

lemma task_slot_set_dedup [simp]: "task_slot u (set_dedup t b ex) = task_slot u ex"
  by (simp add: task_slot_def)

text \<open>
  C15. A ready task whose poll wakes the task itself and returns Pending is ready again and
  queued when the poll loop moves on: the wake that reached it while its slot read Polling is
  not lost.
\<close>

theorem self_wake_requeues:
  assumes slot: "task_slot t ex = TaskReady f" and poll: "poll t f = (effs, PollPending f')" and wake: "EffWake t \<in> set effs"
    and "\<not> (b \<and> dedup_bit t ex)" and r: "ex_poll_entry dbg poll b t ex = Ret ex'"
  shows "task_slot t ex' = TaskReady f' \<and> t \<in> set (ex_ready_queue ex')"
proof -
  let ?ex = "if b then set_dedup t True ex else ex"
  have slot': "task_slot t ?ex = TaskReady f" and r': "poll_at dbg poll t ?ex = Ret ex'"
    using slot r entry_polls [OF assms(4)] by simp_all
  obtain ex1 where ex1: "ex_effects effs ((taken t ?ex)\<lparr>ex_currently_polling := Some t, ex_woken_while_polling := False\<rparr>) = Ret ex1"
    using poll_at_effects [OF slot' poll r'] by blast
  let ?ex2 = "park_at t f' (ex1\<lparr>ex_currently_polling := None\<rparr>)"
  have "ex_woken_while_polling ex1" using effects_woken(3) [OF ex1 _ wake] by simp
  then have e: "ex' = ex_wake t ?ex2" using poll_at_pending(1) [where poll = poll, OF slot' poll ex1, of dbg] r' by simp
  have s2: "task_slot t ?ex2 = TaskParked f'" by (rule poll_at_pending(2) [where poll = poll, OF slot' poll ex1])
  then show ?thesis unfolding e using ex_wake_queues [OF _ s2] by (simp add: task_slot_wake)
qed

definition self_waker :: "nat poller" where
  "self_waker t f = ([EffSpawn 7, EffWake t], PollPending (f + 1))"

theorem self_wake_requeues_witness:
  "case ex_spawn_accept True 1 3 (ex_new 2 1 0) of
     Ret ex \<Rightarrow> (case ex_poll_entry True self_waker True 1 ex of Ret ex' \<Rightarrow> task_slot 1 ex' = TaskReady 4 \<and> 1 \<in> set (ex_ready_queue ex') | _ \<Rightarrow> False)
   | _ \<Rightarrow> False"
proof -
  have "case ex_spawn_accept True 1 3 (ex_new 2 1 0) of
     Ret ex \<Rightarrow> (case ex_poll_entry True self_waker True 1 ex of Ret ex' \<Rightarrow> task_slot 1 ex = TaskReady 3 \<and> \<not> dedup_bit 1 ex | _ \<Rightarrow> False)
   | _ \<Rightarrow> False" by code_simp
  then obtain ex ex' where e: "ex_spawn_accept True 1 3 (ex_new 2 1 0) = Ret ex" "ex_poll_entry True self_waker True 1 ex = Ret ex'"
    "task_slot 1 ex = TaskReady 3" "\<not> dedup_bit 1 ex" by (auto split: outcome.splits)
  have "task_slot 1 ex' = TaskReady 4 \<and> 1 \<in> set (ex_ready_queue ex')"
    by (rule self_wake_requeues [OF e(3) _ _ _ e(2), of "[EffSpawn 7, EffWake 1]"]) (simp_all add: self_waker_def e(4))
  then show ?thesis by (simp only: e(1,2) outcome.case)
qed

subsection \<open>A pass over tasks that yield\<close>

lemma effects_wakers: "ex_effects (map EffWaker ws) ex = Ret (ex\<lparr>ex_waker_queue := ex_waker_queue ex @ ws\<rparr>)"
  by (induction ws arbitrary: ex) (simp_all add: ex_waker_wake_def)

lemma task_slot_taken: "task_slot u (taken t ex) = (if u = t \<and> is_ready (task_slot t ex) then TaskPolling else task_slot u ex)"
proof (cases "is_standalone t")
  case True
  have "is_standalone u \<Longrightarrow> standalone_idx t = standalone_idx u \<longleftrightarrow> u = t" using standalone_inj [of t u] True by auto
  then show ?thesis using True
    by (auto simp: taken_def task_slot_def st_take_ready_def task_take_ready_def split: TaskSlot.split)
next
  case False
  then show ?thesis using conn_inj [of t u]
    by (auto simp: taken_def task_slot_def task_take_ready_def split: TaskSlot.split)
qed

lemma taken_idle [simp]: "ex_currently_polling (taken t ex) = ex_currently_polling ex" "ex_waker_queue (taken t ex) = ex_waker_queue ex"
  by (simp_all add: taken_def)

lemma poll_at_not_ready: "\<not> is_ready (task_slot t ex) \<Longrightarrow> poll_at dbg poll t ex = Ret (taken t ex)"
  by (auto simp: poll_at_def ex_poll_standalone_def ex_poll_conn_def taken_def task_slot_def st_take_ready_def task_take_ready_def
      Let_def split: if_splits TaskSlot.splits)

abbreviation yielder :: "(u32 \<Rightarrow> 'f \<Rightarrow> u32 list) \<Rightarrow> (u32 \<Rightarrow> 'f \<Rightarrow> 'f) \<Rightarrow> 'f poller" where
  "yielder wk nxt \<equiv> \<lambda>t f. (map EffWaker (wk t f), PollPending (nxt t f))"

text \<open>One step of a pass over yielding tasks.\<close>

lemma yield_entry:
  assumes "ex_currently_polling ex = None"
  shows "\<exists>ex'. ex_poll_entry dbg (yielder wk nxt) b t ex = Ret ex' \<and> ex_currently_polling ex' = None \<and>
    ex_ready_queue ex' = ex_ready_queue ex \<and> (\<forall>u. dedup_bit u ex' \<longrightarrow> dedup_bit u ex \<or> u = t) \<and>
    (if b \<and> dedup_bit t ex \<or> \<not> is_ready (task_slot t ex)
     then ex_waker_queue ex' = ex_waker_queue ex \<and> (\<forall>u. task_slot u ex' = task_slot u ex)
     else \<exists>f. task_slot t ex = TaskReady f \<and> ex_waker_queue ex' = ex_waker_queue ex @ wk t f \<and>
       (\<forall>u. task_slot u ex' = (if u = t then TaskParked (nxt t f) else task_slot u ex)))"
proof (cases "b \<and> dedup_bit t ex")
  case True
  then show ?thesis using assms by (simp add: ex_poll_entry_def)
next
  case False
  let ?ex1 = "if b then set_dedup t True ex else ex"
  have d1: "dedup_bit u ?ex1 \<longrightarrow> dedup_bit u ex \<or> u = t" for u using dedup_bit_set(1) by auto
  have f1: "ex_currently_polling ?ex1 = None" "ex_ready_queue ?ex1 = ex_ready_queue ex" "ex_waker_queue ?ex1 = ex_waker_queue ex"
    "\<And>u. task_slot u ?ex1 = task_slot u ex" using assms by simp_all
  note e = entry_polls [OF False, of dbg "yielder wk nxt"]
  show ?thesis
  proof (cases "is_ready (task_slot t ex)")
    case False
    have "\<And>u. dedup_bit u (taken t ?ex1) = dedup_bit u ?ex1" by (rule dedup_bit_cong) simp_all
    then show ?thesis using e poll_at_not_ready [of t ?ex1] False f1 d1
      by (intro exI [of _ "taken t ?ex1"]) (simp add: task_slot_taken)
  next
    case True
    then obtain f where f: "task_slot t ex = TaskReady f" by (cases "task_slot t ex") auto
    then have f': "task_slot t ?ex1 = TaskReady f" using f1 by simp
    let ?ex0 = "(taken t ?ex1)\<lparr>ex_currently_polling := Some t, ex_woken_while_polling := False\<rparr>"
    let ?ex2 = "park_at t (nxt t f) (?ex0\<lparr>ex_waker_queue := ex_waker_queue ?ex0 @ wk t f, ex_currently_polling := None\<rparr>)"
    note pp = poll_at_pending [where poll = "yielder wk nxt", OF f' refl effects_wakers]
    have slots: "task_slot u ?ex2 = (if u = t then TaskParked (nxt t f) else task_slot u ex)" for u
    proof (cases "u = t")
      case True
      then show ?thesis using pp(2) by simp
    next
      case False
      have "task_slot u (?ex0\<lparr>ex_waker_queue := ex_waker_queue ?ex0 @ wk t f, ex_currently_polling := None\<rparr>) = task_slot u (taken t ?ex1)"
        by (simp add: task_slot_def)
      then show ?thesis using False f1(4) by (simp add: task_slot_park_at(1) task_slot_taken)
    qed
    have "dedup_bit u ?ex2 = dedup_bit u ?ex1" for u by (rule dedup_bit_cong) (simp_all add: park_at_def)
    then show ?thesis using e pp(1) [of dbg] f slots f1 d1 False by (intro exI [of _ ?ex2]) (simp, blast)
  qed
qed

text \<open>The slots and the wakers of a pass that has handled the first \<open>i\<close> entries of its queue \<open>q\<close>.\<close>

definition yielded :: "(u32 \<Rightarrow> 'f \<Rightarrow> 'f) \<Rightarrow> u32 \<Rightarrow> 'f TaskSlot \<Rightarrow> 'f TaskSlot" where
  "yielded nxt t s = (case s of TaskReady f \<Rightarrow> TaskParked (nxt t f) | _ \<Rightarrow> s)"

definition yield_inv ::
  "(u32 \<Rightarrow> 'f \<Rightarrow> u32 list) \<Rightarrow> (u32 \<Rightarrow> 'f \<Rightarrow> 'f) \<Rightarrow> 'f Executor \<Rightarrow> nat \<Rightarrow> 'f Executor \<Rightarrow> bool" where
  "yield_inv wk nxt ex0 i ex \<longleftrightarrow>
     ex_currently_polling ex = None \<and> ex_ready_queue ex = ex_ready_queue ex0 \<and>
     (\<forall>u. dedup_bit u ex \<longrightarrow> u \<in> set (take i (ex_ready_queue ex0))) \<and>
     (\<forall>u. task_slot u ex = (if u \<in> set (take i (ex_ready_queue ex0)) then yielded nxt u (task_slot u ex0) else task_slot u ex0)) \<and>
     (\<forall>u f. u \<in> set (take i (ex_ready_queue ex0)) \<longrightarrow> task_slot u ex0 = TaskReady f \<longrightarrow> set (wk u f) \<subseteq> set (ex_waker_queue ex))"

lemma yielded_not_ready: "\<not> is_ready (yielded nxt t s)" "\<not> is_ready s \<Longrightarrow> yielded nxt t s = s"
  by (auto simp: yielded_def split: TaskSlot.split)

lemma yield_inv_entry:
  assumes inv: "yield_inv wk nxt ex0 i ex" and i: "i < length (ex_ready_queue ex0)"
  shows "\<exists>ex'. ex_poll_entry dbg (yielder wk nxt) b (ex_ready_queue ex ! i) ex = Ret ex' \<and> yield_inv wk nxt ex0 (Suc i) ex'"
proof -
  let ?q = "ex_ready_queue ex0" and ?t = "ex_ready_queue ex0 ! i"
  have idle: "ex_currently_polling ex = None" and q: "ex_ready_queue ex = ?q"
    and dd: "\<And>u. dedup_bit u ex \<Longrightarrow> u \<in> set (take i ?q)"
    and sl: "\<And>u. task_slot u ex = (if u \<in> set (take i ?q) then yielded nxt u (task_slot u ex0) else task_slot u ex0)"
    and wq: "\<And>u f. u \<in> set (take i ?q) \<Longrightarrow> task_slot u ex0 = TaskReady f \<Longrightarrow> set (wk u f) \<subseteq> set (ex_waker_queue ex)"
    using inv unfolding yield_inv_def by blast+
  have tk: "set (take (Suc i) ?q) = insert ?t (set (take i ?q))" using i by (simp add: take_Suc_conv_app_nth)
  obtain ex' where e: "ex_poll_entry dbg (yielder wk nxt) b ?t ex = Ret ex'" "ex_currently_polling ex' = None"
    "ex_ready_queue ex' = ?q" "\<forall>u. dedup_bit u ex' \<longrightarrow> dedup_bit u ex \<or> u = ?t"
    and step: "if b \<and> dedup_bit ?t ex \<or> \<not> is_ready (task_slot ?t ex)
     then ex_waker_queue ex' = ex_waker_queue ex \<and> (\<forall>u. task_slot u ex' = task_slot u ex)
     else \<exists>f. task_slot ?t ex = TaskReady f \<and> ex_waker_queue ex' = ex_waker_queue ex @ wk ?t f \<and>
       (\<forall>u. task_slot u ex' = (if u = ?t then TaskParked (nxt ?t f) else task_slot u ex))"
    using yield_entry [OF idle, of dbg wk nxt b ?t] unfolding q by (elim exE conjE) (rule that)
  have D: "\<forall>u. dedup_bit u ex' \<longrightarrow> u \<in> set (take (Suc i) ?q)" using e(4) dd tk by blast
  show ?thesis
  proof (cases "is_ready (task_slot ?t ex)")
    case True
    then have new: "?t \<notin> set (take i ?q)" using sl [of ?t] by (auto simp: yielded_not_ready(1))
    then have nd: "\<not> dedup_bit ?t ex" using dd by blast
    obtain f where f: "task_slot ?t ex = TaskReady f" "ex_waker_queue ex' = ex_waker_queue ex @ wk ?t f"
      "\<And>u. task_slot u ex' = (if u = ?t then TaskParked (nxt ?t f) else task_slot u ex)"
      using step True nd by auto
    have f0: "task_slot ?t ex0 = TaskReady f" using f(1) sl [of ?t] new by simp
    have S: "\<forall>u. task_slot u ex' = (if u \<in> set (take (Suc i) ?q) then yielded nxt u (task_slot u ex0) else task_slot u ex0)"
      using f(3) f0 sl by (simp add: tk yielded_def)
    have W: "\<forall>u g. u \<in> set (take (Suc i) ?q) \<longrightarrow> task_slot u ex0 = TaskReady g \<longrightarrow> set (wk u g) \<subseteq> set (ex_waker_queue ex')"
    proof (intro allI impI)
      fix u g assume "u \<in> set (take (Suc i) ?q)" "task_slot u ex0 = TaskReady g"
      then show "set (wk u g) \<subseteq> set (ex_waker_queue ex')"
        using f(2) f0 wq [of u g] unfolding tk by (cases "u = ?t") auto
    qed
    show ?thesis unfolding yield_inv_def q by (intro exI [of _ ex'] conjI e(1-3) D S W)
  next
    case False
    then have eq: "ex_waker_queue ex' = ex_waker_queue ex" "\<And>u. task_slot u ex' = task_slot u ex" using step by auto
    have t0: "?t \<notin> set (take i ?q) \<Longrightarrow> \<not> is_ready (task_slot ?t ex0)" using False sl [of ?t] by simp
    have S: "\<forall>u. task_slot u ex' = (if u \<in> set (take (Suc i) ?q) then yielded nxt u (task_slot u ex0) else task_slot u ex0)"
      using eq(2) sl t0 by (simp add: tk yielded_not_ready(2))
    have W: "\<forall>u g. u \<in> set (take (Suc i) ?q) \<longrightarrow> task_slot u ex0 = TaskReady g \<longrightarrow> set (wk u g) \<subseteq> set (ex_waker_queue ex')"
    proof (intro allI impI)
      fix u g assume "u \<in> set (take (Suc i) ?q)" "task_slot u ex0 = TaskReady g"
      then show "set (wk u g) \<subseteq> set (ex_waker_queue ex')"
        using eq(1) wq [of u g] t0 unfolding tk by (cases "u = ?t") auto
    qed
    show ?thesis unfolding yield_inv_def q by (intro exI [of _ ex'] conjI e(1-3) D S W)
  qed
qed

lemma yield_loop:
  assumes "yield_inv wk nxt ex0 i ex" "i \<le> length (ex_ready_queue ex0)" "length (ex_ready_queue ex0) - i \<le> n"
  shows "\<exists>ex'. ex_poll_loop n dbg (yielder wk nxt) L i ex = Ret (Some ex') \<and> yield_inv wk nxt ex0 (length (ex_ready_queue ex0)) ex'"
  using assms
proof (induction n arbitrary: i ex)
  case 0
  then show ?case by (auto simp: ex_poll_loop_unfold yield_inv_def)
next
  case (Suc n)
  have q: "ex_ready_queue ex = ex_ready_queue ex0" using Suc.prems(1) by (simp add: yield_inv_def)
  show ?case
  proof (cases "length (ex_ready_queue ex0) \<le> i")
    case True
    then show ?thesis using Suc.prems q by (auto simp: ex_poll_loop_unfold)
  next
    case False
    then obtain ex1 where "ex_poll_entry dbg (yielder wk nxt) (i < L) (ex_ready_queue ex ! i) ex = Ret ex1" "yield_inv wk nxt ex0 (Suc i) ex1"
      using yield_inv_entry [OF Suc.prems(1), of dbg "i < L"] by auto
    then show ?thesis using Suc.IH [of "Suc i" ex1] Suc.prems False q by (simp add: ex_poll_loop_unfold)
  qed
qed

text \<open>
  C16. A pass over tasks that only yield, that is fire standard wakers and return Pending, ends:
  as many loop iterations as the queue has entries at the start are enough, whatever the tasks
  wake. Every task that was ready is polled exactly once in the pass, and one that fired its own
  waker is ready for the next pass; the waker queue has been drained.
\<close>

theorem yielding_pass_polls_once:
  assumes "ex_run dbg evs (ex_new m s u) = Ret (Some ex)"
  shows "\<exists>ex'. ex_poll_ready_tasks (length (ex_ready_queue ex)) dbg (\<lambda>t f. (map EffWaker (wk t f), PollPending (nxt t f))) ex = Ret (Some ex') \<and>
    ex_waker_queue ex' = [] \<and>
    (\<forall>t f. task_slot t ex = TaskReady f \<longrightarrow>
       task_slot t ex' = TaskReady (nxt t f) \<or> task_slot t ex' = TaskParked (nxt t f) \<and> t \<notin> set (wk t f))"
proof -
  let ?q = "ex_ready_queue ex"
  have ok: "sched_ok ex" using ex_run_ok [OF assms sched_ok_new] .
  have idle: "ex_currently_polling ex = None" using idle_run [OF assms] by (simp add: ex_new_def)
  have "yield_inv wk nxt ex 0 ex" using ok idle by (simp add: yield_inv_def sched_ok_def)
  then obtain ex1 where l: "ex_poll_loop (length ?q) dbg (yielder wk nxt) (length ?q) 0 ex = Ret (Some ex1)"
    and inv: "yield_inv wk nxt ex (length ?q) ex1" using yield_loop [of wk nxt ex 0 ex "length ?q"] by auto
  define ex2 where "ex2 = (fold (\<lambda>t. set_dedup t False) (take (min (length ?q) (length (ex_ready_queue ex1))) (ex_ready_queue ex1)) ex1)\<lparr>ex_ready_queue := []\<rparr>"
  have s2: "task_slot t ex2 = task_slot t ex1" for t by (simp add: ex2_def task_slot_def)
  have f2: "ex_currently_polling ex2 = None" "ex_waker_queue ex2 = ex_waker_queue ex1" using inv by (simp_all add: ex2_def yield_inv_def)
  have r: "ex_poll_ready_tasks (length ?q) dbg (yielder wk nxt) ex = Ret (Some (ex_collect_wakeups ex2))"
    using l by (simp add: ex_poll_ready_tasks_def ex_finish_pass_def ex2_def Let_def)
  have "task_slot t (ex_collect_wakeups ex2) = TaskReady (nxt t f) \<or> task_slot t (ex_collect_wakeups ex2) = TaskParked (nxt t f) \<and> t \<notin> set (wk t f)"
    if f: "task_slot t ex = TaskReady f" for t f
  proof -
    have "t \<in> set ?q" using ok f by (simp add: sched_ok_def task_ready_def)
    then have "task_slot t ex1 = TaskParked (nxt t f)" "set (wk t f) \<subseteq> set (ex_waker_queue ex1)"
      using inv f by (auto simp: yield_inv_def yielded_def)
    then show ?thesis using task_slot_collect(1) [OF f2(1), of t] f2(2) s2 by auto
  qed
  then show ?thesis using r task_slot_collect(2) [OF f2(1)] by blast
qed

theorem yielding_pass_polls_once_witness:
  "case ex_run True [EvSpawn (5 :: nat), EvAccept 1 8, EvWaker 1] (ex_new 2 1 0) of
     Ret (Some ex) \<Rightarrow> length (ex_ready_queue ex) = 2 \<and>
       (\<exists>ex'. ex_poll_ready_tasks 2 True (\<lambda>t f. (map EffWaker [t, 0], PollPending (f + 1))) ex = Ret (Some ex') \<and> task_slot 1 ex' = TaskReady 9)
   | _ \<Rightarrow> False"
proof -
  let ?r = "ex_run True [EvSpawn (5 :: nat), EvAccept 1 8, EvWaker 1] (ex_new 2 1 0)"
  have "case ?r of Ret (Some ex) \<Rightarrow> length (ex_ready_queue ex) = 2 \<and> task_slot 1 ex = TaskReady 8 | _ \<Rightarrow> False" by code_simp
  then obtain ex where e: "?r = Ret (Some ex)" "length (ex_ready_queue ex) = 2" "task_slot 1 ex = TaskReady 8"
    by (auto split: outcome.splits option.splits)
  obtain ex' where p: "ex_poll_ready_tasks 2 True (\<lambda>t f. (map EffWaker [t, 0], PollPending (f + 1))) ex = Ret (Some ex')"
    and c: "\<forall>t f. task_slot t ex = TaskReady f \<longrightarrow> task_slot t ex' = TaskReady (f + 1) \<or> task_slot t ex' = TaskParked (f + 1) \<and> t \<notin> set [t, 0]"
    using yielding_pass_polls_once [OF e(1), of "\<lambda>t f. [t, 0]" "\<lambda>t f. f + 1"] unfolding e(2) by blast
  have "task_slot 1 ex' = TaskReady (8 + 1)" using c e(3) by fastforce
  then have "task_slot 1 ex' = TaskReady 9" by simp
  then show ?thesis unfolding e(1) using e(2) p by auto
qed

end
