(* ===== verification/Channel.thy ===== *)
theory Channel
  imports Executor "HOL-Library.AList"
begin

section \<open>Channels between tasks\<close>

text \<open>
  The \<open>oneshot\<close> and bounded \<open>mpsc\<close> channels of \<open>runtime/channel.rs\<close>. The shared \<open>Rc<RefCell<State>>\<close> is the state
  record, with the strong count of the \<open>Rc\<close> as a field; dropping a handle runs its \<open>Drop\<close> body and then lowers the count.
  Every operation also returns the tasks it wakes, in order: \<open>wake_waiter\<close> hands each of them to the executor.
\<close>

datatype 'a Poll = Poll_Pending | Poll_Ready 'a
datatype TryRecvError = Recv_Empty | Recv_Disconnected
datatype 'a TrySendError = Send_Full 'a | Send_Disconnected 'a

fun wake_waiter :: "u32 option \<Rightarrow> u32 list" where
  "wake_waiter None = []"
| "wake_waiter (Some task) = [task]"

definition deliver_wakes :: "u32 list \<Rightarrow> 'f Executor \<Rightarrow> 'f Executor" where
  "deliver_wakes = fold ex_wake"

fun pop_front :: "'a list \<Rightarrow> 'a option \<times> 'a list" where
  "pop_front [] = (None, [])"
| "pop_front (x # xs) = (Some x, xs)"

subsection \<open>Oneshot\<close>

record 'a oneshot =
  os_value :: "'a option"
  os_recv_waiter :: "u32 option"
  os_closed :: bool
  os_strong :: nat

definition oneshot_channel :: "'a oneshot" where
  "oneshot_channel = \<lparr>os_value = None, os_recv_waiter = None, os_closed = False, os_strong = 2\<rparr>"

text \<open>Dropping a sender that has not sent; \<open>send\<close> consumes the sender, so that it is dropped at its end.\<close>

definition os_sender_drop :: "'a oneshot \<Rightarrow> 'a oneshot \<times> u32 list" where
  "os_sender_drop s =
     (s\<lparr>os_closed := True, os_recv_waiter := None, os_strong := os_strong s - 1\<rparr>, wake_waiter (os_recv_waiter s))"

definition os_send :: "'a \<Rightarrow> 'a oneshot \<Rightarrow> ('a + unit) \<times> 'a oneshot \<times> u32 list" where
  "os_send v s =
     (if os_strong s = 1 then (Inl v, os_sender_drop s)
      else (Inr (), s\<lparr>os_value := Some v, os_recv_waiter := None, os_strong := os_strong s - 1\<rparr>, wake_waiter (os_recv_waiter s)))"

definition os_try_recv :: "'a oneshot \<Rightarrow> (TryRecvError + 'a) \<times> 'a oneshot" where
  "os_try_recv s =
     (case os_value s of
        Some v \<Rightarrow> (Inr v, s\<lparr>os_value := None\<rparr>)
      | None \<Rightarrow> (Inl (if os_closed s then Recv_Disconnected else Recv_Empty), s))"

definition os_poll :: "u32 \<Rightarrow> 'a oneshot \<Rightarrow> (unit + 'a) Poll \<times> 'a oneshot" where
  "os_poll task s =
     (case os_value s of
        Some v \<Rightarrow> (Poll_Ready (Inr v), s\<lparr>os_value := None\<rparr>)
      | None \<Rightarrow>
          if os_closed s then (Poll_Ready (Inl ()), s)
          else (Poll_Pending, s\<lparr>os_recv_waiter := Some task\<rparr>))"

definition os_receiver_drop :: "'a oneshot \<Rightarrow> 'a oneshot" where
  "os_receiver_drop s = s\<lparr>os_strong := os_strong s - 1\<rparr>"

subsection \<open>Bounded mpsc\<close>

record 'a mpsc =
  mp_queue :: "'a list"
  mp_capacity :: nat
  mp_recv_waiter :: "u32 option"
  mp_send_waiters :: "u32 list"
  mp_sender_count :: nat
  mp_strong :: nat

record 'a SendFuture =
  sf_value :: "'a option"
  sf_registered :: "u32 option"

definition mpsc_channel :: "nat \<Rightarrow> 'a mpsc outcome" where
  "mpsc_channel capacity = ensure (0 < capacity)
     (Ret \<lparr>mp_queue = [], mp_capacity = capacity, mp_recv_waiter = None, mp_send_waiters = [], mp_sender_count = 1, mp_strong = 2\<rparr>)"

definition receiver_gone :: "'a mpsc \<Rightarrow> bool" where
  "receiver_gone s \<longleftrightarrow> mp_strong s \<le> mp_sender_count s"

text \<open>Queueing a value takes the receiver's registration and wakes it.\<close>

definition mp_push :: "'a \<Rightarrow> 'a mpsc \<Rightarrow> 'a mpsc \<times> u32 list" where
  "mp_push v s = (s\<lparr>mp_queue := mp_queue s @ [v], mp_recv_waiter := None\<rparr>, wake_waiter (mp_recv_waiter s))"

definition mp_try_send :: "'a \<Rightarrow> 'a mpsc \<Rightarrow> ('a TrySendError + unit) \<times> 'a mpsc \<times> u32 list" where
  "mp_try_send v s =
     (if receiver_gone s then (Inl (Send_Disconnected v), s, [])
      else if mp_capacity s \<le> length (mp_queue s) then (Inl (Send_Full v), s, [])
      else (Inr (), mp_push v s))"

definition mp_send :: "'a \<Rightarrow> 'a SendFuture" where
  "mp_send v = \<lparr>sf_value = Some v, sf_registered = None\<rparr>"

definition mp_sender_clone :: "'a mpsc \<Rightarrow> 'a mpsc" where
  "mp_sender_clone s = s\<lparr>mp_sender_count := mp_sender_count s + 1, mp_strong := mp_strong s + 1\<rparr>"

definition mp_sender_drop :: "profile \<Rightarrow> 'a mpsc \<Rightarrow> ('a mpsc \<times> u32 list) outcome" where
  "mp_sender_drop dbg s =
     uint_sub 64 dbg (mp_sender_count s) 1 (\<lambda>n.
       let s1 = s\<lparr>mp_sender_count := n, mp_strong := mp_strong s - 1\<rparr> in
       Ret (if n = 0 then (s1\<lparr>mp_recv_waiter := None\<rparr>, wake_waiter (mp_recv_waiter s1)) else (s1, [])))"

definition mp_send_poll :: "u32 \<Rightarrow> 'a SendFuture \<Rightarrow> 'a mpsc \<Rightarrow> (('a + unit) Poll \<times> 'a SendFuture \<times> 'a mpsc \<times> u32 list) outcome" where
  "mp_send_poll task f s =
     (if receiver_gone s then
        (case sf_value f of None \<Rightarrow> Panic | Some v \<Rightarrow> Ret (Poll_Ready (Inl v), f\<lparr>sf_value := None\<rparr>, s, []))
      else if length (mp_queue s) < mp_capacity s then
        (case sf_value f of None \<Rightarrow> Panic
         | Some v \<Rightarrow> Ret (Poll_Ready (Inr ()), f\<lparr>sf_value := None, sf_registered := None\<rparr>, mp_push v s))
      else if sf_registered f \<noteq> Some task then
        Ret (Poll_Pending, f\<lparr>sf_registered := Some task\<rparr>, s\<lparr>mp_send_waiters := mp_send_waiters s @ [task]\<rparr>, [])
      else Ret (Poll_Pending, f, s, []))"

definition mp_send_drop :: "'a SendFuture \<Rightarrow> 'a mpsc \<Rightarrow> 'a mpsc \<times> u32 list" where
  "mp_send_drop f s =
     (case sf_registered f of
        None \<Rightarrow> (s, [])
      | Some task \<Rightarrow>
          if task \<in> set (mp_send_waiters s) then (s\<lparr>mp_send_waiters := remove1 task (mp_send_waiters s)\<rparr>, [])
          else case pop_front (mp_send_waiters s) of
                 (next', ws) \<Rightarrow> (s\<lparr>mp_send_waiters := ws\<rparr>, wake_waiter next'))"

text \<open>Taking a value frees a slot and wakes the longest-blocked sender.\<close>

definition mp_pop :: "'a list \<Rightarrow> 'a mpsc \<Rightarrow> 'a mpsc \<times> u32 list" where
  "mp_pop q s = (case pop_front (mp_send_waiters s) of (waiter, ws) \<Rightarrow> (s\<lparr>mp_queue := q, mp_send_waiters := ws\<rparr>, wake_waiter waiter))"

definition mp_try_recv :: "'a mpsc \<Rightarrow> (TryRecvError + 'a) \<times> 'a mpsc \<times> u32 list" where
  "mp_try_recv s =
     (case mp_queue s of
        v # q \<Rightarrow> (Inr v, mp_pop q s)
      | [] \<Rightarrow> (Inl (if mp_sender_count s = 0 then Recv_Disconnected else Recv_Empty), s, []))"

definition mp_recv_poll :: "u32 \<Rightarrow> 'a mpsc \<Rightarrow> 'a option Poll \<times> 'a mpsc \<times> u32 list" where
  "mp_recv_poll task s =
     (case mp_queue s of
        v # q \<Rightarrow> (Poll_Ready (Some v), mp_pop q s)
      | [] \<Rightarrow>
          if mp_sender_count s = 0 then (Poll_Ready None, s, [])
          else (Poll_Pending, s\<lparr>mp_recv_waiter := Some task\<rparr>, []))"

definition mp_receiver_drop :: "'a mpsc \<Rightarrow> 'a mpsc \<times> u32 list" where
  "mp_receiver_drop s = (s\<lparr>mp_send_waiters := [], mp_strong := mp_strong s - 1\<rparr>, mp_send_waiters s)"

subsection \<open>Sessions of an mpsc channel\<close>

text \<open>
  What the tasks that share a channel can do, and in which states they can: a sender handle is needed to send, the receiver
  handle to receive, and a pending send borrows its sender. The world records the futures in flight, what was accepted and
  received, and the wakes that have not been followed by a poll. \<open>rx\<close> is the task that owns the receiver.
\<close>

datatype 'a ch_op = TrySend 'a | StartSend u32 'a | PollSend u32 | CancelSend u32 | CloneSender | DropSender
  | TryRecv | PollRecv | DropReceiver

record 'a ch_world =
  cw_chan :: "'a mpsc"
  cw_sends :: "(u32 \<times> 'a SendFuture) list"
  cw_accepted :: "'a list"
  cw_received :: "'a list"
  cw_woken :: "u32 list"
  cw_parked :: bool

definition receiver_alive :: "'a mpsc \<Rightarrow> bool" where
  "receiver_alive s \<longleftrightarrow> mp_strong s = mp_sender_count s + 1"

fun ch_legal :: "'a ch_op \<Rightarrow> 'a ch_world \<Rightarrow> bool" where
  "ch_legal (TrySend v) w \<longleftrightarrow> 0 < mp_sender_count (cw_chan w)"
| "ch_legal (StartSend t v) w \<longleftrightarrow> 0 < mp_sender_count (cw_chan w) \<and> map_of (cw_sends w) t = None"
| "ch_legal (PollSend t) w \<longleftrightarrow> map_of (cw_sends w) t \<noteq> None"
| "ch_legal (CancelSend t) w \<longleftrightarrow> map_of (cw_sends w) t \<noteq> None"
| "ch_legal CloneSender w \<longleftrightarrow> 0 < mp_sender_count (cw_chan w)"
| "ch_legal DropSender w \<longleftrightarrow> 0 < mp_sender_count (cw_chan w) \<and> (cw_sends w = [] \<or> 1 < mp_sender_count (cw_chan w))"
| "ch_legal TryRecv w \<longleftrightarrow> receiver_alive (cw_chan w)"
| "ch_legal PollRecv w \<longleftrightarrow> receiver_alive (cw_chan w)"
| "ch_legal DropReceiver w \<longleftrightarrow> receiver_alive (cw_chan w)"

definition note_wakes :: "u32 \<Rightarrow> u32 list \<Rightarrow> 'a ch_world \<Rightarrow> 'a ch_world" where
  "note_wakes rx ts w = w\<lparr>cw_woken := cw_woken w @ ts, cw_parked := cw_parked w \<and> rx \<notin> set ts\<rparr>"

definition polled :: "u32 \<Rightarrow> 'a ch_world \<Rightarrow> 'a ch_world" where
  "polled t w = w\<lparr>cw_woken := removeAll t (cw_woken w)\<rparr>"

fun ch_step :: "profile \<Rightarrow> u32 \<Rightarrow> 'a ch_op \<Rightarrow> 'a ch_world \<Rightarrow> 'a ch_world outcome" where
  "ch_step dbg rx (TrySend v) w =
     (case mp_try_send v (cw_chan w) of
        (r, s, ts) \<Rightarrow> Ret (note_wakes rx ts (w\<lparr>cw_chan := s, cw_accepted := cw_accepted w @ (if r = Inr () then [v] else [])\<rparr>)))"
| "ch_step dbg rx (StartSend t v) w = Ret (w\<lparr>cw_sends := AList.update t (mp_send v) (cw_sends w)\<rparr>)"
| "ch_step dbg rx (PollSend t) w =
     (case map_of (cw_sends w) t of
        None \<Rightarrow> Ret w
      | Some f \<Rightarrow>
          outcome_bind (mp_send_poll t f (cw_chan w)) (\<lambda>(r, f', s, ts).
            case r of
              Poll_Pending \<Rightarrow> Ret (note_wakes rx ts ((polled t w)\<lparr>cw_chan := s, cw_sends := AList.update t f' (cw_sends w)\<rparr>))
            | Poll_Ready res \<Rightarrow>
                (case mp_send_drop f' s of
                   (s', ts') \<Rightarrow>
                     Ret (note_wakes rx (ts @ ts') ((polled t w)\<lparr>cw_chan := s', cw_sends := AList.delete t (cw_sends w),
                       cw_accepted := cw_accepted w @ (if res = Inr () then [the (sf_value f)] else [])\<rparr>)))))"
| "ch_step dbg rx (CancelSend t) w =
     (case map_of (cw_sends w) t of
        None \<Rightarrow> Ret w
      | Some f \<Rightarrow>
          (case mp_send_drop f (cw_chan w) of
             (s, ts) \<Rightarrow> Ret (note_wakes rx ts (w\<lparr>cw_chan := s, cw_sends := AList.delete t (cw_sends w)\<rparr>))))"
| "ch_step dbg rx CloneSender w = Ret (w\<lparr>cw_chan := mp_sender_clone (cw_chan w)\<rparr>)"
| "ch_step dbg rx DropSender w =
     outcome_bind (mp_sender_drop dbg (cw_chan w)) (\<lambda>(s, ts). Ret (note_wakes rx ts (w\<lparr>cw_chan := s\<rparr>)))"
| "ch_step dbg rx TryRecv w =
     (case mp_try_recv (cw_chan w) of
        (r, s, ts) \<Rightarrow> Ret (note_wakes rx ts (w\<lparr>cw_chan := s, cw_received := cw_received w @ (case r of Inr v \<Rightarrow> [v] | Inl _ \<Rightarrow> [])\<rparr>)))"
| "ch_step dbg rx PollRecv w =
     (case mp_recv_poll rx (cw_chan w) of
        (r, s, ts) \<Rightarrow>
          Ret (note_wakes rx ts ((polled rx w)\<lparr>cw_chan := s, cw_parked := (r = Poll_Pending),
            cw_received := cw_received w @ (case r of Poll_Ready (Some v) \<Rightarrow> [v] | _ \<Rightarrow> [])\<rparr>)))"
| "ch_step dbg rx DropReceiver w =
     (case mp_receiver_drop (cw_chan w) of
        (s, ts) \<Rightarrow> Ret (note_wakes rx ts (w\<lparr>cw_chan := s, cw_parked := False\<rparr>)))"

fun ch_run :: "profile \<Rightarrow> u32 \<Rightarrow> 'a ch_op list \<Rightarrow> 'a ch_world \<Rightarrow> 'a ch_world option outcome" where
  "ch_run dbg rx [] w = Ret (Some w)"
| "ch_run dbg rx (op # ops) w =
     (if ch_legal op w then outcome_bind (ch_step dbg rx op w) (ch_run dbg rx ops) else Ret None)"

definition ch_start :: "'a mpsc \<Rightarrow> 'a ch_world" where
  "ch_start s = \<lparr>cw_chan = s, cw_sends = [], cw_accepted = [], cw_received = [], cw_woken = [], cw_parked = False\<rparr>"

text \<open>The invariant: the queue is what was accepted and not yet received, within the capacity; the counts are those of
  the handles; a parked receiver is registered, and a registered receiver has nothing to receive; pending futures still
  hold their value.\<close>

definition ch_inv :: "nat \<Rightarrow> u32 \<Rightarrow> 'a ch_world \<Rightarrow> bool" where
  "ch_inv cap rx w \<longleftrightarrow>
     cw_accepted w = cw_received w @ mp_queue (cw_chan w) \<and> length (mp_queue (cw_chan w)) \<le> cap \<and> mp_capacity (cw_chan w) = cap \<and>
     (mp_strong (cw_chan w) = mp_sender_count (cw_chan w) + 1 \<or> mp_strong (cw_chan w) = mp_sender_count (cw_chan w)) \<and>
     (cw_sends w \<noteq> [] \<longrightarrow> 0 < mp_sender_count (cw_chan w)) \<and>
     (cw_parked w \<longrightarrow> mp_recv_waiter (cw_chan w) = Some rx \<and> receiver_alive (cw_chan w)) \<and>
     (\<forall>t. mp_recv_waiter (cw_chan w) = Some t \<longrightarrow> t = rx \<and> mp_queue (cw_chan w) = [] \<and> 0 < mp_sender_count (cw_chan w)) \<and>
     (\<forall>t f. map_of (cw_sends w) t = Some f \<longrightarrow> sf_value f \<noteq> None)"

lemma note_wakes_fields [simp]:
  "cw_chan (note_wakes rx ts w) = cw_chan w" "cw_sends (note_wakes rx ts w) = cw_sends w"
  "cw_accepted (note_wakes rx ts w) = cw_accepted w" "cw_received (note_wakes rx ts w) = cw_received w"
  "cw_woken (note_wakes rx ts w) = cw_woken w @ ts" "cw_parked (note_wakes rx ts w) \<longleftrightarrow> cw_parked w \<and> rx \<notin> set ts"
  by (simp_all add: note_wakes_def)

lemma polled_fields [simp]:
  "cw_chan (polled t w) = cw_chan w" "cw_sends (polled t w) = cw_sends w" "cw_accepted (polled t w) = cw_accepted w"
  "cw_received (polled t w) = cw_received w" "cw_woken (polled t w) = removeAll t (cw_woken w)" "cw_parked (polled t w) = cw_parked w"
  by (simp_all add: polled_def)

lemma mp_pop_fields:
  "mp_pop q s = (s', ts) \<Longrightarrow> mp_queue s' = q \<and> mp_capacity s' = mp_capacity s \<and> mp_recv_waiter s' = mp_recv_waiter s \<and>
     mp_sender_count s' = mp_sender_count s \<and> mp_strong s' = mp_strong s"
  by (cases "mp_send_waiters s") (auto simp: mp_pop_def)

lemma mp_send_drop_fields:
  "mp_send_drop f s = (s', ts) \<Longrightarrow> mp_queue s' = mp_queue s \<and> mp_capacity s' = mp_capacity s \<and> mp_recv_waiter s' = mp_recv_waiter s \<and>
     mp_sender_count s' = mp_sender_count s \<and> mp_strong s' = mp_strong s"
  by (cases "mp_send_waiters s") (auto simp: mp_send_drop_def split: option.splits if_splits)

lemma ch_invD:
  assumes "ch_inv cap rx w"
  shows "cw_accepted w = cw_received w @ mp_queue (cw_chan w)" "length (mp_queue (cw_chan w)) \<le> cap" "mp_capacity (cw_chan w) = cap"
    "mp_strong (cw_chan w) = mp_sender_count (cw_chan w) + 1 \<or> mp_strong (cw_chan w) = mp_sender_count (cw_chan w)"
    "cw_parked w \<Longrightarrow> mp_recv_waiter (cw_chan w) = Some rx" "cw_parked w \<Longrightarrow> receiver_alive (cw_chan w)"
    "mp_recv_waiter (cw_chan w) = Some t \<Longrightarrow> mp_queue (cw_chan w) = [] \<and> 0 < mp_sender_count (cw_chan w) \<and> t = rx"
    "cw_sends w \<noteq> [] \<Longrightarrow> 0 < mp_sender_count (cw_chan w)"
    "map_of (cw_sends w) u = Some f \<Longrightarrow> sf_value f \<noteq> None"
  using assms unfolding ch_inv_def by blast+

lemma ch_invI:
  assumes "cw_accepted w = cw_received w @ mp_queue (cw_chan w)" "length (mp_queue (cw_chan w)) \<le> cap" "mp_capacity (cw_chan w) = cap"
    "mp_strong (cw_chan w) = mp_sender_count (cw_chan w) + 1 \<or> mp_strong (cw_chan w) = mp_sender_count (cw_chan w)"
    "cw_parked w \<Longrightarrow> mp_recv_waiter (cw_chan w) = Some rx \<and> receiver_alive (cw_chan w)"
    "\<And>t. mp_recv_waiter (cw_chan w) = Some t \<Longrightarrow> t = rx \<and> mp_queue (cw_chan w) = [] \<and> 0 < mp_sender_count (cw_chan w)"
    "cw_sends w \<noteq> [] \<Longrightarrow> 0 < mp_sender_count (cw_chan w)"
    "\<And>u f. map_of (cw_sends w) u = Some f \<Longrightarrow> sf_value f \<noteq> None"
  shows "ch_inv cap rx w"
  using assms unfolding ch_inv_def by blast

lemma ch_inv_push:
  assumes "ch_inv cap rx w" "\<not> receiver_gone (cw_chan w)" "length (mp_queue (cw_chan w)) < cap" "mp_push v (cw_chan w) = (s, ts)"
    "cw_sends w' = [] \<or> 0 < mp_sender_count (cw_chan w)" "\<forall>t f. map_of (cw_sends w') t = Some f \<longrightarrow> sf_value f \<noteq> None"
    "cw_chan w' = s'" "mp_queue s' = mp_queue s \<and> mp_capacity s' = mp_capacity s \<and> mp_recv_waiter s' = mp_recv_waiter s \<and>
       mp_sender_count s' = mp_sender_count s \<and> mp_strong s' = mp_strong s"
    "cw_accepted w' = cw_accepted w @ [v]" "cw_received w' = cw_received w" "cw_parked w' \<longrightarrow> cw_parked w \<and> rx \<notin> set ts"
  shows "ch_inv cap rx w'"
proof -
  have "\<not> cw_parked w'"
  proof
    assume "cw_parked w'"
    then have "cw_parked w" "rx \<notin> set ts" using assms(11) by blast+
    then show False using ch_invD(5) [OF assms(1)] assms(4) by (auto simp: mp_push_def)
  qed
  moreover have "mp_queue s = mp_queue (cw_chan w) @ [v]" "mp_capacity s = mp_capacity (cw_chan w)" "mp_recv_waiter s = None"
      "mp_sender_count s = mp_sender_count (cw_chan w)" "mp_strong s = mp_strong (cw_chan w)"
    using assms(4) by (auto simp: mp_push_def)
  ultimately show ?thesis
    unfolding ch_inv_def using assms(3,5-10) ch_invD(1-4) [OF assms(1)] by auto
qed

lemma ch_inv_idle:
  assumes "ch_inv cap rx w" "cw_sends w' = [] \<or> 0 < mp_sender_count (cw_chan w)" "\<forall>t f. map_of (cw_sends w') t = Some f \<longrightarrow> sf_value f \<noteq> None"
    "mp_queue (cw_chan w') = mp_queue (cw_chan w)" "mp_capacity (cw_chan w') = mp_capacity (cw_chan w)"
    "mp_recv_waiter (cw_chan w') = mp_recv_waiter (cw_chan w)" "mp_sender_count (cw_chan w') = mp_sender_count (cw_chan w)"
    "mp_strong (cw_chan w') = mp_strong (cw_chan w)"
    "cw_accepted w' = cw_accepted w" "cw_received w' = cw_received w" "cw_parked w' \<longrightarrow> cw_parked w"
  shows "ch_inv cap rx w'"
proof (rule ch_invI)
  show "cw_accepted w' = cw_received w' @ mp_queue (cw_chan w')" "length (mp_queue (cw_chan w')) \<le> cap" "mp_capacity (cw_chan w') = cap"
    using ch_invD(1-3) [OF assms(1)] assms(4,5,9,10) by simp_all
  show "mp_strong (cw_chan w') = mp_sender_count (cw_chan w') + 1 \<or> mp_strong (cw_chan w') = mp_sender_count (cw_chan w')"
    using ch_invD(4) [OF assms(1)] assms(7,8) by simp
  show "mp_recv_waiter (cw_chan w') = Some rx \<and> receiver_alive (cw_chan w')" if "cw_parked w'"
    using ch_invD(5,6) [OF assms(1)] assms(6-8,11) that by (simp add: receiver_alive_def)
  show "t = rx \<and> mp_queue (cw_chan w') = [] \<and> 0 < mp_sender_count (cw_chan w')" if "mp_recv_waiter (cw_chan w') = Some t" for t
    using ch_invD(7) [OF assms(1), of t] assms(4,6,7) that by simp
qed (use assms(2,3,7) in auto)

lemma ch_inv_sends:
  assumes "ch_inv cap rx w"
  shows "map_of (cw_sends w) t = Some f \<Longrightarrow> 0 < mp_sender_count (cw_chan w) \<and> sf_value f \<noteq> None"
    "\<forall>t' g. map_of (AList.delete t (cw_sends w)) t' = Some g \<longrightarrow> sf_value g \<noteq> None"
    "sf_value f' \<noteq> None \<Longrightarrow> \<forall>t' g. map_of (AList.update t f' (cw_sends w)) t' = Some g \<longrightarrow> sf_value g \<noteq> None"
proof -
  have "cw_sends w \<noteq> []" if "map_of (cw_sends w) t = Some f" using that by auto
  then show "0 < mp_sender_count (cw_chan w) \<and> sf_value f \<noteq> None" if "map_of (cw_sends w) t = Some f"
    using ch_invD(8,9) [OF assms] that by blast
  show "\<forall>t' g. map_of (AList.delete t (cw_sends w)) t' = Some g \<longrightarrow> sf_value g \<noteq> None"
    using ch_invD(9) [OF assms] by (metis delete_conv' fun_upd_apply option.distinct(1))
  show "\<forall>t' g. map_of (AList.update t f' (cw_sends w)) t' = Some g \<longrightarrow> sf_value g \<noteq> None" if "sf_value f' \<noteq> None"
    using ch_invD(9) [OF assms] that by (metis update_conv' fun_upd_apply option.inject)
qed

lemma ch_step_poll_send:
  assumes i: "ch_inv cap rx w" and f: "map_of (cw_sends w) t = Some f"
  shows "\<exists>w'. ch_step dbg rx (PollSend t) w = Ret w' \<and> ch_inv cap rx w'"
proof -
  note n = ch_inv_sends(1) [OF i f] and del = ch_inv_sends(2) [OF i, of t]
  then obtain v where v: "sf_value f = Some v" by auto
  have cap: "mp_capacity (cw_chan w) = cap" using i by (simp add: ch_inv_def)
  show ?thesis
  proof (cases "receiver_gone (cw_chan w)")
    case True
    obtain s ts where d: "mp_send_drop (f\<lparr>sf_value := None\<rparr>) (cw_chan w) = (s, ts)" by fastforce
    show ?thesis using True f v d n del mp_send_drop_fields [OF d]
      by (auto simp: mp_send_poll_def intro!: ch_inv_idle [OF i])
  next
    case here: False
    show ?thesis
    proof (cases "length (mp_queue (cw_chan w)) < cap")
      case True
      obtain s ts where p: "mp_push v (cw_chan w) = (s, ts)" by fastforce
      have d: "mp_send_drop (f\<lparr>sf_value := None, sf_registered := None\<rparr>) s = (s, [])" by (simp add: mp_send_drop_def)
      have "ch_inv cap rx (note_wakes rx ts ((polled t w)\<lparr>cw_chan := s, cw_sends := AList.delete t (cw_sends w),
          cw_accepted := cw_accepted w @ [v]\<rparr>))"
        by (rule ch_inv_push [OF i here True p, where s' = s]) (use n del in simp_all)
      then show ?thesis using here True f v p d cap by (simp add: mp_send_poll_def)
    next
      case False
      have "ch_inv cap rx (note_wakes rx [] ((polled t w)\<lparr>cw_chan := (cw_chan w)\<lparr>mp_send_waiters := ws\<rparr>,
          cw_sends := AList.update t (f\<lparr>sf_registered := r\<rparr>) (cw_sends w)\<rparr>))" for ws r
        using n ch_inv_sends(3) [OF i, of "f\<lparr>sf_registered := r\<rparr>" t] by (intro ch_inv_idle [OF i]) simp_all
      from this [of "sf_registered f" "mp_send_waiters (cw_chan w)"] this [of "Some t" "mp_send_waiters (cw_chan w) @ [t]"]
      show ?thesis using here False f cap by (simp add: mp_send_poll_def)
    qed
  qed
qed

lemma ch_inv_pop:
  assumes i: "ch_inv cap rx w" and q: "mp_queue (cw_chan w) = v # q" and p: "mp_pop q (cw_chan w) = (s, ts)"
    and w': "cw_chan w' = s" "cw_sends w' = cw_sends w" "cw_accepted w' = cw_accepted w" "cw_received w' = cw_received w @ [v]"
      "cw_parked w' \<longrightarrow> cw_parked w"
  shows "ch_inv cap rx w'"
proof -
  note s = mp_pop_fields [OF p]
  have none: "mp_recv_waiter (cw_chan w) = None"
  proof (rule ccontr)
    assume "mp_recv_waiter (cw_chan w) \<noteq> None"
    then obtain t where "mp_recv_waiter (cw_chan w) = Some t" by blast
    then show False using ch_invD(7) [OF i] q by simp
  qed
  then have "\<not> cw_parked w'" using w'(5) ch_invD(5) [OF i] by auto
  then show ?thesis
    using none s w'(1-4) q ch_invD(1-4) [OF i] ch_invD(8,9) [OF i] by (intro ch_invI) simp_all
qed

lemma ch_step_recv:
  assumes i: "ch_inv cap rx w" and alive: "receiver_alive (cw_chan w)"
  shows "\<exists>w'. ch_step dbg rx TryRecv w = Ret w' \<and> ch_inv cap rx w'" "\<exists>w'. ch_step dbg rx PollRecv w = Ret w' \<and> ch_inv cap rx w'"
proof -
  have "(\<exists>w'. ch_step dbg rx TryRecv w = Ret w' \<and> ch_inv cap rx w') \<and> (\<exists>w'. ch_step dbg rx PollRecv w = Ret w' \<and> ch_inv cap rx w')"
  proof (cases "mp_queue (cw_chan w)")
    case Nil
    have idle: "ch_inv cap rx (note_wakes rx [] (w\<lparr>cw_chan := cw_chan w, cw_received := cw_received w @ []\<rparr>))"
      "ch_inv cap rx (note_wakes rx [] ((polled rx w)\<lparr>cw_chan := cw_chan w, cw_parked := False, cw_received := cw_received w @ []\<rparr>))"
      using ch_invD(8,9) [OF i] by (intro ch_inv_idle [OF i]; force)+
    have "ch_inv cap rx (note_wakes rx [] ((polled rx w)\<lparr>cw_chan := (cw_chan w)\<lparr>mp_recv_waiter := Some rx\<rparr>, cw_parked := True,
        cw_received := cw_received w @ []\<rparr>))" if "0 < mp_sender_count (cw_chan w)"
      using Nil that alive ch_invD(1-4) [OF i] ch_invD(8,9) [OF i] by (intro ch_invI) (simp_all add: receiver_alive_def)
    with idle show ?thesis using Nil by (auto simp: mp_try_recv_def mp_recv_poll_def)
  next
    case (Cons v q)
    obtain s ts where p: "mp_pop q (cw_chan w) = (s, ts)" by fastforce
    have "ch_inv cap rx (note_wakes rx ts (w\<lparr>cw_chan := s, cw_received := cw_received w @ [v]\<rparr>))"
      "ch_inv cap rx (note_wakes rx ts ((polled rx w)\<lparr>cw_chan := s, cw_parked := False, cw_received := cw_received w @ [v]\<rparr>))"
      by (rule ch_inv_pop [OF i Cons p]; simp)+
    then show ?thesis using Cons p by (simp add: mp_try_recv_def mp_recv_poll_def)
  qed
  then show "\<exists>w'. ch_step dbg rx TryRecv w = Ret w' \<and> ch_inv cap rx w'" "\<exists>w'. ch_step dbg rx PollRecv w = Ret w' \<and> ch_inv cap rx w'"
    by blast+
qed

lemma ch_inv_counts:
  assumes i: "ch_inv cap rx w"
    and same: "mp_queue (cw_chan w') = mp_queue (cw_chan w)" "mp_capacity (cw_chan w') = mp_capacity (cw_chan w)"
      "cw_accepted w' = cw_accepted w" "cw_received w' = cw_received w" "cw_sends w' = cw_sends w"
    and count: "mp_strong (cw_chan w') = mp_sender_count (cw_chan w') + 1 \<or> mp_strong (cw_chan w') = mp_sender_count (cw_chan w')"
      "cw_sends w = [] \<or> 0 < mp_sender_count (cw_chan w')"
    and waiter: "mp_recv_waiter (cw_chan w') = None \<or> mp_recv_waiter (cw_chan w') = mp_recv_waiter (cw_chan w) \<and> 0 < mp_sender_count (cw_chan w')"
    and parked: "cw_parked w' \<Longrightarrow> cw_parked w \<and> mp_recv_waiter (cw_chan w') = mp_recv_waiter (cw_chan w) \<and> receiver_alive (cw_chan w')"
  shows "ch_inv cap rx w'"
proof (rule ch_invI)
  show "mp_recv_waiter (cw_chan w') = Some rx \<and> receiver_alive (cw_chan w')" if "cw_parked w'"
    using parked [OF that] ch_invD(5) [OF i] by metis
  show "t = rx \<and> mp_queue (cw_chan w') = [] \<and> 0 < mp_sender_count (cw_chan w')" if "mp_recv_waiter (cw_chan w') = Some t" for t
    using waiter that same(1) ch_invD(7) [OF i, of t] by auto
  show "sf_value f \<noteq> None" if "map_of (cw_sends w') u = Some f" for u f
    using ch_invD(9) [OF i] that same(5) by metis
qed (use same count ch_invD(1-4) [OF i] in auto)

lemma ch_step_handles:
  assumes i: "ch_inv cap rx w"
  shows "ch_legal CloneSender w \<Longrightarrow> \<exists>w'. ch_step dbg rx CloneSender w = Ret w' \<and> ch_inv cap rx w'"
    "ch_legal DropSender w \<Longrightarrow> \<exists>w'. ch_step dbg rx DropSender w = Ret w' \<and> ch_inv cap rx w'"
    "ch_legal DropReceiver w \<Longrightarrow> \<exists>w'. ch_step dbg rx DropReceiver w = Ret w' \<and> ch_inv cap rx w'"
proof -
  let ?s = "cw_chan w"
  note n = ch_invD(4) [OF i] and alive = ch_invD(6) [OF i]
  have "ch_inv cap rx (w\<lparr>cw_chan := mp_sender_clone ?s\<rparr>)"
    by (rule ch_inv_counts [OF i]) (use n alive in \<open>auto simp: mp_sender_clone_def receiver_alive_def\<close>)
  then show "\<exists>w'. ch_step dbg rx CloneSender w = Ret w' \<and> ch_inv cap rx w'" by simp
  show "\<exists>w'. ch_step dbg rx DropReceiver w = Ret w' \<and> ch_inv cap rx w'" if legal: "ch_legal DropReceiver w"
  proof -
    have "0 < mp_sender_count ?s" if "mp_recv_waiter ?s = Some t" for t using ch_invD(7) [OF i that] by simp
    then have w: "mp_recv_waiter ?s = None \<or> 0 < mp_sender_count ?s" by (cases "mp_recv_waiter ?s") auto
    have sends: "cw_sends w = [] \<or> 0 < mp_sender_count ?s" using ch_invD(8) [OF i] by metis
    have "ch_inv cap rx (note_wakes rx (mp_send_waiters ?s) (w\<lparr>cw_chan := ?s\<lparr>mp_send_waiters := [], mp_strong := mp_strong ?s - 1\<rparr>, cw_parked := False\<rparr>))"
      by (rule ch_inv_counts [OF i]) (use legal w sends in \<open>auto simp: receiver_alive_def\<close>)
    then show ?thesis by (simp add: mp_receiver_drop_def)
  qed
  show "\<exists>w'. ch_step dbg rx DropSender w = Ret w' \<and> ch_inv cap rx w'" if legal: "ch_legal DropSender w"
  proof (cases "mp_sender_count ?s = 1")
    case True
    have "\<not> (cw_parked w \<and> rx \<notin> set (wake_waiter (mp_recv_waiter ?s)))" using ch_invD(5) [OF i] by auto
    then have "ch_inv cap rx (note_wakes rx (wake_waiter (mp_recv_waiter ?s))
        (w\<lparr>cw_chan := ?s\<lparr>mp_sender_count := 0, mp_strong := mp_strong ?s - 1, mp_recv_waiter := None\<rparr>\<rparr>))"
      by (intro ch_inv_counts [OF i]) (use True legal n in auto)
    then show ?thesis using True by (simp add: mp_sender_drop_def Let_def)
  next
    case False
    then have "ch_inv cap rx (note_wakes rx [] (w\<lparr>cw_chan := ?s\<lparr>mp_sender_count := mp_sender_count ?s - 1, mp_strong := mp_strong ?s - 1\<rparr>\<rparr>))"
      by (intro ch_inv_counts [OF i]) (use False legal n alive in \<open>auto simp: receiver_alive_def\<close>)
    then show ?thesis using False legal by (simp add: mp_sender_drop_def Let_def)
  qed
qed

lemma ch_step_inv:
  assumes i: "ch_inv cap rx w" and legal: "ch_legal op w"
  shows "\<exists>w'. ch_step dbg rx op w = Ret w' \<and> ch_inv cap rx w'"
proof (cases op)
  case (TrySend v)
  obtain s ts where p: "mp_push v (cw_chan w) = (s, ts)" by fastforce
  have "ch_inv cap rx (note_wakes rx ts (w\<lparr>cw_chan := s, cw_accepted := cw_accepted w @ [v]\<rparr>))"
    if "\<not> receiver_gone (cw_chan w)" "length (mp_queue (cw_chan w)) < cap"
    using legal TrySend ch_invD(9) [OF i] by (intro ch_inv_push [OF i that p, where s' = s]) force+
  moreover have "ch_inv cap rx (note_wakes rx [] (w\<lparr>cw_chan := cw_chan w, cw_accepted := cw_accepted w @ []\<rparr>))"
    using ch_invD(8,9) [OF i] by (intro ch_inv_idle [OF i]) force+
  ultimately show ?thesis using TrySend p ch_invD(3) [OF i] by (simp add: mp_try_send_def not_le)
next
  case (StartSend t v)
  then have "ch_inv cap rx (w\<lparr>cw_sends := AList.update t (mp_send v) (cw_sends w)\<rparr>)"
    using legal ch_inv_sends(3) [OF i, of "mp_send v" t] by (intro ch_inv_idle [OF i]) (simp_all add: mp_send_def)
  then show ?thesis using StartSend by simp
next
  case (PollSend t)
  then show ?thesis using ch_step_poll_send [OF i] legal by auto
next
  case (CancelSend t)
  then obtain f where f: "map_of (cw_sends w) t = Some f" using legal by auto
  obtain s ts where d: "mp_send_drop f (cw_chan w) = (s, ts)" by fastforce
  have "ch_inv cap rx (note_wakes rx ts (w\<lparr>cw_chan := s, cw_sends := AList.delete t (cw_sends w)\<rparr>))"
    using mp_send_drop_fields [OF d] ch_inv_sends(1) [OF i f] ch_inv_sends(2) [OF i, of t] by (intro ch_inv_idle [OF i]) simp_all
  then show ?thesis using CancelSend f d by simp
next
  case CloneSender
  then show ?thesis using ch_step_handles(1) [OF i] legal by blast
next
  case DropSender
  then show ?thesis using ch_step_handles(2) [OF i] legal by blast
next
  case DropReceiver
  then show ?thesis using ch_step_handles(3) [OF i] legal by blast
qed (use ch_step_recv [OF i] legal in auto)

lemma ch_run_inv: "ch_inv cap rx w \<Longrightarrow> \<exists>r. ch_run dbg rx ops w = Ret r \<and> (\<forall>w'. r = Some w' \<longrightarrow> ch_inv cap rx w')"
proof (induction ops arbitrary: w)
  case (Cons op ops)
  then show ?case using ch_step_inv [OF Cons.prems, of op dbg] by fastforce
qed simp

lemma ch_start_inv: "0 < cap \<Longrightarrow> mpsc_channel cap = Ret s \<Longrightarrow> ch_inv cap rx (ch_start s)"
  by (auto simp: mpsc_channel_def ch_start_def intro!: ch_invI)

subsection \<open>Delivery\<close>

text \<open>
  C34. An mpsc channel is a bounded FIFO queue. Let any number of tasks use a channel of capacity \<open>cap > 0\<close> in any order:
  send without waiting, start, poll and cancel waiting sends, clone and drop senders, receive, and drop the receiver. No
  operation panics; the values received, in order, followed by those still queued are exactly the values whose send
  reported success, in the order they were accepted, so nothing is lost, duplicated or reordered; and the queue never
  holds more than \<open>cap\<close> values.
\<close>

theorem mpsc_bounded_fifo:
  assumes "0 < cap"
  shows "\<exists>s. mpsc_channel cap = Ret s \<and> (\<exists>r. ch_run dbg rx ops (ch_start s) = Ret r \<and>
    (\<forall>w. r = Some w \<longrightarrow> cw_received w @ mp_queue (cw_chan w) = cw_accepted w \<and> length (mp_queue (cw_chan w)) \<le> cap))"
proof -
  obtain s :: "'a mpsc" where s: "mpsc_channel cap = Ret s" using assms by (simp add: mpsc_channel_def)
  obtain r where "ch_run dbg rx ops (ch_start s) = Ret r" "\<forall>w. r = Some w \<longrightarrow> ch_inv cap rx w"
    using ch_run_inv [OF ch_start_inv [OF assms s]] by blast
  then show ?thesis using s ch_invD(1,2) by (intro exI [of _ s] exI [of _ r]) fastforce
qed

definition fifo_ops :: "nat ch_op list" where
  "fifo_ops = [TrySend 1, StartSend 7 2, PollSend 7, PollRecv, PollSend 7, CloneSender, TrySend 3, DropSender, TryRecv, PollRecv]"

theorem mpsc_bounded_fifo_witness:
  "0 < (1 :: nat) \<and>
   (\<exists>s w. mpsc_channel 1 = Ret s \<and> ch_run True 9 fifo_ops (ch_start s) = Ret (Some w) \<and>
     cw_received w = [1, 2] \<and> mp_queue (cw_chan w) = [] \<and> cw_received w @ mp_queue (cw_chan w) = cw_accepted w)"
proof -
  obtain s :: "nat mpsc" and r where s: "mpsc_channel 1 = Ret s" "ch_run True 9 fifo_ops (ch_start s) = Ret r"
      "\<forall>w. r = Some w \<longrightarrow> cw_received w @ mp_queue (cw_chan w) = cw_accepted w"
    using mpsc_bounded_fifo [of 1 True 9 fifo_ops] by auto
  have "outcome_bind (mpsc_channel 1) (\<lambda>s. outcome_bind (ch_run True 9 fifo_ops (ch_start s)) (\<lambda>r.
      Ret (case r of Some w \<Rightarrow> Some (cw_received w, mp_queue (cw_chan w)) | None \<Rightarrow> None))) = Ret (Some ([1, 2], []))"
    by code_simp
  then obtain w where "r = Some w" "cw_received w = [1, 2]" "mp_queue (cw_chan w) = []" using s by (auto split: option.splits)
  then show ?thesis using s by auto
qed

subsection \<open>Wake-ups of the receiver\<close>

text \<open>
  C35. A waiting receiver is not left behind. After any such session, if the receiver's task was told to wait and has not
  been woken since, then there is nothing to receive and a sender is alive; the next value that is sent is accepted and
  wakes it, and so does the last sender when it is dropped. Likewise a task that waits on a oneshot is woken by the send and
  then gets the value, and is woken by the drop of an unused sender and then gets the error.
\<close>

theorem receiver_not_stranded:
  assumes "0 < cap" "mpsc_channel cap = Ret s" "ch_run dbg rx ops (ch_start s) = Ret (Some w)" "cw_parked w"
    and "os_poll t p = (Poll_Pending, p')" "os_strong p = 2"
  shows "mp_queue (cw_chan w) = [] \<and> 0 < mp_sender_count (cw_chan w) \<and>
    (\<exists>s'. mp_try_send v (cw_chan w) = (Inr (), s', [rx])) \<and>
    (mp_sender_count (cw_chan w) = 1 \<longrightarrow> (\<exists>s'. mp_sender_drop dbg (cw_chan w) = Ret (s', [rx]) \<and> fst (mp_recv_poll rx s') = Poll_Ready None)) \<and>
    (\<exists>q. os_send v p' = (Inr (), q, [t]) \<and> fst (os_poll t q) = Poll_Ready (Inr v)) \<and>
    (\<exists>q. os_sender_drop p' = (q, [t]) \<and> fst (os_poll t q) = Poll_Ready (Inl ()))"
proof -
  have i: "ch_inv cap rx w" using ch_run_inv [OF ch_start_inv [OF assms(1,2)], of dbg rx ops] assms(3) by auto
  have r: "mp_recv_waiter (cw_chan w) = Some rx" "receiver_alive (cw_chan w)" using ch_invD(5,6) [OF i] assms(4) by auto
  have "mp_queue (cw_chan w) = []" "0 < mp_sender_count (cw_chan w)" "mp_capacity (cw_chan w) = cap"
    using ch_invD(7) [OF i r(1)] ch_invD(3) [OF i] by auto
  moreover have "os_value p = None" "\<not> os_closed p" "p' = p\<lparr>os_recv_waiter := Some t\<rparr>"
    using assms(5) by (auto simp: os_poll_def split: option.splits if_splits)
  ultimately show ?thesis
    using r assms(1,6) by (simp add: mp_try_send_def receiver_gone_def receiver_alive_def mp_push_def mp_sender_drop_def
      mp_recv_poll_def os_send_def os_sender_drop_def os_poll_def Let_def)
qed

theorem receiver_not_stranded_witness:
  "\<exists>s w p'. mpsc_channel 2 = Ret s \<and> ch_run True 9 [TrySend (5 :: nat), PollRecv, PollRecv] (ch_start s) = Ret (Some w) \<and> cw_parked w \<and>
     os_poll 3 oneshot_channel = (Poll_Pending, p') \<and> (\<exists>s'. mp_try_send 6 (cw_chan w) = (Inr (), s', [9])) \<and>
     (\<exists>q. os_send (6 :: nat) p' = (Inr (), q, [3]) \<and> fst (os_poll 3 q) = Poll_Ready (Inr 6))"
proof -
  have "outcome_bind (mpsc_channel 2) (\<lambda>s. outcome_bind (ch_run True 9 [TrySend (5 :: nat), PollRecv, PollRecv] (ch_start s)) (\<lambda>r.
      Ret (case r of Some w \<Rightarrow> cw_parked w | None \<Rightarrow> False))) = Ret True"
    by code_simp
  then obtain s :: "nat mpsc" and w where s: "mpsc_channel 2 = Ret s"
      "ch_run True 9 [TrySend 5, PollRecv, PollRecv] (ch_start s) = Ret (Some w)" "cw_parked w"
    by (auto simp: outcome_bind_Ret_iff simp del: ch_run.simps split: option.splits)
  obtain p' :: "nat oneshot" where p: "os_poll 3 oneshot_channel = (Poll_Pending, p')" by (auto simp: os_poll_def oneshot_channel_def)
  have "os_strong (oneshot_channel :: nat oneshot) = 2" by (simp add: oneshot_channel_def)
  from receiver_not_stranded [OF _ s p this, of 6] show ?thesis using s p by auto
qed

subsection \<open>Wake-ups of the senders\<close>

text \<open>A sender left behind: its send is pending and believes itself registered, but it is in no wait list and no wake is
  on its way to its task.\<close>

definition stranded :: "u32 \<Rightarrow> 'a ch_world \<Rightarrow> bool" where
  "stranded t w \<longleftrightarrow> (\<exists>f. map_of (cw_sends w) t = Some f \<and> sf_registered f = Some t) \<and> t \<notin> set (mp_send_waiters (cw_chan w)) \<and>
     mp_recv_waiter (cw_chan w) \<noteq> Some t \<and> t \<notin> set (cw_woken w)"

definition own_op :: "u32 \<Rightarrow> 'a ch_op \<Rightarrow> bool" where
  "own_op t op \<longleftrightarrow> op = PollSend t \<or> op = CancelSend t"

definition quiet_for :: "u32 \<Rightarrow> 'a mpsc \<Rightarrow> bool" where
  "quiet_for t s \<longleftrightarrow> t \<notin> set (mp_send_waiters s) \<and> mp_recv_waiter s \<noteq> Some t"

lemma set_wake_waiter [simp]: "t \<in> set (wake_waiter w) \<longleftrightarrow> w = Some t"
  by (cases w) auto

lemma quiet_ops_channel:
  assumes q: "quiet_for t s"
  shows "mp_push v s = (s', ts) \<Longrightarrow> quiet_for t s' \<and> t \<notin> set ts"
    "mp_pop xs s = (s', ts) \<Longrightarrow> quiet_for t s' \<and> t \<notin> set ts"
    "mp_send_drop f s = (s', ts) \<Longrightarrow> quiet_for t s' \<and> t \<notin> set ts"
    "mp_receiver_drop s = (s', ts) \<Longrightarrow> quiet_for t s' \<and> t \<notin> set ts"
    "mp_sender_drop dbg s = Ret (s', ts) \<Longrightarrow> quiet_for t s' \<and> t \<notin> set ts"
  using q
  by (auto simp: quiet_for_def mp_push_def mp_pop_def mp_send_drop_def mp_receiver_drop_def mp_sender_drop_def uint_sub_def Let_def
    split: option.splits if_splits prod.splits elim!: pop_front.elims dest: in_set_remove1)

lemma stranded_iff:
  "stranded t w \<longleftrightarrow> (\<exists>f. map_of (cw_sends w) t = Some f \<and> sf_registered f = Some t) \<and> quiet_for t (cw_chan w) \<and> t \<notin> set (cw_woken w)"
  by (auto simp: stranded_def quiet_for_def)

lemma stranded_poll_other:
  assumes st: "stranded t w" and u: "u \<noteq> t" "map_of (cw_sends w) u = Some f" and step: "ch_step dbg rx (PollSend u) w = Ret w'"
  shows "stranded t w'"
proof -
  obtain r f' s ts where p: "mp_send_poll u f (cw_chan w) = Ret (r, f', s, ts)"
    using step u by (cases "mp_send_poll u f (cw_chan w)") auto
  note q = st [unfolded stranded_iff]
  have s: "quiet_for t s \<and> t \<notin> set ts"
    using p q u quiet_ops_channel(1) [of t "cw_chan w"]
    by (auto simp: mp_send_poll_def quiet_for_def split: option.splits if_splits)
  show ?thesis
  proof (cases r)
    case Poll_Pending
    then show ?thesis using step p u q s by (auto simp: stranded_iff update_conv')
  next
    case (Poll_Ready res)
    obtain s' ts' where d: "mp_send_drop f' s = (s', ts')" by fastforce
    then show ?thesis using step p u q s Poll_Ready quiet_ops_channel(3) [of t s f' s' ts'] by (auto simp: stranded_iff delete_conv')
  qed
qed

lemma stranded_step:
  assumes st: "stranded t w" and rx: "rx \<noteq> t" and op: "ch_legal op w" "\<not> own_op t op" and step: "ch_step dbg rx op w = Ret w'"
  shows "stranded t w'"
proof -
  note q = st [unfolded stranded_iff] and ops = quiet_ops_channel [of t "cw_chan w"]
  show ?thesis
  proof (cases op)
    case (TrySend v)
    obtain s ts where "mp_push v (cw_chan w) = (s, ts)" by fastforce
    then show ?thesis using TrySend step q ops(1) by (auto simp: stranded_iff mp_try_send_def split: if_splits)
  next
    case (StartSend u v)
    then have "u \<noteq> t" using op(1) q by auto
    then show ?thesis using StartSend step q by (auto simp: stranded_iff update_conv')
  next
    case (PollSend u)
    then show ?thesis using stranded_poll_other [OF st, of u] op step by (auto simp: own_op_def)
  next
    case (CancelSend u)
    then obtain f where f: "map_of (cw_sends w) u = Some f" "u \<noteq> t" using op by (auto simp: own_op_def)
    obtain s ts where "mp_send_drop f (cw_chan w) = (s, ts)" by fastforce
    then show ?thesis using CancelSend f step q ops(3) by (auto simp: stranded_iff delete_conv')
  next
    case CloneSender
    then show ?thesis using step q by (auto simp: stranded_iff mp_sender_clone_def quiet_for_def)
  next
    case DropSender
    then show ?thesis using step q ops(5) by (auto simp: stranded_iff outcome_bind_Ret_iff)
  next
    case TryRecv
    obtain s ts where "mp_pop (tl (mp_queue (cw_chan w))) (cw_chan w) = (s, ts)" by fastforce
    then show ?thesis using TryRecv step q ops(2) by (auto simp: stranded_iff mp_try_recv_def split: list.splits)
  next
    case PollRecv
    obtain s ts where "mp_pop (tl (mp_queue (cw_chan w))) (cw_chan w) = (s, ts)" by fastforce
    then show ?thesis using PollRecv step q ops(2) rx
      by (cases "mp_sender_count (cw_chan w) = 0") (auto simp: stranded_iff mp_recv_poll_def quiet_for_def split: list.splits)
  next
    case DropReceiver
    obtain s ts where "mp_receiver_drop (cw_chan w) = (s, ts)" by fastforce
    then show ?thesis using DropReceiver step q ops(4) by (auto simp: stranded_iff)
  qed
qed

lemma stranded_run:
  "stranded t w \<Longrightarrow> rx \<noteq> t \<Longrightarrow> \<forall>op\<in>set ops. \<not> own_op t op \<Longrightarrow> ch_run dbg rx ops w = Ret (Some w') \<Longrightarrow> stranded t w'"
proof (induction ops arbitrary: w)
  case (Cons op ops)
  then obtain w1 where w1: "ch_legal op w" "ch_step dbg rx op w = Ret w1" "ch_run dbg rx ops w1 = Ret (Some w')"
    by (auto simp: outcome_bind_Ret_iff split: if_splits)
  have "stranded t w1" using stranded_step [OF Cons.prems(1,2) w1(1) _ w1(2)] Cons.prems(3) by simp
  then show ?case using Cons.IH w1(3) Cons.prems(2,3) by simp
qed simp

text \<open>
  C36. A waiting sender can be left behind. The comment on \<open>send_waiters\<close> says a wait list was introduced because a lost wake
  leaves a blocked sender hanging forever. It still can: a sender that is woken for a free slot finds the slot taken by
  another sender, and because its future still carries its old registration it does not queue up again. In the run below
  task \<open>t\<close> waits on a full channel, the receiver takes a value and wakes it, another task sends into the slot, and \<open>t\<close> is
  polled. Then the receiver empties the queue: \<open>t\<close>'s send is pending with room in the channel, it is in no wait list and
  no wake is due. Whatever the other tasks do from there, including dropping the receiver, \<open>t\<close> is never woken.
\<close>

theorem sender_lost_wakeup:
  assumes "t \<noteq> rx"
  shows "\<exists>s w. mpsc_channel 1 = Ret s \<and>
    ch_run dbg rx [TrySend a, StartSend t v, PollSend t, TryRecv, TrySend b, PollSend t, TryRecv] (ch_start s) = Ret (Some w) \<and>
    mp_queue (cw_chan w) = [] \<and> receiver_alive (cw_chan w) \<and> stranded t w \<and>
    (\<forall>ops w'. (\<forall>op\<in>set ops. \<not> own_op t op) \<longrightarrow> ch_run dbg rx ops w = Ret (Some w') \<longrightarrow> stranded t w')"
proof -
  define s :: "'a mpsc" where
    "s = \<lparr>mp_queue = [], mp_capacity = 1, mp_recv_waiter = None, mp_send_waiters = [], mp_sender_count = 1, mp_strong = 2\<rparr>"
  define w where "w = \<lparr>cw_chan = s, cw_sends = [(t, \<lparr>sf_value = Some v, sf_registered = Some t\<rparr>)], cw_accepted = [a, b],
    cw_received = [a, b], cw_woken = [], cw_parked = False\<rparr>"
  have "ch_run dbg rx [TrySend a, StartSend t v, PollSend t, TryRecv, TrySend b, PollSend t, TryRecv] (ch_start s) = Ret (Some w)"
    by (simp add: s_def w_def ch_start_def mp_try_send_def receiver_gone_def mp_push_def mp_send_def mp_send_poll_def mp_try_recv_def
      mp_pop_def receiver_alive_def note_wakes_def polled_def)
  moreover have st: "stranded t w" by (simp add: stranded_def w_def s_def)
  moreover have "mpsc_channel 1 = Ret s" by (simp add: mpsc_channel_def s_def)
  moreover have "mp_queue (cw_chan w) = []" "receiver_alive (cw_chan w)" by (simp_all add: w_def s_def receiver_alive_def)
  ultimately show ?thesis using stranded_run [OF st] assms by metis
qed

theorem sender_lost_wakeup_witness:
  "(7 :: u32) \<noteq> 9 \<and>
   (\<exists>s w. mpsc_channel 1 = Ret s \<and>
      ch_run True 9 [TrySend (1 :: nat), StartSend 7 2, PollSend 7, TryRecv, TrySend 3, PollSend 7, TryRecv] (ch_start s) = Ret (Some w) \<and>
      stranded 7 w \<and> (\<forall>w'. ch_run True 9 [PollRecv, DropReceiver] w = Ret (Some w') \<longrightarrow> stranded 7 w'))"
proof -
  have n: "(7 :: u32) \<noteq> 9" by simp
  obtain s :: "nat mpsc" and w where "mpsc_channel 1 = Ret s"
      "ch_run True 9 [TrySend 1, StartSend 7 2, PollSend 7, TryRecv, TrySend 3, PollSend 7, TryRecv] (ch_start s) = Ret (Some w)"
      "stranded 7 w" "\<forall>ops w'. (\<forall>op\<in>set ops. \<not> own_op 7 op) \<longrightarrow> ch_run True 9 ops w = Ret (Some w') \<longrightarrow> stranded 7 w'"
    using sender_lost_wakeup [OF n, of True 1 2 3] by metis
  moreover have "\<forall>op\<in>set [PollRecv :: nat ch_op, DropReceiver]. \<not> own_op 7 op" by (simp add: own_op_def)
  ultimately show ?thesis using n by metis
qed

end
