(* ===== verification/H2_Wire.thy ===== *)
theory H2_Wire
  imports Rust_Prelude
begin

section \<open>HTTP/2 errors, flow control and settings (\<open>ringline-h2/src/{error,flowcontrol,stream,settings}.rs\<close>)\<close>

text \<open>
  The vocabulary of the HTTP/2 client: error codes and errors, big-endian integers on the
  wire, flow-control windows, stream states and the SETTINGS codec. The \<open>String\<close> of an error
  is the list of pieces its \<open>format!\<close> is given; \<open>Lossy\<close> is \<open>String::from_utf8_lossy\<close>, \<open>LossyDebug\<close> its quoted debug format.
  Windows are \<open>i64\<close> in the source; they are integers here, and the bounds proved for the
  connection keep them far from the limits of \<open>i64\<close>.
\<close>

datatype msg_part = Lit string | Num nat | Lossy bytes | LossyDebug bytes
type_synonym message = "msg_part list"

datatype ErrorCode =
    NoError | ProtocolErrorCode | InternalErrorCode | FlowControlErrorCode | SettingsTimeout | StreamClosedCode
  | FrameSizeErrorCode | RefusedStream | Cancel | CompressionErrorCode | ConnectError | EnhanceYourCalm
  | InadequateSecurity | Http11Required

fun error_code_u32 :: "ErrorCode \<Rightarrow> u32" where
  "error_code_u32 NoError = 0x0"
| "error_code_u32 ProtocolErrorCode = 0x1"
| "error_code_u32 InternalErrorCode = 0x2"
| "error_code_u32 FlowControlErrorCode = 0x3"
| "error_code_u32 SettingsTimeout = 0x4"
| "error_code_u32 StreamClosedCode = 0x5"
| "error_code_u32 FrameSizeErrorCode = 0x6"
| "error_code_u32 RefusedStream = 0x7"
| "error_code_u32 Cancel = 0x8"
| "error_code_u32 CompressionErrorCode = 0x9"
| "error_code_u32 ConnectError = 0xa"
| "error_code_u32 EnhanceYourCalm = 0xb"
| "error_code_u32 InadequateSecurity = 0xc"
| "error_code_u32 Http11Required = 0xd"

definition error_code_from_u32 :: "u32 \<Rightarrow> ErrorCode" where
  "error_code_from_u32 v =
     (if v = 0x0 then NoError
      else if v = 0x1 then ProtocolErrorCode
      else if v = 0x2 then InternalErrorCode
      else if v = 0x3 then FlowControlErrorCode
      else if v = 0x4 then SettingsTimeout
      else if v = 0x5 then StreamClosedCode
      else if v = 0x6 then FrameSizeErrorCode
      else if v = 0x7 then RefusedStream
      else if v = 0x8 then Cancel
      else if v = 0x9 then CompressionErrorCode
      else if v = 0xa then ConnectError
      else if v = 0xb then EnhanceYourCalm
      else if v = 0xc then InadequateSecurity
      else if v = 0xd then Http11Required
      else InternalErrorCode)"

datatype H2Error =
    FrameError
  | ProtocolError message
  | CompressionError
  | FlowControlError
  | FrameSizeError
  | ConnectionError ErrorCode
  | StreamError u32 ErrorCode
  | MessageError message
  | MaxSizeExceeded message
  | Internal message

fun h2_error_code :: "H2Error \<Rightarrow> ErrorCode" where
  "h2_error_code FrameError = ProtocolErrorCode"
| "h2_error_code (ProtocolError _) = ProtocolErrorCode"
| "h2_error_code (MessageError _) = ProtocolErrorCode"
| "h2_error_code CompressionError = CompressionErrorCode"
| "h2_error_code FlowControlError = FlowControlErrorCode"
| "h2_error_code FrameSizeError = FrameSizeErrorCode"
| "h2_error_code (ConnectionError code) = code"
| "h2_error_code (StreamError _ code) = code"
| "h2_error_code (MaxSizeExceeded _) = EnhanceYourCalm"
| "h2_error_code (Internal _) = InternalErrorCode"

fun h2_error_display :: "H2Error \<Rightarrow> (ErrorCode \<Rightarrow> string) \<Rightarrow> message" where
  "h2_error_display FrameError dbg = [Lit ''frame error'']"
| "h2_error_display (ProtocolError s) dbg = Lit ''protocol error: '' # s"
| "h2_error_display CompressionError dbg = [Lit ''HPACK compression error'']"
| "h2_error_display FlowControlError dbg = [Lit ''flow control error'']"
| "h2_error_display FrameSizeError dbg = [Lit ''frame size error'']"
| "h2_error_display (ConnectionError code) dbg = [Lit ''connection error: '', Lit (dbg code)]"
| "h2_error_display (StreamError sid code) dbg = [Lit ''stream '', Num (unat sid), Lit '' error: '', Lit (dbg code)]"
| "h2_error_display (MessageError s) dbg = Lit ''message error: '' # s"
| "h2_error_display (MaxSizeExceeded s) dbg = Lit ''max size exceeded: '' # s"
| "h2_error_display (Internal s) dbg = Lit ''internal: '' # s"

type_synonym 'a h2_result = "H2Error + 'a"

fun h2_bind :: "'a h2_result \<Rightarrow> ('a \<Rightarrow> 'b h2_result) \<Rightarrow> 'b h2_result" where
  "h2_bind (Inl e) k = Inl e"
| "h2_bind (Inr x) k = k x"

lemma h2_bind_Inr_iff: "h2_bind m k = Inr y \<longleftrightarrow> (\<exists>x. m = Inr x \<and> k x = Inr y)"
  by (cases m) auto

lemma error_code_round_trip: "error_code_from_u32 (error_code_u32 c) = c"
  by (cases c) (simp_all add: error_code_from_u32_def)

subsection \<open>Big-endian integers\<close>

definition u32_bytes :: "u32 \<Rightarrow> bytes" where
  "u32_bytes v = [ucast (drop_bit 24 v), ucast (drop_bit 16 v), ucast (drop_bit 8 v), ucast v]"

definition read_u32 :: "u8 \<Rightarrow> u8 \<Rightarrow> u8 \<Rightarrow> u8 \<Rightarrow> u32" where
  "read_u32 a b c d = push_bit 24 (ucast a) OR push_bit 16 (ucast b) OR push_bit 8 (ucast c) OR ucast d"

definition read_u16 :: "u8 \<Rightarrow> u8 \<Rightarrow> u16" where
  "read_u16 a b = push_bit 8 (ucast a) OR ucast b"

definition read_u24 :: "u8 \<Rightarrow> u8 \<Rightarrow> u8 \<Rightarrow> u32" where
  "read_u24 a b c = push_bit 16 (ucast a) OR push_bit 8 (ucast b) OR ucast c"

named_theorems be_simps \<open>big-endian round trips\<close>

lemma read_u32_bytes [be_simps]:
  "read_u32 (ucast (drop_bit 24 v)) (ucast (drop_bit 16 v)) (ucast (drop_bit 8 v)) (ucast v) = v"
proof (rule bit_word_eqI)
  fix n assume n: "n < LENGTH(32)"
  consider "n < 8" | "8 \<le> n" "n < 16" | "16 \<le> n" "n < 24" | "24 \<le> n" "n < 32" using n by fastforce
  then show "bit (read_u32 (ucast (drop_bit 24 v)) (ucast (drop_bit 16 v)) (ucast (drop_bit 8 v)) (ucast v)) n = bit v n"
    by cases (auto simp: read_u32_def bit_simps)
qed

lemma read_u16_bytes [be_simps]: "read_u16 (ucast (drop_bit 8 v)) (ucast v) = v"
  by (rule bit_word_eqI) (auto simp: read_u16_def bit_simps)

lemma read_u24_bytes: 
  assumes "unat v < 2 ^ 24"
  shows "read_u24 (ucast (drop_bit 16 v)) (ucast (drop_bit 8 v)) (ucast v) = v"
proof (rule bit_word_eqI)
  fix n assume "n < LENGTH(32)"
  have hi: "\<not> bit v n" if "24 \<le> n"
  proof -
    have "bit (unat v) n \<longleftrightarrow> bit v n" using \<open>n < LENGTH(32)\<close> by (simp add: bit_unsigned_iff)
    moreover have "bit (unat v) n \<longleftrightarrow> odd (unat v div 2 ^ n)" by (simp add: bit_iff_odd)
    moreover have "unat v < 2 ^ n" using assms that power_increasing [of 24 n "2::nat"] by linarith
    ultimately show ?thesis by simp
  qed
  consider "n < 8" | "8 \<le> n" "n < 16" | "16 \<le> n" "n < 24" | "24 \<le> n" "n < 32" using \<open>n < LENGTH(32)\<close> by fastforce
  then show "bit (read_u24 (ucast (drop_bit 16 v)) (ucast (drop_bit 8 v)) (ucast v)) n = bit v n"
    using hi by cases (auto simp: read_u24_def bit_simps)
qed

lemma u32_bytes_inj: "u32_bytes a = u32_bytes b \<Longrightarrow> a = b"
proof -
  have "read_u32 (u32_bytes v ! 0) (u32_bytes v ! 1) (u32_bytes v ! 2) (u32_bytes v ! 3) = v" for v
    using read_u32_bytes [of v] by (simp add: u32_bytes_def)
  then show "u32_bytes a = u32_bytes b \<Longrightarrow> a = b" by metis
qed

lemma u32_bytes_length [simp]: "length (u32_bytes v) = 4"
  by (simp add: u32_bytes_def)

subsection \<open>Flow control and streams\<close>

definition DEFAULT_WINDOW_SIZE :: int where
  "DEFAULT_WINDOW_SIZE = 65535"

record FlowControl =
  fc_window :: int

definition fc_new :: "int \<Rightarrow> FlowControl" where
  "fc_new initial = \<lparr>fc_window = initial\<rparr>"

definition fc_default :: FlowControl where
  "fc_default = fc_new DEFAULT_WINDOW_SIZE"

definition fc_consume :: "u32 \<Rightarrow> FlowControl \<Rightarrow> FlowControl h2_result" where
  "fc_consume amount fc =
     (let new = fc_window fc - uint amount in
      if new < 0 then Inl FlowControlError else Inr (fc\<lparr>fc_window := new\<rparr>))"

definition fc_increase :: "u32 \<Rightarrow> FlowControl \<Rightarrow> FlowControl h2_result" where
  "fc_increase increment fc =
     (let new = fc_window fc + uint increment in
      if 0x7fffffff < new then Inl FlowControlError else Inr (fc\<lparr>fc_window := new\<rparr>))"

definition fc_adjust :: "int \<Rightarrow> FlowControl \<Rightarrow> FlowControl h2_result" where
  "fc_adjust delta fc =
     (let new = fc_window fc + delta in
      if 0x7fffffff < new then Inl FlowControlError else Inr (fc\<lparr>fc_window := new\<rparr>))"

lemma fc_consume_iff: "fc_consume a fc = Inr fc' \<longleftrightarrow> uint a \<le> fc_window fc \<and> fc' = fc\<lparr>fc_window := fc_window fc - uint a\<rparr>"
  by (auto simp: fc_consume_def Let_def)

lemma fc_increase_iff: "fc_increase a fc = Inr fc' \<longleftrightarrow> fc_window fc + uint a < 2 ^ 31 \<and> fc' = fc\<lparr>fc_window := fc_window fc + uint a\<rparr>"
  by (auto simp: fc_increase_def Let_def)

lemma fc_adjust_iff: "fc_adjust d fc = Inr fc' \<longleftrightarrow> fc_window fc + d < 2 ^ 31 \<and> fc' = fc\<lparr>fc_window := fc_window fc + d\<rparr>"
  by (auto simp: fc_adjust_def Let_def)

datatype StreamState = Idle | Open | HalfClosedLocal | HalfClosedRemote | Closed

record H2Stream =
  hs_state :: StreamState
  hs_recv_window :: FlowControl
  hs_send_window :: FlowControl
  hs_header_buf :: bytes
  hs_receiving_headers :: bool
  hs_headers_end_stream :: bool
  hs_received_initial_response :: bool

definition hs_new :: "int \<Rightarrow> int \<Rightarrow> H2Stream" where
  "hs_new initial_recv_window initial_send_window =
     \<lparr>hs_state = Open, hs_recv_window = fc_new initial_recv_window, hs_send_window = fc_new initial_send_window,
      hs_header_buf = [], hs_receiving_headers = False, hs_headers_end_stream = False, hs_received_initial_response = False\<rparr>"

subsection \<open>Settings\<close>

definition SETTINGS_HEADER_TABLE_SIZE :: u16 where "SETTINGS_HEADER_TABLE_SIZE = 0x1"
definition SETTINGS_ENABLE_PUSH :: u16 where "SETTINGS_ENABLE_PUSH = 0x2"
definition SETTINGS_MAX_CONCURRENT_STREAMS :: u16 where "SETTINGS_MAX_CONCURRENT_STREAMS = 0x3"
definition SETTINGS_INITIAL_WINDOW_SIZE :: u16 where "SETTINGS_INITIAL_WINDOW_SIZE = 0x4"
definition SETTINGS_MAX_FRAME_SIZE :: u16 where "SETTINGS_MAX_FRAME_SIZE = 0x5"
definition SETTINGS_MAX_HEADER_LIST_SIZE :: u16 where "SETTINGS_MAX_HEADER_LIST_SIZE = 0x6"
definition MAX_PEER_HEADER_TABLE_SIZE :: u32 where "MAX_PEER_HEADER_TABLE_SIZE = 65536"
definition DEFAULT_MAX_HEADER_LIST_SIZE :: u32 where "DEFAULT_MAX_HEADER_LIST_SIZE = 262144"

record Settings =
  header_table_size :: u32
  enable_push :: bool
  max_concurrent_streams :: "u32 option"
  initial_window_size :: u32
  max_frame_size :: u32
  max_header_list_size :: "u32 option"

definition settings_default :: Settings where
  "settings_default =
     \<lparr>header_table_size = 4096, enable_push = True, max_concurrent_streams = None, initial_window_size = 65535,
      max_frame_size = 16384, max_header_list_size = Some DEFAULT_MAX_HEADER_LIST_SIZE\<rparr>"

definition settings_client_default :: Settings where
  "settings_client_default = settings_default\<lparr>enable_push := False\<rparr>"

definition encode_setting :: "u16 \<Rightarrow> u32 \<Rightarrow> bytes" where
  "encode_setting i value = [ucast (drop_bit 8 i), ucast i] @ u32_bytes value"

definition settings_encode :: "Settings \<Rightarrow> bytes" where
  "settings_encode s =
     encode_setting SETTINGS_HEADER_TABLE_SIZE (header_table_size s) @
     encode_setting SETTINGS_ENABLE_PUSH (if enable_push s then 1 else 0) @
     (case max_concurrent_streams s of Some v \<Rightarrow> encode_setting SETTINGS_MAX_CONCURRENT_STREAMS v | None \<Rightarrow> []) @
     encode_setting SETTINGS_INITIAL_WINDOW_SIZE (initial_window_size s) @
     encode_setting SETTINGS_MAX_FRAME_SIZE (max_frame_size s) @
     (case max_header_list_size s of Some v \<Rightarrow> encode_setting SETTINGS_MAX_HEADER_LIST_SIZE v | None \<Rightarrow> [])"

definition apply_setting :: "u16 \<Rightarrow> u32 \<Rightarrow> Settings \<Rightarrow> Settings h2_result" where
  "apply_setting i value s =
     (if i = SETTINGS_HEADER_TABLE_SIZE then Inr (s\<lparr>header_table_size := min value MAX_PEER_HEADER_TABLE_SIZE\<rparr>)
      else if i = SETTINGS_ENABLE_PUSH then
        (if 1 < value then Inl (ProtocolError [Lit ''ENABLE_PUSH must be 0 or 1'']) else Inr (s\<lparr>enable_push := value = 1\<rparr>))
      else if i = SETTINGS_MAX_CONCURRENT_STREAMS then Inr (s\<lparr>max_concurrent_streams := Some value\<rparr>)
      else if i = SETTINGS_INITIAL_WINDOW_SIZE then
        (if 0x7fffffff < value then Inl FlowControlError else Inr (s\<lparr>initial_window_size := value\<rparr>))
      else if i = SETTINGS_MAX_FRAME_SIZE then
        (if \<not> (16384 \<le> value \<and> value \<le> 16777215) then Inl (ProtocolError [Lit ''MAX_FRAME_SIZE out of range''])
         else Inr (s\<lparr>max_frame_size := value\<rparr>))
      else if i = SETTINGS_MAX_HEADER_LIST_SIZE then Inr (s\<lparr>max_header_list_size := Some value\<rparr>)
      else Inr s)"

text \<open>The loop stops when fewer than six bytes are left, whatever they are.\<close>

fun settings_loop :: "bytes \<Rightarrow> Settings \<Rightarrow> Settings h2_result" where
  "settings_loop (a # b # c # d # e # f # rest) s =
     h2_bind (apply_setting (read_u16 a b) (read_u32 c d e f) s) (settings_loop rest)"
| "settings_loop short s = Inr s"

definition settings_decode :: "bytes \<Rightarrow> Settings h2_result" where
  "settings_decode buf =
     (if length buf mod 6 \<noteq> 0 then Inl FrameSizeError else settings_loop buf settings_default)"

text \<open>What this endpoint may advertise: the values a decoder accepts.\<close>

definition settings_valid :: "Settings \<Rightarrow> bool" where
  "settings_valid s \<longleftrightarrow> initial_window_size s \<le> 0x7fffffff \<and> 16384 \<le> max_frame_size s \<and> max_frame_size s \<le> 16777215"

definition settings_bounded :: "Settings \<Rightarrow> bool" where
  "settings_bounded s \<longleftrightarrow> settings_valid s \<and> header_table_size s \<le> MAX_PEER_HEADER_TABLE_SIZE"

lemma apply_setting_bounded: "apply_setting i v s = Inr s' \<Longrightarrow> settings_bounded s \<Longrightarrow> settings_bounded s'"
  by (auto simp: apply_setting_def settings_bounded_def settings_valid_def split: if_splits)

lemma settings_loop_bounded: "settings_loop buf s = Inr s' \<Longrightarrow> settings_bounded s \<Longrightarrow> settings_bounded s'"
  by (induction buf s rule: settings_loop.induct) (auto simp: h2_bind_Inr_iff dest: apply_setting_bounded)

lemma settings_default_bounded: "settings_bounded settings_default"
  by (simp add: settings_bounded_def settings_valid_def settings_default_def MAX_PEER_HEADER_TABLE_SIZE_def)

lemma settings_loop_entry:
  "settings_loop (encode_setting i v @ rest) s = h2_bind (apply_setting i v s) (settings_loop rest)"
  by (simp add: encode_setting_def u32_bytes_def be_simps)

lemmas settings_ids = SETTINGS_HEADER_TABLE_SIZE_def SETTINGS_ENABLE_PUSH_def SETTINGS_MAX_CONCURRENT_STREAMS_def
  SETTINGS_INITIAL_WINDOW_SIZE_def SETTINGS_MAX_FRAME_SIZE_def SETTINGS_MAX_HEADER_LIST_SIZE_def

lemma length_encode_setting [simp]: "length (encode_setting i v) = 6"
  by (simp add: encode_setting_def)

lemma settings_encode_length: "length (settings_encode s) mod 6 = 0"
  by (simp add: settings_encode_def split: option.split)

lemma settings_decode_encode:
  assumes "settings_valid s"
  shows "settings_decode (settings_encode s) =
      Inr (s\<lparr>header_table_size := min (header_table_size s) MAX_PEER_HEADER_TABLE_SIZE,
             max_header_list_size := Some (case max_header_list_size s of Some v \<Rightarrow> v | None \<Rightarrow> DEFAULT_MAX_HEADER_LIST_SIZE)\<rparr>)"
proof -
  have nil: "settings_loop (encode_setting i v) t = h2_bind (apply_setting i v t) Inr" for i v t
    using settings_loop_entry [of i v "[]" t] by (cases "apply_setting i v t") simp_all
  show ?thesis
    using assms settings_encode_length [of s]
    by (cases s) (auto simp: settings_decode_def settings_encode_def settings_loop_entry nil apply_setting_def settings_ids
        settings_valid_def settings_default_def split: option.splits)
qed

lemma settings_decode_bounded: "settings_decode buf = Inr s \<Longrightarrow> settings_bounded s"
  using settings_loop_bounded settings_default_bounded by (auto simp: settings_decode_def split: if_splits)

text \<open>
  C19. SETTINGS round trip. Decoding the encoding of any settings an endpoint may advertise gives them
  back, except that the table size is capped at the ceiling the decoder honours and an
  unlimited header list size, which has no encoding, reads as the decoder's default. Every
  successfully decoded payload, whoever produced it, is within the ranges of the RFC and the
  table-size ceiling.
\<close>

theorem settings_round_trip:
  "(settings_valid s \<longrightarrow>
      settings_decode (settings_encode s) =
        Inr (s\<lparr>header_table_size := min (header_table_size s) MAX_PEER_HEADER_TABLE_SIZE,
               max_header_list_size := Some (case max_header_list_size s of Some v \<Rightarrow> v | None \<Rightarrow> DEFAULT_MAX_HEADER_LIST_SIZE)\<rparr>)) \<and>
   (settings_decode buf = Inr s' \<longrightarrow> settings_bounded s')"
  using settings_decode_encode settings_decode_bounded by blast

theorem settings_round_trip_witness:
  "settings_valid settings_client_default \<and> settings_decode (settings_encode settings_client_default) = Inr settings_client_default \<and>
   settings_bounded settings_client_default"
proof -
  have v: "settings_valid settings_client_default" by code_simp
  have d: "settings_decode (settings_encode settings_client_default) = Inr settings_client_default"
    using settings_round_trip [of settings_client_default "[]"] v
    by (simp add: settings_client_default_def settings_default_def MAX_PEER_HEADER_TABLE_SIZE_def)
  then show ?thesis using v settings_round_trip [of settings_client_default "settings_encode settings_client_default"] by simp
qed

end
