(* ===== verification/H2_Frame.thy ===== *)
theory H2_Frame
  imports H2_Wire
begin

section \<open>HTTP/2 frames (\<open>ringline-h2/src/frame.rs\<close>)\<close>

text \<open>
  The frame datatype with the source's constructors, the frame header, the encoder of every
  frame and the decoder with its checks in source order. Slices are lists; \<open>payload.len()\<close>
  is cast to \<open>u32\<close> as in the source.
\<close>

definition FRAME_HEADER_LEN :: nat where "FRAME_HEADER_LEN = 9"
definition FRAME_DATA :: u8 where "FRAME_DATA = 0x0"
definition FRAME_HEADERS :: u8 where "FRAME_HEADERS = 0x1"
definition FRAME_PRIORITY :: u8 where "FRAME_PRIORITY = 0x2"
definition FRAME_RST_STREAM :: u8 where "FRAME_RST_STREAM = 0x3"
definition FRAME_SETTINGS :: u8 where "FRAME_SETTINGS = 0x4"
definition FRAME_PUSH_PROMISE :: u8 where "FRAME_PUSH_PROMISE = 0x5"
definition FRAME_PING :: u8 where "FRAME_PING = 0x6"
definition FRAME_GOAWAY :: u8 where "FRAME_GOAWAY = 0x7"
definition FRAME_WINDOW_UPDATE :: u8 where "FRAME_WINDOW_UPDATE = 0x8"
definition FRAME_CONTINUATION :: u8 where "FRAME_CONTINUATION = 0x9"
definition FLAG_END_STREAM :: u8 where "FLAG_END_STREAM = 0x1"
definition FLAG_ACK :: u8 where "FLAG_ACK = 0x1"
definition FLAG_END_HEADERS :: u8 where "FLAG_END_HEADERS = 0x4"
definition FLAG_PADDED :: u8 where "FLAG_PADDED = 0x8"
definition FLAG_PRIORITY :: u8 where "FLAG_PRIORITY = 0x20"

lemmas frame_types = FRAME_DATA_def FRAME_HEADERS_def FRAME_PRIORITY_def FRAME_RST_STREAM_def FRAME_SETTINGS_def
  FRAME_PUSH_PROMISE_def FRAME_PING_def FRAME_GOAWAY_def FRAME_WINDOW_UPDATE_def FRAME_CONTINUATION_def
lemmas frame_flags = FLAG_END_STREAM_def FLAG_ACK_def FLAG_END_HEADERS_def FLAG_PADDED_def FLAG_PRIORITY_def

record Priority =
  exclusive :: bool
  dependency :: u32
  weight :: u8

datatype Frame =
    FData u32 bytes bool
  | FHeaders u32 bytes bool bool "Priority option"
  | FPriority u32 Priority
  | FRstStream u32 ErrorCode
  | FSettings bool Settings
  | FPushPromise u32 u32 bytes bool
  | FPing bool bytes
  | FGoAway u32 ErrorCode bytes
  | FWindowUpdate u32 u32
  | FContinuation u32 bytes bool
  | FUnknown u8 u8 u32 bytes

definition encode_frame_header :: "u32 \<Rightarrow> u8 \<Rightarrow> u8 \<Rightarrow> u32 \<Rightarrow> bytes" where
  "encode_frame_header payload_len frame_type flags stream_id =
     [ucast (drop_bit 16 payload_len), ucast (drop_bit 8 payload_len), ucast payload_len, frame_type, flags] @
     u32_bytes (stream_id AND 0x7fffffff)"

record FrameHeader =
  fh_length :: u32
  fh_frame_type :: u8
  fh_flags :: u8
  fh_stream_id :: u32

fun decode_frame_header :: "bytes \<Rightarrow> FrameHeader option" where
  "decode_frame_header (l0 # l1 # l2 # t # fl # s0 # s1 # s2 # s3 # rest) =
     Some \<lparr>fh_length = read_u24 l0 l1 l2, fh_frame_type = t, fh_flags = fl,
           fh_stream_id = read_u32 s0 s1 s2 s3 AND 0x7fffffff\<rparr>"
| "decode_frame_header short = None"

definition priority_bytes :: "Priority \<Rightarrow> bytes" where
  "priority_bytes p =
     u32_bytes (if exclusive p then dependency p OR 0x80000000 else dependency p) @ [weight p]"

fun frame_encode :: "Frame \<Rightarrow> bytes" where
  "frame_encode (FData stream_id payload end_stream) =
     encode_frame_header (of_nat (length payload)) FRAME_DATA (if end_stream then FLAG_END_STREAM else 0) stream_id @ payload"
| "frame_encode (FHeaders stream_id encoded end_stream end_headers priority) =
     (let flags = (if end_stream then FLAG_END_STREAM else 0) OR (if end_headers then FLAG_END_HEADERS else 0);
          payload_len = of_nat (length encoded)
      in (case priority of
            Some pri \<Rightarrow> encode_frame_header (payload_len + 5) FRAME_HEADERS (flags OR FLAG_PRIORITY) stream_id @ priority_bytes pri
          | None \<Rightarrow> encode_frame_header payload_len FRAME_HEADERS flags stream_id) @ encoded)"
| "frame_encode (FPriority stream_id priority) =
     encode_frame_header 5 FRAME_PRIORITY 0 stream_id @ priority_bytes priority"
| "frame_encode (FRstStream stream_id error_code) =
     encode_frame_header 4 FRAME_RST_STREAM 0 stream_id @ u32_bytes (error_code_u32 error_code)"
| "frame_encode (FSettings ack settings) =
     (let flags = (if ack then FLAG_ACK else 0) in
      if ack then encode_frame_header 0 FRAME_SETTINGS flags 0
      else let payload = settings_encode settings
           in encode_frame_header (of_nat (length payload)) FRAME_SETTINGS flags 0 @ payload)"
| "frame_encode (FPushPromise stream_id promised_stream_id encoded end_headers) =
     encode_frame_header (4 + of_nat (length encoded)) FRAME_PUSH_PROMISE (if end_headers then FLAG_END_HEADERS else 0) stream_id @
     u32_bytes (promised_stream_id AND 0x7fffffff) @ encoded"
| "frame_encode (FPing ack opaque_data) =
     encode_frame_header 8 FRAME_PING (if ack then FLAG_ACK else 0) 0 @ opaque_data"
| "frame_encode (FGoAway last_stream_id error_code debug_data) =
     encode_frame_header (8 + of_nat (length debug_data)) FRAME_GOAWAY 0 0 @
     u32_bytes (last_stream_id AND 0x7fffffff) @ u32_bytes (error_code_u32 error_code) @ debug_data"
| "frame_encode (FWindowUpdate stream_id increment) =
     encode_frame_header 4 FRAME_WINDOW_UPDATE 0 stream_id @ u32_bytes (increment AND 0x7fffffff)"
| "frame_encode (FContinuation stream_id encoded end_headers) =
     encode_frame_header (of_nat (length encoded)) FRAME_CONTINUATION (if end_headers then FLAG_END_HEADERS else 0) stream_id @ encoded"
| "frame_encode (FUnknown frame_type flags stream_id payload) =
     encode_frame_header (of_nat (length payload)) frame_type flags stream_id @ payload"

definition strip_padding :: "bytes \<Rightarrow> u8 \<Rightarrow> (bytes \<times> nat) h2_result" where
  "strip_padding payload flags =
     (if flags AND FLAG_PADDED \<noteq> 0 then
        (case payload of
           [] \<Rightarrow> Inl FrameSizeError
         | p # rest \<Rightarrow>
             let pad_len = unat p in
             if length payload \<le> pad_len then Inl (ProtocolError [Lit ''padding exceeds payload''])
             else Inr (take (length payload - pad_len - 1) rest, pad_len))
      else Inr (payload, 0))"

definition protocol_error :: "string \<Rightarrow> 'a h2_result" where
  "protocol_error s = Inl (ProtocolError [Lit s])"

text \<open>One case of the decoder's \<open>match\<close> each; the byte patterns are the length checks.\<close>

definition decode_data :: "u32 \<Rightarrow> u8 \<Rightarrow> bytes \<Rightarrow> Frame h2_result" where
  "decode_data stream_id flags payload =
     (if stream_id = 0 then protocol_error ''DATA on stream 0''
      else h2_bind (strip_padding payload flags) (\<lambda>(payload_data, _).
        Inr (FData stream_id payload_data (flags AND FLAG_END_STREAM \<noteq> 0))))"

definition decode_priority :: "u8 \<Rightarrow> u8 \<Rightarrow> u8 \<Rightarrow> u8 \<Rightarrow> u8 \<Rightarrow> Priority" where
  "decode_priority a b c d w =
     (let dep_raw = read_u32 a b c d in
      \<lparr>exclusive = dep_raw AND 0x80000000 \<noteq> 0, dependency = dep_raw AND 0x7fffffff, weight = w\<rparr>)"

definition decode_headers :: "u32 \<Rightarrow> u8 \<Rightarrow> bytes \<Rightarrow> Frame h2_result" where
  "decode_headers stream_id flags payload =
     (if stream_id = 0 then protocol_error ''HEADERS on stream 0''
      else h2_bind (strip_padding payload flags) (\<lambda>(data, _).
        h2_bind
          (if flags AND FLAG_PRIORITY \<noteq> 0 then
             (case data of
                a # b # c # d # w # rest \<Rightarrow> Inr (Some (decode_priority a b c d w), rest)
              | _ \<Rightarrow> Inl FrameSizeError)
           else Inr (None, data))
          (\<lambda>(priority, header_block).
             Inr (FHeaders stream_id header_block (flags AND FLAG_END_STREAM \<noteq> 0) (flags AND FLAG_END_HEADERS \<noteq> 0) priority))))"

definition decode_priority_frame :: "u32 \<Rightarrow> bytes \<Rightarrow> Frame h2_result" where
  "decode_priority_frame stream_id payload =
     (if stream_id = 0 then protocol_error ''PRIORITY on stream 0''
      else case payload of
          [a, b, c, d, w] \<Rightarrow> Inr (FPriority stream_id (decode_priority a b c d w))
        | _ \<Rightarrow> Inl FrameSizeError)"

definition decode_rst_stream :: "u32 \<Rightarrow> bytes \<Rightarrow> Frame h2_result" where
  "decode_rst_stream stream_id payload =
     (if stream_id = 0 then protocol_error ''RST_STREAM on stream 0''
      else case payload of
          [a, b, c, d] \<Rightarrow> Inr (FRstStream stream_id (error_code_from_u32 (read_u32 a b c d)))
        | _ \<Rightarrow> Inl FrameSizeError)"

definition decode_settings_frame :: "u32 \<Rightarrow> u8 \<Rightarrow> bytes \<Rightarrow> Frame h2_result" where
  "decode_settings_frame stream_id flags payload =
     (if stream_id \<noteq> 0 then protocol_error ''SETTINGS on non-zero stream''
      else if flags AND FLAG_ACK \<noteq> 0 then
        (if payload \<noteq> [] then Inl FrameSizeError else Inr (FSettings True settings_default))
      else if length payload mod 6 \<noteq> 0 then Inl FrameSizeError
      else h2_bind (settings_decode payload) (\<lambda>settings. Inr (FSettings False settings)))"

definition decode_push_promise :: "u32 \<Rightarrow> u8 \<Rightarrow> bytes \<Rightarrow> Frame h2_result" where
  "decode_push_promise stream_id flags payload =
     (if stream_id = 0 then protocol_error ''PUSH_PROMISE on stream 0''
      else h2_bind (strip_padding payload flags) (\<lambda>(data, _).
        case data of
          a # b # c # d # rest \<Rightarrow>
            Inr (FPushPromise stream_id (read_u32 a b c d AND 0x7fffffff) rest (flags AND FLAG_END_HEADERS \<noteq> 0))
        | _ \<Rightarrow> Inl FrameSizeError))"

definition decode_ping :: "u32 \<Rightarrow> u8 \<Rightarrow> bytes \<Rightarrow> Frame h2_result" where
  "decode_ping stream_id flags payload =
     (if stream_id \<noteq> 0 then protocol_error ''PING on non-zero stream''
      else if length payload \<noteq> 8 then Inl FrameSizeError
      else Inr (FPing (flags AND FLAG_ACK \<noteq> 0) payload))"

definition decode_goaway :: "u32 \<Rightarrow> bytes \<Rightarrow> Frame h2_result" where
  "decode_goaway stream_id payload =
     (if stream_id \<noteq> 0 then protocol_error ''GOAWAY on non-zero stream''
      else case payload of
          a # b # c # d # e # f # g # h # rest \<Rightarrow>
            Inr (FGoAway (read_u32 a b c d AND 0x7fffffff) (error_code_from_u32 (read_u32 e f g h)) rest)
        | _ \<Rightarrow> Inl FrameSizeError)"

definition decode_window_update :: "u32 \<Rightarrow> bytes \<Rightarrow> Frame h2_result" where
  "decode_window_update stream_id payload =
     (case payload of
        [a, b, c, d] \<Rightarrow>
          let inc = read_u32 a b c d AND 0x7fffffff in
          if inc = 0 then protocol_error ''WINDOW_UPDATE with 0 increment'' else Inr (FWindowUpdate stream_id inc)
      | _ \<Rightarrow> Inl FrameSizeError)"

definition decode_continuation :: "u32 \<Rightarrow> u8 \<Rightarrow> bytes \<Rightarrow> Frame h2_result" where
  "decode_continuation stream_id flags payload =
     (if stream_id = 0 then protocol_error ''CONTINUATION on stream 0''
      else Inr (FContinuation stream_id payload (flags AND FLAG_END_HEADERS \<noteq> 0)))"

definition decode_payload :: "FrameHeader \<Rightarrow> bytes \<Rightarrow> Frame h2_result" where
  "decode_payload h payload =
     (let t = fh_frame_type h; flags = fh_flags h; stream_id = fh_stream_id h in
      if t = FRAME_DATA then decode_data stream_id flags payload
      else if t = FRAME_HEADERS then decode_headers stream_id flags payload
      else if t = FRAME_PRIORITY then decode_priority_frame stream_id payload
      else if t = FRAME_RST_STREAM then decode_rst_stream stream_id payload
      else if t = FRAME_SETTINGS then decode_settings_frame stream_id flags payload
      else if t = FRAME_PUSH_PROMISE then decode_push_promise stream_id flags payload
      else if t = FRAME_PING then decode_ping stream_id flags payload
      else if t = FRAME_GOAWAY then decode_goaway stream_id payload
      else if t = FRAME_WINDOW_UPDATE then decode_window_update stream_id payload
      else if t = FRAME_CONTINUATION then decode_continuation stream_id flags payload
      else Inr (FUnknown t flags stream_id payload))"

definition decode_frame :: "bytes \<Rightarrow> u32 \<Rightarrow> (Frame \<times> nat) option h2_result" where
  "decode_frame buf max_size =
     (case decode_frame_header buf of
        None \<Rightarrow> Inr None
      | Some h \<Rightarrow>
          let total_len = FRAME_HEADER_LEN + unat (fh_length h) in
          if length buf < total_len then Inr None
          else if max_size < fh_length h then Inl FrameSizeError
          else h2_bind (decode_payload h (buf_slice FRAME_HEADER_LEN (unat (fh_length h)) buf)) (\<lambda>frame.
            Inr (Some (frame, total_len))))"

subsection \<open>Headers\<close>

definition id31 :: "u32 \<Rightarrow> bool" where
  "id31 v \<longleftrightarrow> v AND 0x7fffffff = v"

lemma id31_0 [simp]: "id31 0"
  by (simp add: id31_def)

lemma id31_mask [simp]: "id31 (v AND 0x7fffffff)"
  by (simp add: id31_def and.assoc)

lemma decode_encoded_header:
  assumes "unat n < 2 ^ 24"
  shows "decode_frame_header (encode_frame_header n t fl sid @ p) =
    Some \<lparr>fh_length = n, fh_frame_type = t, fh_flags = fl, fh_stream_id = sid AND 0x7fffffff\<rparr>"
  using read_u24_bytes [OF assms] read_u32_bytes [of "sid AND 0x7fffffff"]
  by (simp add: encode_frame_header_def u32_bytes_def and.assoc)

lemma length_encode_frame_header [simp]: "length (encode_frame_header n t fl sid) = 9"
  by (simp add: encode_frame_header_def)

lemma decode_encoded:
  assumes "length p < 2 ^ 24" "id31 sid" "length p \<le> unat max_size" "unat n = length p"
  shows "decode_frame (encode_frame_header n t fl sid @ p @ rest) max_size =
    h2_bind (decode_payload \<lparr>fh_length = n, fh_frame_type = t, fh_flags = fl, fh_stream_id = sid\<rparr> p)
      (\<lambda>frame. Inr (Some (frame, 9 + length p)))"
proof -
  have "\<not> max_size < n" using assms(3,4) by (simp add: word_less_nat_alt)
  moreover have "sid AND 0x7fffffff = sid" using assms(2) by (simp add: id31_def)
  ultimately show ?thesis
    using decode_encoded_header [of n t fl sid "p @ rest"] assms
    by (simp add: decode_frame_def FRAME_HEADER_LEN_def buf_slice_def Let_def)
qed

lemma strip_unpadded: "flags AND FLAG_PADDED = 0 \<Longrightarrow> strip_padding p flags = Inr (p, 0)"
  by (simp add: strip_padding_def)

lemma decode_priority_bytes:
  assumes "id31 (dependency pri)"
  shows "priority_bytes pri = u32_bytes v @ [w] \<Longrightarrow>
    decode_priority (ucast (drop_bit 24 v)) (ucast (drop_bit 16 v)) (ucast (drop_bit 8 v)) (ucast v) w = pri"
proof -
  assume "priority_bytes pri = u32_bytes v @ [w]"
  then have w: "w = weight pri" and u: "u32_bytes v = u32_bytes (if exclusive pri then dependency pri OR 0x80000000 else dependency pri)"
    by (auto simp: priority_bytes_def)
  note v = u32_bytes_inj [OF u]
  have m: "dependency pri AND 0x7fffffff = dependency pri" using assms by (simp add: id31_def)
  have z: "dependency pri AND 0x80000000 = 0"
  proof -
    have "dependency pri AND 0x80000000 = dependency pri AND (0x7fffffff AND 0x80000000)"
      by (subst m [symmetric]) (simp only: and.assoc)
    then show ?thesis by simp
  qed
  show ?thesis
    unfolding decode_priority_def Let_def read_u32_bytes v w
    by (cases pri) (use m z in \<open>auto simp: bit.conj_disj_distrib2\<close>)
qed

subsection \<open>Round trip\<close>

text \<open>The frames that fit the wire format, and the length of their payload.\<close>

fun frame_payload_len :: "Frame \<Rightarrow> nat" where
  "frame_payload_len (FData _ p _) = length p"
| "frame_payload_len (FHeaders _ p _ _ pri) = length p + (if pri = None then 0 else 5)"
| "frame_payload_len (FPriority _ _) = 5"
| "frame_payload_len (FRstStream _ _) = 4"
| "frame_payload_len (FSettings ack s) = (if ack then 0 else length (settings_encode s))"
| "frame_payload_len (FPushPromise _ _ p _) = 4 + length p"
| "frame_payload_len (FPing _ p) = length p"
| "frame_payload_len (FGoAway _ _ p) = 8 + length p"
| "frame_payload_len (FWindowUpdate _ _) = 4"
| "frame_payload_len (FContinuation _ p _) = length p"
| "frame_payload_len (FUnknown _ _ _ p) = length p"

fun frame_ok :: "Frame \<Rightarrow> bool" where
  "frame_ok (FData sid p _) \<longleftrightarrow> id31 sid \<and> sid \<noteq> 0"
| "frame_ok (FHeaders sid p _ _ pri) \<longleftrightarrow> id31 sid \<and> sid \<noteq> 0 \<and> (case pri of Some q \<Rightarrow> id31 (dependency q) | None \<Rightarrow> True)"
| "frame_ok (FPriority sid pri) \<longleftrightarrow> id31 sid \<and> sid \<noteq> 0 \<and> id31 (dependency pri)"
| "frame_ok (FRstStream sid _) \<longleftrightarrow> id31 sid \<and> sid \<noteq> 0"
| "frame_ok (FSettings ack s) \<longleftrightarrow> ack \<or> settings_valid s"
| "frame_ok (FPushPromise sid psid p _) \<longleftrightarrow> id31 sid \<and> sid \<noteq> 0 \<and> id31 psid"
| "frame_ok (FPing _ p) \<longleftrightarrow> length p = 8"
| "frame_ok (FGoAway lsid _ _) \<longleftrightarrow> id31 lsid"
| "frame_ok (FWindowUpdate sid inc) \<longleftrightarrow> id31 sid \<and> id31 inc \<and> inc \<noteq> 0"
| "frame_ok (FContinuation sid _ _) \<longleftrightarrow> id31 sid \<and> sid \<noteq> 0"
| "frame_ok (FUnknown t _ sid _) \<longleftrightarrow> id31 sid \<and> 9 < t"

text \<open>What a settings frame reads as; every other frame is unchanged.\<close>

fun frame_read :: "Frame \<Rightarrow> Frame" where
  "frame_read (FSettings ack s) =
     (if ack then FSettings True settings_default
      else case settings_decode (settings_encode s) of Inr s' \<Rightarrow> FSettings False s' | Inl _ \<Rightarrow> FSettings False s)"
| "frame_read f = f"

lemma u32_append:
  "unat (of_nat n :: u32) = n" "unat (of_nat n + 5 :: u32) = n + 5" "unat (4 + of_nat n :: u32) = 4 + n" "unat (8 + of_nat n :: u32) = 8 + n"
  if "n < 2 ^ 24"
proof -
  show n: "unat (of_nat n :: u32) = n" using that by (intro unat_of_nat_fits) simp
  have "of_nat n + 5 = (of_nat (n + 5) :: u32)" "4 + of_nat n = (of_nat (4 + n) :: u32)" "8 + of_nat n = (of_nat (8 + n) :: u32)"
    by simp_all
  moreover have "unat (of_nat (n + 5) :: u32) = n + 5" "unat (of_nat (4 + n) :: u32) = 4 + n" "unat (of_nat (8 + n) :: u32) = 8 + n"
    by (rule unat_of_nat_fits, use that in simp)+
  ultimately show "unat (of_nat n + 5 :: u32) = n + 5" "unat (4 + of_nat n :: u32) = 4 + n" "unat (8 + of_nat n :: u32) = 8 + n"
    by (simp_all only:)
qed

lemmas decode_cases = decode_payload_def decode_data_def decode_headers_def decode_priority_frame_def decode_rst_stream_def
  decode_settings_frame_def decode_push_promise_def decode_ping_def decode_goaway_def decode_window_update_def
  decode_continuation_def strip_padding_def protocol_error_def Let_def

lemma known_type: "9 < t \<Longrightarrow> t \<notin> {0, 1, 2, 3, 4, 5, 6, 7, 8, 9}" for t :: u8
  by auto

lemma frame_round_trip_aux:
  assumes ok: "frame_ok f" and len: "frame_payload_len f < 2 ^ 24" "frame_payload_len f \<le> unat max_size"
  shows "decode_frame (frame_encode f @ rest) max_size = Inr (Some (frame_read f, length (frame_encode f)))"
proof (cases f)
  case (FData sid p es)
  then show ?thesis
    using ok len decode_encoded [of p sid max_size "of_nat (length p)" FRAME_DATA "if es then FLAG_END_STREAM else 0" rest]
    by (simp add: u32_append decode_cases frame_types frame_flags)
next
  case (FHeaders sid p es eh pri)
  let ?fl = "(if es then FLAG_END_STREAM else 0) OR (if eh then FLAG_END_HEADERS else 0)"
  show ?thesis
  proof (cases pri)
    case None
    then show ?thesis
      using FHeaders ok len decode_encoded [of p sid max_size "of_nat (length p)" FRAME_HEADERS ?fl rest]
      by (cases es; cases eh) (simp_all add: u32_append decode_cases frame_types frame_flags)
  next
    case (Some q)
    obtain v w where vw: "priority_bytes q = u32_bytes v @ [w]" by (auto simp: priority_bytes_def)
    have "length p < 2 ^ 24" using len Some FHeaders by simp
    then show ?thesis
      using Some FHeaders ok len vw decode_priority_bytes [OF _ vw]
        decode_encoded [of "u32_bytes v @ [w] @ p" sid max_size "of_nat (length p) + 5" FRAME_HEADERS "?fl OR FLAG_PRIORITY" rest]
      by (cases es; cases eh) (simp_all add: u32_append decode_cases frame_types frame_flags u32_bytes_def)
  qed
next
  case (FPriority sid q)
  obtain v w where vw: "priority_bytes q = u32_bytes v @ [w]" by (auto simp: priority_bytes_def)
  then show ?thesis
    using FPriority ok len decode_priority_bytes [OF _ vw] decode_encoded [of "u32_bytes v @ [w]" sid max_size 5 FRAME_PRIORITY 0 rest]
    by (simp add: decode_cases frame_types u32_bytes_def)
next
  case (FRstStream sid c)
  then show ?thesis
    using ok len decode_encoded [of "u32_bytes (error_code_u32 c)" sid max_size 4 FRAME_RST_STREAM 0 rest]
    by (simp add: decode_cases frame_types u32_bytes_def be_simps error_code_round_trip)
next
  case (FSettings ack st)
  show ?thesis
  proof (cases ack)
    case True
    then show ?thesis
      using FSettings decode_encoded [of "[]" 0 max_size 0 FRAME_SETTINGS FLAG_ACK rest]
      by (simp add: decode_cases frame_types frame_flags)
  next
    case False
    let ?p = "settings_encode st"
    obtain st' where "settings_decode ?p = Inr st'"
      using FSettings False ok settings_decode_encode [of st] by auto
    then show ?thesis
      using FSettings False len settings_encode_length [of st]
        decode_encoded [of ?p 0 max_size "of_nat (length ?p)" FRAME_SETTINGS 0 rest]
      by (simp add: u32_append decode_cases frame_types frame_flags)
  qed
next
  case (FPushPromise sid psid p eh)
  have "length p < 2 ^ 24" "psid AND 0x7fffffff = psid" using len ok FPushPromise by (simp_all add: id31_def)
  then show ?thesis
    using FPushPromise ok len
      decode_encoded [of "u32_bytes psid @ p" sid max_size "4 + of_nat (length p)" FRAME_PUSH_PROMISE "if eh then FLAG_END_HEADERS else 0" rest]
    by (cases eh) (simp_all add: u32_append decode_cases frame_types frame_flags u32_bytes_def be_simps)
next
  case (FPing ack p)
  then show ?thesis
    using ok len decode_encoded [of p 0 max_size 8 FRAME_PING "if ack then FLAG_ACK else 0" rest]
    by (cases ack) (simp_all add: decode_cases frame_types frame_flags)
next
  case (FGoAway lsid c p)
  have "length p < 2 ^ 24" "lsid AND 0x7fffffff = lsid" using len ok FGoAway by (simp_all add: id31_def)
  then show ?thesis
    using FGoAway ok len
      decode_encoded [of "u32_bytes lsid @ u32_bytes (error_code_u32 c) @ p" 0 max_size "8 + of_nat (length p)" FRAME_GOAWAY 0 rest]
    by (simp add: u32_append decode_cases frame_types u32_bytes_def be_simps error_code_round_trip)
next
  case (FWindowUpdate sid inc)
  have "inc AND 0x7fffffff = inc" using ok FWindowUpdate by (simp add: id31_def)
  then show ?thesis
    using FWindowUpdate ok len decode_encoded [of "u32_bytes inc" sid max_size 4 FRAME_WINDOW_UPDATE 0 rest]
    by (simp add: decode_cases frame_types u32_bytes_def be_simps)
next
  case (FContinuation sid p eh)
  then show ?thesis
    using ok len decode_encoded [of p sid max_size "of_nat (length p)" FRAME_CONTINUATION "if eh then FLAG_END_HEADERS else 0" rest]
    by (cases eh) (simp_all add: u32_append decode_cases frame_types frame_flags)
next
  case (FUnknown t fl sid p)
  then show ?thesis
    using ok len decode_encoded [of p sid max_size "of_nat (length p)" t fl rest] known_type [of t]
    by (simp add: u32_append decode_cases frame_types)
qed

text \<open>
  C20. Frame round trip. Every frame that fits the wire format (31-bit ids, a stream where the type needs
  one, an increment, eight ping bytes, a payload within the receiver's limit) decodes, from a
  buffer that starts with its encoding and whatever follows, to itself, consuming exactly its
  bytes. A SETTINGS frame reads as the settings its payload decodes to.
\<close>

theorem frame_round_trip:
  assumes "frame_ok f" "frame_payload_len f < 2 ^ 24" "frame_payload_len f \<le> unat max_size"
  shows "decode_frame (frame_encode f @ rest) max_size = Inr (Some (frame_read f, length (frame_encode f)))"
  using frame_round_trip_aux [OF assms] .

theorem frame_round_trip_witness:
  "decode_frame (frame_encode (FHeaders 5 [0x82, 0x86] True False (Some \<lparr>exclusive = True, dependency = 3, weight = 16\<rparr>)) @ [1, 2, 3]) 16384 =
     Inr (Some (FHeaders 5 [0x82, 0x86] True False (Some \<lparr>exclusive = True, dependency = 3, weight = 16\<rparr>), 16))"
proof -
  let ?f = "FHeaders 5 [0x82, 0x86] True False (Some \<lparr>exclusive = True, dependency = 3, weight = 16\<rparr>)"
  have "frame_ok ?f" by code_simp
  moreover have "length (frame_encode ?f) = 16" by code_simp
  ultimately show ?thesis using frame_round_trip [of ?f 16384 "[1, 2, 3]"] by simp
qed

subsection \<open>Incremental decoding\<close>

lemma decode_frame_header_append: "decode_frame_header buf = Some h \<Longrightarrow> decode_frame_header (buf @ rest) = Some h"
  by (induction buf rule: decode_frame_header.induct) simp_all

lemma decode_frame_header_Some: "decode_frame_header buf = Some h \<Longrightarrow> 9 \<le> length buf \<and> id31 (fh_stream_id h)"
  by (induction buf rule: decode_frame_header.induct) auto

lemma decode_frame_append:
  assumes "decode_frame buf m \<noteq> Inr None"
  shows "decode_frame (buf @ rest) m = decode_frame buf m"
proof (cases "decode_frame_header buf")
  case None
  then show ?thesis using assms by (simp add: decode_frame_def)
next
  case (Some h)
  then have "\<not> length buf < 9 + unat (fh_length h)"
    using assms by (auto simp: decode_frame_def FRAME_HEADER_LEN_def Let_def)
  then show ?thesis
    using decode_frame_header_append [OF Some, of rest] Some
    by (simp add: decode_frame_def FRAME_HEADER_LEN_def Let_def buf_slice_def)
qed

lemma decode_frame_progress: "decode_frame buf m = Inr (Some (f, n)) \<Longrightarrow> 9 \<le> n \<and> n \<le> length buf"
  by (auto simp: decode_frame_def FRAME_HEADER_LEN_def Let_def h2_bind_Inr_iff split: option.splits if_splits)

lemma decode_priority_id31 [simp]: "id31 (dependency (decode_priority a b c d w))"
  by (simp add: decode_priority_def Let_def)

lemma known_types:
  fixes t :: u8
  assumes t: "t \<notin> {0, 1, 2, 3, 4, 5, 6, 7, 8, 9}"
  shows "9 < t"
proof (rule ccontr)
  assume "\<not> 9 < t"
  then have le: "unat t \<le> 9" by (simp add: word_less_nat_alt)
  obtain n where n: "t = of_nat n" "n \<le> 9" by (rule that [of "unat t"]) (use le in simp_all)
  then have "n \<in> {0, 1, 2, 3, 4, 5, 6, 7, 8, 9}" by auto
  then show False using t n(1) by auto
qed

lemma decode_payload_ok:
  assumes "decode_payload h p = Inr f" "id31 (fh_stream_id h)"
  shows "frame_ok f"
proof -
  note known = known_types [of "fh_frame_type h"]
  show ?thesis
    using assms known
    by (auto simp: decode_cases frame_types h2_bind_Inr_iff settings_bounded_def dest: settings_decode_bounded
        split: if_splits list.splits option.splits)
qed

lemma decode_frame_ok: "decode_frame buf m = Inr (Some (f, n)) \<Longrightarrow> frame_ok f"
  by (auto simp: decode_frame_def Let_def h2_bind_Inr_iff split: option.splits if_splits
      dest!: decode_frame_header_Some intro: decode_payload_ok)

lemma decode_frame_bound:
  "decode_frame buf m = Inr (Some (f, n)) \<Longrightarrow> n \<le> 9 + unat m"
  by (auto simp: decode_frame_def FRAME_HEADER_LEN_def Let_def h2_bind_Inr_iff word_le_nat_alt not_less split: option.splits if_splits)

text \<open>
  C21. Incremental decoding. Whatever the bytes, a decoded frame is one that could have been encoded (ids are
  31 bits, stream 0 is refused where the type forbids it, settings are within their ranges);
  the bytes consumed are a whole frame, at least its header and at most the buffer and the
  size limit; and once the decoder has an answer, a frame or an error, bytes that arrive
  later do not change it.
\<close>

theorem decode_frame_incremental:
  "(decode_frame buf m = Inr (Some (f, n)) \<longrightarrow> frame_ok f \<and> 9 \<le> n \<and> n \<le> length buf \<and> n \<le> 9 + unat m) \<and>
   (decode_frame buf m \<noteq> Inr None \<longrightarrow> decode_frame (buf @ rest) m = decode_frame buf m)"
  using decode_frame_ok decode_frame_progress decode_frame_append decode_frame_bound by blast

theorem decode_frame_incremental_witness:
  "decode_frame [0, 0, 4, 8, 0, 0, 0, 0, 3, 0, 0, 1, 0] 16384 = Inr (Some (FWindowUpdate 3 256, 13)) \<and>
   frame_ok (FWindowUpdate 3 256) \<and> decode_frame ([0, 0, 4, 8, 0, 0, 0, 0, 3, 0, 0, 1, 0] @ [7]) 16384 = Inr (Some (FWindowUpdate 3 256, 13))"
proof -
  have d: "decode_frame [0, 0, 4, 8, 0, 0, 0, 0, 3, 0, 0, 1, 0] 16384 = Inr (Some (FWindowUpdate 3 256, 13))" by code_simp
  show ?thesis
    using d decode_frame_incremental [of "[0, 0, 4, 8, 0, 0, 0, 0, 3, 0, 0, 1, 0]" 16384 "FWindowUpdate 3 256" 13 "[7]"] by simp
qed

end
