(* ===== verification/H2_Huffman.thy ===== *)
theory H2_Huffman
  imports H2_Wire "HOL-Library.Sublist"
begin

section \<open>Huffman coding of header strings (\<open>ringline-h2/src/huffman.rs\<close>)\<close>

text \<open>
  The code table, the decode tree as the vector of nodes the source builds, and the bit-level
  encoder and decoder. A node index is a \<open>u16\<close> in the source and a natural number here; the
  casts are kept. A bit string is a list of booleans, most significant bit first.
\<close>

record HuffmanCode =
  hc_code :: u32
  hc_bits :: nat

definition HUFFMAN_TABLE :: "HuffmanCode list" where
  "HUFFMAN_TABLE =
    map (\<lambda>(c, b). \<lparr>hc_code = c, hc_bits = b\<rparr>)
     [(0x1ff8, 13), (0x7fffd8, 23), (0xfffffe2, 28), (0xfffffe3, 28), (0xfffffe4, 28), (0xfffffe5, 28),
      (0xfffffe6, 28), (0xfffffe7, 28), (0xfffffe8, 28), (0xffffea, 24), (0x3ffffffc, 30), (0xfffffe9, 28),
      (0xfffffea, 28), (0x3ffffffd, 30), (0xfffffeb, 28), (0xfffffec, 28), (0xfffffed, 28), (0xfffffee, 28),
      (0xfffffef, 28), (0xffffff0, 28), (0xffffff1, 28), (0xffffff2, 28), (0x3ffffffe, 30), (0xffffff3, 28),
      (0xffffff4, 28), (0xffffff5, 28), (0xffffff6, 28), (0xffffff7, 28), (0xffffff8, 28), (0xffffff9, 28),
      (0xffffffa, 28), (0xffffffb, 28), (0x14, 6), (0x3f8, 10), (0x3f9, 10), (0xffa, 12),
      (0x1ff9, 13), (0x15, 6), (0xf8, 8), (0x7fa, 11), (0x3fa, 10), (0x3fb, 10),
      (0xf9, 8), (0x7fb, 11), (0xfa, 8), (0x16, 6), (0x17, 6), (0x18, 6),
      (0x0, 5), (0x1, 5), (0x2, 5), (0x19, 6), (0x1a, 6), (0x1b, 6),
      (0x1c, 6), (0x1d, 6), (0x1e, 6), (0x1f, 6), (0x5c, 7), (0xfb, 8),
      (0x7ffc, 15), (0x20, 6), (0xffb, 12), (0x3fc, 10), (0x1ffa, 13), (0x21, 6),
      (0x5d, 7), (0x5e, 7), (0x5f, 7), (0x60, 7), (0x61, 7), (0x62, 7),
      (0x63, 7), (0x64, 7), (0x65, 7), (0x66, 7), (0x67, 7), (0x68, 7),
      (0x69, 7), (0x6a, 7), (0x6b, 7), (0x6c, 7), (0x6d, 7), (0x6e, 7),
      (0x6f, 7), (0x70, 7), (0x71, 7), (0x72, 7), (0xfc, 8), (0x73, 7),
      (0xfd, 8), (0x1ffb, 13), (0x7fff0, 19), (0x1ffc, 13), (0x3ffc, 14), (0x22, 6),
      (0x7ffd, 15), (0x3, 5), (0x23, 6), (0x4, 5), (0x24, 6), (0x5, 5),
      (0x25, 6), (0x26, 6), (0x27, 6), (0x6, 5), (0x74, 7), (0x75, 7),
      (0x28, 6), (0x29, 6), (0x2a, 6), (0x7, 5), (0x2b, 6), (0x76, 7),
      (0x2c, 6), (0x8, 5), (0x9, 5), (0x2d, 6), (0x77, 7), (0x78, 7),
      (0x79, 7), (0x7a, 7), (0x7b, 7), (0x7ffe, 15), (0x7fc, 11), (0x3ffd, 14),
      (0x1ffd, 13), (0xffffffc, 28), (0xfffe6, 20), (0x3fffd2, 22), (0xfffe7, 20), (0xfffe8, 20),
      (0x3fffd3, 22), (0x3fffd4, 22), (0x3fffd5, 22), (0x7fffd9, 23), (0x3fffd6, 22), (0x7fffda, 23),
      (0x7fffdb, 23), (0x7fffdc, 23), (0x7fffdd, 23), (0x7fffde, 23), (0xffffeb, 24), (0x7fffdf, 23),
      (0xffffec, 24), (0xffffed, 24), (0x3fffd7, 22), (0x7fffe0, 23), (0xffffee, 24), (0x7fffe1, 23),
      (0x7fffe2, 23), (0x7fffe3, 23), (0x7fffe4, 23), (0x1fffdc, 21), (0x3fffd8, 22), (0x7fffe5, 23),
      (0x3fffd9, 22), (0x7fffe6, 23), (0x7fffe7, 23), (0xffffef, 24), (0x3fffda, 22), (0x1fffdd, 21),
      (0xfffe9, 20), (0x3fffdb, 22), (0x3fffdc, 22), (0x7fffe8, 23), (0x7fffe9, 23), (0x1fffde, 21),
      (0x7fffea, 23), (0x3fffdd, 22), (0x3fffde, 22), (0xfffff0, 24), (0x1fffdf, 21), (0x3fffdf, 22),
      (0x7fffeb, 23), (0x7fffec, 23), (0x1fffe0, 21), (0x1fffe1, 21), (0x3fffe0, 22), (0x1fffe2, 21),
      (0x7fffed, 23), (0x3fffe1, 22), (0x7fffee, 23), (0x7fffef, 23), (0xfffea, 20), (0x3fffe2, 22),
      (0x3fffe3, 22), (0x3fffe4, 22), (0x7ffff0, 23), (0x3fffe5, 22), (0x3fffe6, 22), (0x7ffff1, 23),
      (0x3ffffe0, 26), (0x3ffffe1, 26), (0xfffeb, 20), (0x7fff1, 19), (0x3fffe7, 22), (0x7ffff2, 23),
      (0x3fffe8, 22), (0x1ffffec, 25), (0x3ffffe2, 26), (0x3ffffe3, 26), (0x3ffffe4, 26), (0x7ffffde, 27),
      (0x7ffffdf, 27), (0x3ffffe5, 26), (0xfffff1, 24), (0x1ffffed, 25), (0x7fff2, 19), (0x1fffe3, 21),
      (0x3ffffe6, 26), (0x7ffffe0, 27), (0x7ffffe1, 27), (0x3ffffe7, 26), (0x7ffffe2, 27), (0xfffff2, 24),
      (0x1fffe4, 21), (0x1fffe5, 21), (0x3ffffe8, 26), (0x3ffffe9, 26), (0xffffffd, 28), (0x7ffffe3, 27),
      (0x7ffffe4, 27), (0x7ffffe5, 27), (0xfffec, 20), (0xfffff3, 24), (0xfffed, 20), (0x1fffe6, 21),
      (0x3fffe9, 22), (0x1fffe7, 21), (0x1fffe8, 21), (0x7ffff3, 23), (0x3fffea, 22), (0x3fffeb, 22),
      (0x1ffffee, 25), (0x1ffffef, 25), (0xfffff4, 24), (0xfffff5, 24), (0x3ffffea, 26), (0x7ffff4, 23),
      (0x3ffffeb, 26), (0x7ffffe6, 27), (0x3ffffec, 26), (0x3ffffed, 26), (0x7ffffe7, 27), (0x7ffffe8, 27),
      (0x7ffffe9, 27), (0x7ffffea, 27), (0x7ffffeb, 27), (0xffffffe, 28), (0x7ffffec, 27), (0x7ffffed, 27),
      (0x7ffffee, 27), (0x7ffffef, 27), (0x7fffff0, 27), (0x3ffffee, 26), (0x3fffffff, 30)]"

datatype Node = NInternal nat nat | NLeaf nat

text \<open>The bits of \<open>value\<close> from position \<open>n - 1\<close> down to 0, as \<open>for bit_pos in (0..n).rev()\<close> reads them.\<close>

definition bits_rev :: "nat \<Rightarrow> 'l::len word \<Rightarrow> bool list" where
  "bits_rev n value = map (\<lambda>bit_pos. drop_bit bit_pos value AND 1 = 1) (rev [0..<n])"

definition set_child :: "bool \<Rightarrow> nat \<Rightarrow> nat \<Rightarrow> nat \<Rightarrow> Node" where
  "set_child b i left right = (if \<not> b then NInternal i right else NInternal left i)"

fun insert_code :: "nat \<Rightarrow> bool list \<Rightarrow> nat \<Rightarrow> Node list \<Rightarrow> Node list outcome" where
  "insert_code symb [] node_idx nodes = Ret nodes"
| "insert_code symb (b # bs) node_idx nodes =
     ensure (node_idx < length nodes)
       (case nodes ! node_idx of
          NLeaf _ \<Rightarrow> Panic
        | NInternal left right \<Rightarrow>
            let child = (if \<not> b then left else right); new_idx = cast_uint 16 (length nodes) in
            if bs = [] then Ret ((nodes @ [NLeaf (cast_uint 16 symb)])[node_idx := set_child b new_idx left right])
            else if child = 0 then
              insert_code symb bs new_idx ((nodes @ [NInternal 0 0])[node_idx := set_child b new_idx left right])
            else insert_code symb bs child nodes)"

fun build_from :: "nat \<Rightarrow> HuffmanCode list \<Rightarrow> Node list \<Rightarrow> Node list outcome" where
  "build_from symb [] nodes = Ret nodes"
| "build_from symb (e # es) nodes =
     outcome_bind (insert_code symb (bits_rev (hc_bits e) (hc_code e)) 0 nodes) (build_from (Suc symb) es)"

definition build_decode_tree :: "Node list outcome" where
  "build_decode_tree = build_from 0 HUFFMAN_TABLE [NInternal 0 0]"

definition huff_entry :: "u8 \<Rightarrow> HuffmanCode" where
  "huff_entry b = HUFFMAN_TABLE ! unat b"

definition encoded_len :: "bytes \<Rightarrow> nat" where
  "encoded_len data = (sum_list (map (\<lambda>b. hc_bits (huff_entry b)) data) + 7) div 8"

text \<open>Emitting whole bytes while at least eight bits are pending.\<close>

fun flush_bits :: "u64 \<Rightarrow> nat \<Rightarrow> bytes \<Rightarrow> nat \<times> bytes" where
  "flush_bits acc bit_count out =
     (if 8 \<le> bit_count then flush_bits acc (bit_count - 8) (out @ [ucast (drop_bit (bit_count - 8) acc)])
      else (bit_count, out))"

declare flush_bits.simps [simp del]

fun encode_loop :: "bytes \<Rightarrow> u64 \<Rightarrow> nat \<Rightarrow> bytes \<Rightarrow> u64 \<times> nat \<times> bytes" where
  "encode_loop [] acc bit_count out = (acc, bit_count, out)"
| "encode_loop (b # bs) acc bit_count out =
     (let e = huff_entry b;
          acc' = push_bit (hc_bits e) acc OR ucast (hc_code e);
          (bit_count', out') = flush_bits acc' (bit_count + hc_bits e) out
      in encode_loop bs acc' bit_count' out')"

definition huff_encode :: "bytes \<Rightarrow> bytes" where
  "huff_encode data =
     (case encode_loop data 0 0 [] of
        (acc, bit_count, out) \<Rightarrow>
          if 0 < bit_count
          then out @ [ucast (push_bit (8 - bit_count) acc OR (push_bit (8 - bit_count) 1 - 1))]
          else out)"

record dec_state =
  ds_node :: nat
  ds_padding :: nat
  ds_out :: bytes

definition decode_bit :: "Node list \<Rightarrow> bool \<Rightarrow> bool \<Rightarrow> dec_state \<Rightarrow> dec_state h2_result outcome" where
  "decode_bit tree is_last_byte b st =
     ensure (ds_node st < length tree)
       (case tree ! ds_node st of
          NLeaf _ \<Rightarrow> Panic
        | NInternal left right \<Rightarrow>
            let node_idx = (if \<not> b then left else right) in
            if node_idx = 0 then Ret (Inl CompressionError)
            else ensure (node_idx < length tree)
              (case tree ! node_idx of
                 NLeaf symb \<Rightarrow>
                   if symb = 256 then Ret (Inl CompressionError)
                   else Ret (Inr (st\<lparr>ds_node := 0, ds_padding := 0, ds_out := ds_out st @ [of_nat symb]\<rparr>))
               | NInternal _ _ \<Rightarrow>
                   Ret (Inr (st\<lparr>ds_node := node_idx, ds_padding := (if is_last_byte then ds_padding st + 1 else ds_padding st)\<rparr>))))"

fun decode_bits :: "Node list \<Rightarrow> bool \<Rightarrow> bool list \<Rightarrow> dec_state \<Rightarrow> dec_state h2_result outcome" where
  "decode_bits tree lst [] st = Ret (Inr st)"
| "decode_bits tree lst (b # bs) st =
     outcome_bind (decode_bit tree lst b st) (\<lambda>r. case r of Inl e \<Rightarrow> Ret (Inl e) | Inr st' \<Rightarrow> decode_bits tree lst bs st')"

fun decode_bytes :: "Node list \<Rightarrow> bytes \<Rightarrow> dec_state \<Rightarrow> dec_state h2_result outcome" where
  "decode_bytes tree [] st = Ret (Inr st)"
| "decode_bytes tree (byte # rest) st =
     outcome_bind (decode_bits tree (rest = []) (bits_rev 8 byte) st)
       (\<lambda>r. case r of Inl e \<Rightarrow> Ret (Inl e) | Inr st' \<Rightarrow> decode_bytes tree rest st')"

fun check_padding :: "Node list \<Rightarrow> nat \<Rightarrow> nat \<Rightarrow> unit h2_result outcome" where
  "check_padding tree 0 check_node = Ret (Inr ())"
| "check_padding tree (Suc n) check_node =
     ensure (check_node < length tree)
       (case tree ! check_node of
          NInternal _ right \<Rightarrow> if right = 0 then Ret (Inl CompressionError) else check_padding tree n right
        | NLeaf symb \<Rightarrow> if symb \<noteq> 256 then Ret (Inl CompressionError) else Ret (Inr ()))"

definition huff_decode_with :: "Node list \<Rightarrow> bytes \<Rightarrow> bytes h2_result outcome" where
  "huff_decode_with tree data =
     (if data = [] then Ret (Inr [])
      else outcome_bind (decode_bytes tree data \<lparr>ds_node = 0, ds_padding = 0, ds_out = []\<rparr>) (\<lambda>r.
        case r of
          Inl e \<Rightarrow> Ret (Inl e)
        | Inr st \<Rightarrow>
            if ds_node st \<noteq> 0 then
              (if 7 < ds_padding st then Ret (Inl CompressionError)
               else outcome_bind (check_padding tree (ds_padding st) (ds_node st)) (\<lambda>c.
                 case c of Inl e \<Rightarrow> Ret (Inl e) | Inr _ \<Rightarrow> Ret (Inr (ds_out st))))
            else Ret (Inr (ds_out st))))"

definition huff_decode :: "bytes \<Rightarrow> bytes h2_result outcome" where
  "huff_decode data = outcome_bind build_decode_tree (\<lambda>tree. huff_decode_with tree data)"

end
