(* ===== verification/Huffman_Tree.thy ===== *)
theory Huffman_Tree
  imports H2_Huffman
begin

section \<open>The Huffman decode tree\<close>

text \<open>
  The vector of nodes built from a prefix-free list of codes is the tree of those codes: from
  the root every code leads to the leaf of its symbol, and every proper prefix of a code to an
  inner node. The path of a node identifies it, which is what keeps the updates of the vector
  apart. That the code table is prefix free is checked by inserting its codes in a trie.
\<close>

datatype shape = Inner | Sym nat

fun node_shape :: "Node \<Rightarrow> shape" where
  "node_shape (NInternal l r) = Inner"
| "node_shape (NLeaf s) = Sym s"

definition child :: "bool \<Rightarrow> Node \<Rightarrow> nat" where
  "child b nd = (case nd of NInternal l r \<Rightarrow> if b then r else l | NLeaf _ \<Rightarrow> 0)"

definition step :: "Node list \<Rightarrow> nat \<Rightarrow> bool \<Rightarrow> nat option" where
  "step ns i b = (if child b (ns ! i) = 0 then None else Some (child b (ns ! i)))"

fun walk :: "Node list \<Rightarrow> nat \<Rightarrow> bool list \<Rightarrow> nat option" where
  "walk ns i [] = Some i"
| "walk ns i (b # bs) = (case step ns i b of None \<Rightarrow> None | Some j \<Rightarrow> walk ns j bs)"

lemma walk_append: "walk ns i (p @ q) = (case walk ns i p of None \<Rightarrow> None | Some j \<Rightarrow> walk ns j q)"
  by (induction p arbitrary: i) (auto split: option.splits)

lemma walk_snoc: "walk ns i (p @ [b]) = (case walk ns i p of None \<Rightarrow> None | Some j \<Rightarrow> step ns j b)"
  by (simp add: walk_append split: option.splits)

text \<open>The vector \<open>ns\<close> represents the tree whose nodes are the paths on which \<open>S\<close> is defined.\<close>

definition tree_rep :: "Node list \<Rightarrow> (bool list \<Rightarrow> shape option) \<Rightarrow> bool" where
  "tree_rep ns S \<longleftrightarrow> ns \<noteq> [] \<and>
     (\<forall>p i. walk ns 0 p = Some i \<longrightarrow> i < length ns \<and> S p = Some (node_shape (ns ! i))) \<and>
     (\<forall>p. S p \<noteq> None \<longrightarrow> walk ns 0 p \<noteq> None) \<and>
     (\<forall>p q i. walk ns 0 p = Some i \<longrightarrow> walk ns 0 q = Some i \<longrightarrow> p = q)"

lemma tree_repD:
  assumes "tree_rep ns S"
  shows "ns \<noteq> []" "walk ns 0 p = Some i \<Longrightarrow> i < length ns" "walk ns 0 p = Some i \<Longrightarrow> S p = Some (node_shape (ns ! i))"
    "walk ns 0 p = None \<Longrightarrow> S p = None" "walk ns 0 p = Some i \<Longrightarrow> walk ns 0 q = Some i \<Longrightarrow> p = q"
  using assms unfolding tree_rep_def by blast+

lemma tree_rep_root: "tree_rep [NInternal 0 0] [[] \<mapsto> Inner]"
proof -
  have w: "walk [NInternal 0 0] 0 p = (if p = [] then Some 0 else None)" for p
    by (cases p) (simp_all add: step_def child_def)
  show ?thesis unfolding tree_rep_def by (auto simp: w split: if_splits)
qed

lemma child_set_child [simp]:
  "child c (set_child b n l r) = (if c = b then n else child c (NInternal l r))"
  "node_shape (set_child b n l r) = Inner"
  by (auto simp: set_child_def child_def)

text \<open>Hanging a fresh node without children under an inner node.\<close>

lemma add_child:
  assumes rep: "tree_rep ns S" and i: "walk ns 0 p = Some i" and nd: "ns ! i = NInternal l r" and new: "child b (ns ! i) = 0"
    and leafy: "\<And>c. child c fresh = 0"
  defines "ns' \<equiv> (ns @ [fresh])[i := set_child b (length ns) l r]"
  shows "tree_rep ns' (S(p @ [b] \<mapsto> node_shape fresh))" "walk ns' 0 (p @ [b]) = Some (length ns)" "length ns' = Suc (length ns)"
proof -
  note D = tree_repD [OF rep]
  have len: "i < length ns" "0 < length ns" using D(1) D(2) [OF i] by auto
  have n_i: "ns' ! i = set_child b (length ns) l r" using len by (simp add: ns'_def)
  have n_new: "ns' ! length ns = fresh" using len by (simp add: ns'_def nth_append)
  have n_old: "j < length ns \<Longrightarrow> j \<noteq> i \<Longrightarrow> ns' ! j = ns ! j" for j by (simp add: ns'_def nth_append)
  have none: "walk ns 0 (p @ [b]) = None" using i new by (simp add: walk_snoc step_def)
  have w: "walk ns' 0 q = (if q = p @ [b] then Some (length ns) else walk ns 0 q)" for q
  proof (induction q rule: rev_induct)
    case (snoc c q)
    show ?case
    proof (cases "q = p @ [b]")
      case True
      then have "walk ns' 0 q = Some (length ns)" "walk ns 0 q = None" "q @ [c] \<noteq> p @ [b]" using snoc none by simp_all
      then show ?thesis using leafy by (simp add: walk_snoc step_def n_new)
    next
      case False
      show ?thesis
      proof (cases "walk ns 0 q")
        case None
        then show ?thesis using snoc False i by (auto simp: walk_snoc)
      next
        case (Some j)
        show ?thesis
        proof (cases "j = i")
          case True
          then have "q = p" using D(5) Some i by blast
          then show ?thesis using snoc False Some True len nd by (auto simp: walk_snoc step_def n_i)
        next
          case ji: False
          then have "q \<noteq> p" using Some i by auto
          then show ?thesis using snoc False Some ji n_old D(2) [OF Some] by (auto simp: walk_snoc step_def)
        qed
      qed
    qed
  qed simp
  show "walk ns' 0 (p @ [b]) = Some (length ns)" by (simp add: w)
  show len': "length ns' = Suc (length ns)" by (simp add: ns'_def)
  have shapes: "node_shape (ns' ! j) = node_shape (ns ! j)" if "j < length ns" for j
    using that nd n_i n_old by (cases "j = i") auto
  show "tree_rep ns' (S(p @ [b] \<mapsto> node_shape fresh))"
    unfolding tree_rep_def
  proof (intro conjI allI impI)
    show "ns' \<noteq> []" by (simp add: ns'_def)
    fix q j assume a: "walk ns' 0 q = Some j"
    show "j < length ns'" using a D(2) [of q j] by (auto simp: w len' split: if_splits)
    show "(S(p @ [b] \<mapsto> node_shape fresh)) q = Some (node_shape (ns' ! j))"
      using a D(2,3) [of q j] shapes by (auto simp: w n_new split: if_splits)
  next
    fix q assume "(S(p @ [b] \<mapsto> node_shape fresh)) q \<noteq> None"
    then show "walk ns' 0 q \<noteq> None" using D(4) [of q] by (cases "walk ns 0 q") (auto simp: w split: if_splits)
  next
    fix q q' j assume "walk ns' 0 q = Some j" "walk ns' 0 q' = Some j"
    then show "q = q'" using D(2) [of q j] D(2) [of q' j] D(5) [of q j q'] by (auto simp: w split: if_splits)
  qed
qed

subsection \<open>Inserting a code\<close>

text \<open>The tree after inserting the code \<open>p @ bs\<close> from the inner node at \<open>p\<close>.\<close>

definition grow :: "(bool list \<Rightarrow> shape option) \<Rightarrow> bool list \<Rightarrow> bool list \<Rightarrow> nat \<Rightarrow> bool list \<Rightarrow> shape option" where
  "grow S p bs symb q =
     (if q = p @ bs then Some (Sym symb)
      else if prefix p q \<and> strict_prefix q (p @ bs) then Some Inner else S q)"

lemma insert_code_rep:
  assumes "tree_rep ns S" "walk ns 0 p = Some i" "S p = Some Inner" "bs \<noteq> []"
    and free: "\<And>q. q \<noteq> [] \<Longrightarrow> prefix q bs \<Longrightarrow> \<nexists>s. S (p @ q) = Some (Sym s)" "S (p @ bs) = None"
    and fits: "length ns + length bs < 2 ^ 16" "symb < 2 ^ 16"
  shows "\<exists>ns'. insert_code symb bs i ns = Ret ns' \<and> tree_rep ns' (grow S p bs symb) \<and> length ns' \<le> length ns + length bs"
  using assms
proof (induction bs arbitrary: ns S p i)
  case (Cons b bs)
  note D = tree_repD [OF Cons.prems(1)]
  have i: "i < length ns" using D(2) Cons.prems(2) .
  obtain l r where nd: "ns ! i = NInternal l r"
    using D(3) [OF Cons.prems(2)] Cons.prems(3) by (cases "ns ! i") auto
  have ch: "(if \<not> b then l else r) = child b (ns ! i)" by (simp add: nd child_def)
  have cast: "cast_uint 16 (length ns) = length ns" using Cons.prems(7) by (simp add: cast_uint_def)
  have castsym: "cast_uint 16 symb = symb" using Cons.prems(8) by (simp add: cast_uint_def)
  have wb: "walk ns 0 (p @ [b]) = (if child b (ns ! i) = 0 then None else Some (child b (ns ! i)))"
    using Cons.prems(2) by (simp add: walk_snoc step_def)
  show ?case
  proof (cases "bs = []")
    case True
    then have "child b (ns ! i) = 0"
      using Cons.prems(6) D(3) wb by (auto split: if_splits)
    note add = add_child [OF Cons.prems(1,2) nd this, of "NLeaf symb"]
    have "grow S p (b # bs) symb = S(p @ [b] \<mapsto> Sym symb)"
    proof
      fix q show "grow S p (b # bs) symb q = (S(p @ [b] \<mapsto> Sym symb)) q"
        using True Cons.prems(3) by (auto simp: grow_def strict_prefix_def prefix_snoc dest: prefix_order.antisym)
    qed
    moreover have "insert_code symb (b # bs) i ns = Ret ((ns @ [NLeaf symb])[i := set_child b (length ns) l r])"
      using True nd i cast castsym by simp
    moreover have "tree_rep ((ns @ [NLeaf symb])[i := set_child b (length ns) l r]) (S(p @ [b] \<mapsto> Sym symb))"
      using add(1) by (simp only: child_def Node.case node_shape.simps)
    ultimately show ?thesis by (intro exI conjI) (assumption, simp only:, simp)
  next
    case False
    have rest: "grow (S(p @ [b] \<mapsto> Inner)) (p @ [b]) bs symb = grow S p (b # bs) symb"
    proof
      fix q
      have "prefix (p @ [b]) q \<or> q = p \<or> \<not> prefix p q \<or> \<not> prefix q (p @ b # bs)"
        by (auto simp: prefix_def Cons_eq_append_conv)
      then show "grow (S(p @ [b] \<mapsto> Inner)) (p @ [b]) bs symb q = grow S p (b # bs) symb q"
        using False Cons.prems(3) by (auto simp: grow_def strict_prefix_def prefix_def)
    qed
    have free': "\<And>q. q \<noteq> [] \<Longrightarrow> prefix q bs \<Longrightarrow> \<nexists>s. (S(p @ [b] \<mapsto> Inner)) ((p @ [b]) @ q) = Some (Sym s)"
      "(S(p @ [b] \<mapsto> Inner)) ((p @ [b]) @ bs) = None"
      using Cons.prems(5) [of "b # q" for q] Cons.prems(6) False by auto
    show ?thesis
    proof (cases "child b (ns ! i) = 0")
      case True
      let ?ns = "(ns @ [NInternal 0 0])[i := set_child b (length ns) l r]"
      have add: "tree_rep ?ns (S(p @ [b] \<mapsto> Inner))" "walk ?ns 0 (p @ [b]) = Some (length ns)" "length ?ns = Suc (length ns)"
        using add_child [OF Cons.prems(1,2) nd True, of "NInternal 0 0"] by (simp_all add: child_def)
      have "\<exists>ns'. insert_code symb bs (length ns) ?ns = Ret ns' \<and> tree_rep ns' (grow (S(p @ [b] \<mapsto> Inner)) (p @ [b]) bs symb) \<and>
          length ns' \<le> length ?ns + length bs"
        by (rule Cons.IH [OF add(1,2) _ False free']) (use Cons.prems(7,8) add(3) in simp_all)
      then show ?thesis using rest True False nd i cast ch add(3) by auto
    next
      case ch0: False
      then have w: "walk ns 0 (p @ [b]) = Some (child b (ns ! i))" using wb by simp
      have "S (p @ [b]) = Some Inner"
        using D(3) [OF w] Cons.prems(5) [of "[b]"] by (cases "node_shape (ns ! child b (ns ! i))") auto
      then have S: "S(p @ [b] \<mapsto> Inner) = S" by auto
      have "\<exists>ns'. insert_code symb bs (child b (ns ! i)) ns = Ret ns' \<and> tree_rep ns' (grow S (p @ [b]) bs symb) \<and>
          length ns' \<le> length ns + length bs"
        by (rule Cons.IH [OF Cons.prems(1) w _ False]) (use free' S \<open>S (p @ [b]) = Some Inner\<close> Cons.prems(7,8) in simp_all)
      then show ?thesis using rest S ch0 False nd i ch by auto
    qed
  qed
qed simp

subsection \<open>The tree of a list of codes\<close>

definition code_tree :: "bool list list \<Rightarrow> bool list \<Rightarrow> shape option" where
  "code_tree T q =
     (case vec_position (\<lambda>c. c = q) T of
        Some s \<Rightarrow> Some (Sym s)
      | None \<Rightarrow> if q = [] \<or> (\<exists>c \<in> set T. strict_prefix q c) then Some Inner else None)"

fun prefix_free :: "bool list list \<Rightarrow> bool" where
  "prefix_free [] = True"
| "prefix_free (c # cs) = (c \<noteq> [] \<and> (\<forall>d \<in> set cs. \<not> prefix c d \<and> \<not> prefix d c) \<and> prefix_free cs)"

lemma prefix_free_append:
  "prefix_free (xs @ ys) \<longleftrightarrow> prefix_free xs \<and> prefix_free ys \<and> (\<forall>c \<in> set xs. \<forall>d \<in> set ys. \<not> prefix c d \<and> \<not> prefix d c)"
  by (induction xs) auto

lemma vec_position_append_None:
  "vec_position P xs = None \<Longrightarrow> vec_position P (xs @ ys) = map_option (\<lambda>i. i + length xs) (vec_position P ys)"
  by (induction xs) (auto split: if_splits simp: option.map_comp o_def option.map_ident)

lemma vec_position_append_Some: "vec_position P xs = Some i \<Longrightarrow> vec_position P (xs @ ys) = Some i"
  by (induction xs arbitrary: i) (auto split: if_splits)

lemma code_tree_snoc:
  assumes "prefix_free (T @ [c])"
  shows "grow (code_tree T) [] c (length T) = code_tree (T @ [c])"
proof
  fix q
  have T: "\<And>d. d \<in> set T \<Longrightarrow> \<not> prefix d c \<and> \<not> prefix c d" "c \<noteq> []" using assms by (auto simp: prefix_free_append)
  show "grow (code_tree T) [] c (length T) q = code_tree (T @ [c]) q"
  proof (cases "vec_position (\<lambda>d. d = q) T")
    case None
    then show ?thesis
      using vec_position_append_None [OF None, of "[c]"] T(2) by (auto simp: grow_def code_tree_def)
  next
    case (Some s)
    then have "q \<in> set T" using vec_position_bound [OF Some] by (metis nth_mem)
    then have "\<not> prefix q c" using T(1) by blast
    then show ?thesis
      using Some vec_position_append_Some [OF Some, of "[c]"] by (auto simp: grow_def code_tree_def strict_prefix_def)
  qed
qed

abbreviation code_of :: "HuffmanCode \<Rightarrow> bool list" where
  "code_of e \<equiv> bits_rev (hc_bits e) (hc_code e)"

lemma build_from_rep:
  assumes "tree_rep ns (code_tree T)" "prefix_free (T @ map code_of es)"
    and "length ns + sum_list (map (length \<circ> code_of) es) < 2 ^ 16" "length T + length es < 2 ^ 16"
  shows "\<exists>ns'. build_from (length T) es ns = Ret ns' \<and> tree_rep ns' (code_tree (T @ map code_of es)) \<and>
    length ns' \<le> length ns + sum_list (map (length \<circ> code_of) es)"
  using assms
proof (induction es arbitrary: T ns)
  case (Cons e es)
  let ?c = "code_of e"
  have pf: "prefix_free (T @ [?c])" using Cons.prems(2) by (auto simp: prefix_free_append)
  then have T: "\<And>d. d \<in> set T \<Longrightarrow> \<not> prefix d ?c \<and> \<not> prefix ?c d" "?c \<noteq> []" by (auto simp: prefix_free_append)
  have out: "vec_position (\<lambda>d. d = q) T = None" if "prefix q ?c" for q
    unfolding vec_position_None_iff using T(1) that by blast
  have inner: "code_tree T [] = Some Inner" using out [of "[]"] by (simp add: code_tree_def)
  have "\<exists>ns'. insert_code (length T) ?c 0 ns = Ret ns' \<and> tree_rep ns' (grow (code_tree T) [] ?c (length T)) \<and>
      length ns' \<le> length ns + length ?c"
  proof (rule insert_code_rep [OF Cons.prems(1) _ inner T(2)])
    show "\<nexists>s. code_tree T ([] @ q) = Some (Sym s)" if "prefix q ?c" for q
      using out [OF that] by (simp add: code_tree_def)
    show "code_tree T ([] @ ?c) = None"
      using out [of ?c] T by (auto simp: code_tree_def strict_prefix_def)
    show "length ns + length ?c < 2 ^ 16" "length T < 2 ^ 16" using Cons.prems(3,4) by simp_all
  qed simp
  then obtain ns1 where ns1: "insert_code (length T) ?c 0 ns = Ret ns1" "tree_rep ns1 (code_tree (T @ [?c]))" "length ns1 \<le> length ns + length ?c"
    unfolding code_tree_snoc [OF pf] by blast
  then have "\<exists>ns'. build_from (length (T @ [?c])) es ns1 = Ret ns' \<and> tree_rep ns' (code_tree ((T @ [?c]) @ map code_of es)) \<and>
      length ns' \<le> length ns1 + sum_list (map (length \<circ> code_of) es)"
    using Cons.prems by (intro Cons.IH) simp_all
  then show ?case using ns1 by (auto simp: o_def)
qed simp

subsection \<open>The code table is prefix free\<close>

datatype trie = TE | TL | TN trie trie

fun tins :: "bool list \<Rightarrow> trie \<Rightarrow> trie option" where
  "tins [] TE = Some TL"
| "tins [] t = None"
| "tins (b # bs) TL = None"
| "tins (b # bs) TE = (case tins bs TE of None \<Rightarrow> None | Some t \<Rightarrow> Some (if b then TN TE t else TN t TE))"
| "tins (b # bs) (TN l r) =
     (if b then (case tins bs r of None \<Rightarrow> None | Some t \<Rightarrow> Some (TN l t))
      else (case tins bs l of None \<Rightarrow> None | Some t \<Rightarrow> Some (TN t r)))"

fun tins_all :: "bool list list \<Rightarrow> trie \<Rightarrow> trie option" where
  "tins_all [] t = Some t"
| "tins_all (c # cs) t = (case tins c t of None \<Rightarrow> None | Some t' \<Rightarrow> tins_all cs t')"

fun tpaths :: "trie \<Rightarrow> bool list set" where
  "tpaths TE = {}"
| "tpaths TL = {[]}"
| "tpaths (TN l r) = (Cons False ` tpaths l) \<union> (Cons True ` tpaths r)"

lemma tins_paths:
  "tins c t = Some t' \<Longrightarrow> tpaths t' = insert c (tpaths t) \<and> (\<forall>d \<in> tpaths t. \<not> prefix c d \<and> \<not> prefix d c)"
proof (induction c arbitrary: t t')
  case Nil
  then show ?case by (cases t) auto
next
  case (Cons b bs)
  show ?case
  proof (cases t)
    case TE
    then obtain t1 where t1: "tins bs TE = Some t1" "t' = (if b then TN TE t1 else TN t1 TE)"
      using Cons.prems by (cases "tins bs TE") simp_all
    show ?thesis using Cons.IH [OF t1(1)] t1(2) TE by (cases b) simp_all
  next
    case TL
    then show ?thesis using Cons.prems by simp
  next
    case (TN l r)
    show ?thesis
    proof (cases b)
      case True
      then obtain t1 where t1: "tins bs r = Some t1" "t' = TN l t1" using Cons.prems TN by (cases "tins bs r") simp_all
      show ?thesis using Cons.IH [OF t1(1)] t1(2) TN True by auto
    next
      case False
      then obtain t1 where t1: "tins bs l = Some t1" "t' = TN t1 r" using Cons.prems TN by (cases "tins bs l") simp_all
      show ?thesis using Cons.IH [OF t1(1)] t1(2) TN False by auto
    qed
  qed
qed

lemma tins_all_prefix_free:
  "tins_all cs t = Some t' \<Longrightarrow> [] \<notin> set cs \<Longrightarrow> prefix_free cs \<and> (\<forall>c \<in> set cs. \<forall>d \<in> tpaths t. \<not> prefix c d \<and> \<not> prefix d c)"
proof (induction cs arbitrary: t)
  case (Cons c cs)
  then obtain t1 where t1: "tins c t = Some t1" "tins_all cs t1 = Some t'" by (auto split: option.splits)
  have p: "tpaths t1 = insert c (tpaths t)" "\<forall>d \<in> tpaths t. \<not> prefix c d \<and> \<not> prefix d c"
    using tins_paths [OF t1(1)] by auto
  have IH: "prefix_free cs" "\<forall>e \<in> set cs. \<forall>d \<in> insert c (tpaths t). \<not> prefix e d \<and> \<not> prefix d e"
    using Cons.IH [OF t1(2)] Cons.prems(2) p(1) by auto
  then show ?case using p(2) Cons.prems(2) by auto
qed simp

lemma table_inserts: "tins_all (map code_of HUFFMAN_TABLE) TE \<noteq> None"
  by code_simp

lemma table_shape:
  "length HUFFMAN_TABLE = 257" "sum_list (map hc_bits HUFFMAN_TABLE) < 8192" "list_all (\<lambda>e. 5 \<le> hc_bits e \<and> hc_bits e \<le> 30) HUFFMAN_TABLE"
  by code_simp+

lemma table_prefix_free: "prefix_free (map code_of HUFFMAN_TABLE)"
proof -
  obtain t where "tins_all (map code_of HUFFMAN_TABLE) TE = Some t" using table_inserts by blast
  moreover have "[] \<notin> set (map code_of HUFFMAN_TABLE)"
    using table_shape(3) by (auto simp: list_all_iff bits_rev_def)
  ultimately show ?thesis using tins_all_prefix_free by blast
qed

lemma length_bits_rev [simp]: "length (bits_rev n v) = n"
  by (simp add: bits_rev_def)

lemma decode_tree_rep: "\<exists>tree. build_decode_tree = Ret tree \<and> tree_rep tree (code_tree (map code_of HUFFMAN_TABLE))"
proof -
  have root: "code_tree [] = [[] \<mapsto> Inner]" by (auto simp: code_tree_def)
  have "sum_list (map (length \<circ> code_of) HUFFMAN_TABLE) = sum_list (map hc_bits HUFFMAN_TABLE)" by (simp add: o_def)
  then show ?thesis
    using build_from_rep [of "[NInternal 0 0]" "[]" HUFFMAN_TABLE] tree_rep_root root table_prefix_free table_shape(1,2)
    by (auto simp: build_decode_tree_def)
qed

end
