(* ===== verification/Huffman_Codec.thy ===== *)
theory Huffman_Codec
  imports Huffman_Tree
begin

section \<open>Huffman round trip\<close>

text \<open>
  The bits the encoder emits are the codes of the bytes followed by fewer than eight ones, and
  the decoder, run on those bits over the built tree, returns the bytes.
\<close>

subsection \<open>Bit strings of words\<close>

lemma bits_rev_bit: "bits_rev n w = map (bit w) (rev [0..<n])"
proof -
  have "(drop_bit k w AND 1 = 1) = bit w k" for k
    by (simp add: and_one_eq bit_iff_odd_drop_bit odd_iff_mod_2_eq_one)
  then show ?thesis by (simp add: bits_rev_def)
qed

lemma bits_rev_split: "bits_rev (a + b) w = bits_rev a (drop_bit b w) @ bits_rev b w"
proof -
  have "[0..<b + a] = [0..<b] @ map (\<lambda>i. i + b) [0..<a]"
    by (simp only: upt_add_eq_append [OF le0] map_add_upt add.commute [of a])
  then have "rev [0..<a + b] = map (\<lambda>i. i + b) (rev [0..<a]) @ rev [0..<b]"
    by (simp only: add.commute [of a] rev_append rev_map)
  then show ?thesis by (simp add: bits_rev_bit bit_drop_bit_eq o_def add.commute)
qed

lemma bits_rev_cong: "(\<And>k. k < n \<Longrightarrow> bit v k = bit w k) \<Longrightarrow> bits_rev n v = bits_rev n w"
  by (simp add: bits_rev_bit)

lemma bits_rev_ucast: "n \<le> LENGTH('a) \<Longrightarrow> n \<le> LENGTH('b) \<Longrightarrow> bits_rev n (ucast (w :: 'a::len word) :: 'b::len word) = bits_rev n w"
  unfolding bits_rev_bit by (auto simp: bit_simps)

lemma bits_rev_join:
  fixes w c :: "'l::len word"
  assumes "n + k \<le> LENGTH('l)" "\<And>j. k \<le> j \<Longrightarrow> \<not> bit c j"
  shows "bits_rev (n + k) (push_bit k w OR c) = bits_rev n w @ bits_rev k c"
proof -
  have "bits_rev n (drop_bit k (push_bit k w OR c)) = bits_rev n w"
    using assms unfolding bits_rev_bit by (auto simp: bit_simps)
  moreover have "bits_rev k (push_bit k w OR c) = bits_rev k c"
    unfolding bits_rev_bit by (auto simp: bit_simps)
  ultimately show ?thesis by (simp add: bits_rev_split)
qed

subsection \<open>What the encoder emits\<close>

abbreviation bytes_bits :: "bytes \<Rightarrow> bool list" where
  "bytes_bits bs \<equiv> concat (map (bits_rev 8) bs)"

definition codes :: "bytes \<Rightarrow> bool list" where
  "codes data = concat (map (\<lambda>b. code_of (huff_entry b)) data)"

lemma flush_bits_spec:
  assumes "n \<le> 64"
  shows "\<exists>m out'. flush_bits acc n out = (m, out') \<and> m < 8 \<and> bytes_bits out' @ bits_rev m acc = bytes_bits out @ bits_rev n acc"
  using assms
proof (induction acc n out rule: flush_bits.induct)
  case (1 acc n out)
  show ?case
  proof (cases "8 \<le> n")
    case True
    let ?b = "ucast (drop_bit (n - 8) acc) :: u8"
    have "bits_rev (8 + (n - 8)) acc = bits_rev 8 ?b @ bits_rev (n - 8) acc"
      unfolding bits_rev_split by (simp add: bits_rev_ucast)
    then have n: "bits_rev n acc = bits_rev 8 ?b @ bits_rev (n - 8) acc" using True by simp
    have "\<exists>m out'. flush_bits acc (n - 8) (out @ [?b]) = (m, out') \<and> m < 8 \<and>
        bytes_bits out' @ bits_rev m acc = bytes_bits (out @ [?b]) @ bits_rev (n - 8) acc"
      by (rule 1(1) [OF True]) (use 1(2) in simp)
    then obtain m out' where "flush_bits acc (n - 8) (out @ [?b]) = (m, out')" "m < 8"
      "bytes_bits out' @ bits_rev m acc = bytes_bits (out @ [?b]) @ bits_rev (n - 8) acc" by (elim exE conjE)
    then show ?thesis unfolding flush_bits.simps [of acc n out] n using True by simp
  next
    case False
    then show ?thesis unfolding flush_bits.simps [of acc n out] by simp
  qed
qed

lemma table_codes: "list_all (\<lambda>e. drop_bit (hc_bits e) (hc_code e) = 0) HUFFMAN_TABLE"
  by code_simp

lemma huff_entry_shape: "huff_entry b \<in> set HUFFMAN_TABLE" "5 \<le> hc_bits (huff_entry b)" "hc_bits (huff_entry b) \<le> 30"
  "hc_bits (huff_entry b) \<le> j \<Longrightarrow> \<not> bit (ucast (hc_code (huff_entry b)) :: u64) j"
proof -
  have "unat b < length HUFFMAN_TABLE" using unsigned_less [of b, where 'a = nat] by (simp add: table_shape(1))
  then show e: "huff_entry b \<in> set HUFFMAN_TABLE" by (simp add: huff_entry_def)
  then show "5 \<le> hc_bits (huff_entry b)" "hc_bits (huff_entry b) \<le> 30" using table_shape(3) by (auto simp: list_all_iff)
  assume j: "hc_bits (huff_entry b) \<le> j"
  have "drop_bit (hc_bits (huff_entry b)) (hc_code (huff_entry b)) = 0" using table_codes e by (auto simp: list_all_iff)
  then have "\<not> bit (drop_bit (hc_bits (huff_entry b)) (hc_code (huff_entry b))) (j - hc_bits (huff_entry b))" by simp
  then have "\<not> bit (hc_code (huff_entry b)) j" using j by (simp add: bit_drop_bit_eq)
  then show "\<not> bit (ucast (hc_code (huff_entry b)) :: u64) j" by (simp add: bit_unsigned_iff)
qed

lemma encode_loop_spec:
  assumes "encode_loop data acc n out = (acc', n', out')" "n < 8"
  shows "n' < 8 \<and> bytes_bits out' @ bits_rev n' acc' = bytes_bits out @ bits_rev n acc @ codes data"
  using assms
proof (induction data arbitrary: acc n out)
  case (Cons b data)
  let ?e = "huff_entry b"
  let ?acc = "push_bit (hc_bits ?e) acc OR ucast (hc_code ?e)"
  note shape = huff_entry_shape(3,4) [of b]
  have len: "n + hc_bits ?e \<le> 64" using shape(1) Cons.prems(2) by simp
  obtain m out1 where f: "flush_bits ?acc (n + hc_bits ?e) out = (m, out1)" "m < 8"
    "bytes_bits out1 @ bits_rev m ?acc = bytes_bits out @ bits_rev (n + hc_bits ?e) ?acc"
    using flush_bits_spec [OF len, of ?acc out] by blast
  have "bits_rev (n + hc_bits ?e) ?acc = bits_rev n acc @ bits_rev (hc_bits ?e) (ucast (hc_code ?e) :: u64)"
    using len shape(2) by (intro bits_rev_join) simp_all
  then have "bytes_bits out1 @ bits_rev m ?acc = bytes_bits out @ bits_rev n acc @ code_of ?e"
    using f(3) shape(1) by (simp add: bits_rev_ucast)
  moreover have "encode_loop data ?acc m out1 = (acc', n', out')" using Cons.prems(1) f(1) by (simp add: Let_def)
  ultimately show ?case using Cons.IH [of ?acc m out1] f(2) by (simp add: codes_def)
qed (simp add: codes_def)

lemma huff_encode_bits: "\<exists>p<8. bytes_bits (huff_encode data) = codes data @ replicate p True"
proof -
  obtain acc n out where e: "encode_loop data 0 0 [] = (acc, n, out)" by (cases "encode_loop data 0 0 []") auto
  have n: "n < 8" and bits: "bytes_bits out @ bits_rev n acc = codes data"
    using encode_loop_spec [OF e] by (simp_all add: bits_rev_def)
  show ?thesis
  proof (cases "n = 0")
    case True
    then show ?thesis using e bits by (intro exI [of _ 0]) (simp add: huff_encode_def bits_rev_def)
  next
    case False
    let ?k = "8 - n"
    let ?w = "push_bit ?k acc OR (push_bit ?k 1 - 1) :: u64"
    have mask: "push_bit ?k 1 - 1 = (mask ?k :: u64)" by (simp add: mask_eq_exp_minus_1)
    have "bits_rev ?k (mask ?k :: u64) = map (\<lambda>_. True) (rev [0..<?k])"
      unfolding bits_rev_bit using n by (intro map_cong) (auto simp: bit_simps)
    then have ones: "bits_rev ?k (mask ?k :: u64) = replicate ?k True" by (simp add: map_replicate_const)
    have "bits_rev (n + ?k) ?w = bits_rev n acc @ bits_rev ?k (mask ?k :: u64)"
      unfolding mask using n by (intro bits_rev_join) (simp_all add: bit_simps)
    moreover have "bits_rev 8 (ucast ?w :: u8) = bits_rev 8 ?w" by (simp add: bits_rev_ucast)
    ultimately have "bits_rev 8 (ucast ?w :: u8) = bits_rev n acc @ replicate ?k True" using n ones by simp
    then show ?thesis using e bits False n by (intro exI [of _ ?k]) (simp add: huff_encode_def)
  qed
qed

lemma length_bytes_bits: "length (bytes_bits bs) = 8 * length bs"
  by (induction bs) simp_all

lemma huff_encode_length: "length (huff_encode data) = encoded_len data"
proof -
  obtain p where p: "p < 8" "bytes_bits (huff_encode data) = codes data @ replicate p True" using huff_encode_bits by blast
  have "length (codes data) = sum_list (map (\<lambda>b. hc_bits (huff_entry b)) data)"
    by (simp add: codes_def length_concat o_def)
  then have "8 * length (huff_encode data) = sum_list (map (\<lambda>b. hc_bits (huff_entry b)) data) + p"
    using arg_cong [OF p(2), of length] by (simp add: length_bytes_bits)
  then show ?thesis using p(1) by (simp add: encoded_len_def)
qed

subsection \<open>Running the decoder over the tree\<close>

text \<open>The decoder's two loops as one loop over bits that carry the flag of the last byte.\<close>

fun decode_flagged :: "Node list \<Rightarrow> (bool \<times> bool) list \<Rightarrow> dec_state \<Rightarrow> dec_state h2_result outcome" where
  "decode_flagged tree [] st = Ret (Inr st)"
| "decode_flagged tree ((lst, b) # bs) st =
     outcome_bind (decode_bit tree lst b st) (\<lambda>r. case r of Inl e \<Rightarrow> Ret (Inl e) | Inr st' \<Rightarrow> decode_flagged tree bs st')"

fun flagged :: "bytes \<Rightarrow> (bool \<times> bool) list" where
  "flagged [] = []"
| "flagged (byte # rest) = map (Pair (rest = [])) (bits_rev 8 byte) @ flagged rest"

lemma decode_flagged_append:
  "decode_flagged tree (xs @ ys) st =
     outcome_bind (decode_flagged tree xs st) (\<lambda>r. case r of Inl e \<Rightarrow> Ret (Inl e) | Inr st' \<Rightarrow> decode_flagged tree ys st')"
proof (induction tree xs st rule: decode_flagged.induct)
  case (2 tree lst b bs st)
  then show ?case by (cases "decode_bit tree lst b st") (auto split: sum.splits)
qed simp

lemma decode_bits_flagged: "decode_bits tree lst bs st = decode_flagged tree (map (Pair lst) bs) st"
proof (induction tree lst bs st rule: decode_bits.induct)
  case (2 tree lst b bs st)
  then show ?case by (cases "decode_bit tree lst b st") (auto split: sum.splits)
qed simp

lemma decode_bytes_flagged: "decode_bytes tree data st = decode_flagged tree (flagged data) st"
proof (induction tree data st rule: decode_bytes.induct)
  case (2 tree byte rest st)
  then show ?case
    by (cases "decode_flagged tree (map (Pair (rest = [])) (bits_rev 8 byte)) st")
      (auto simp: decode_flagged_append decode_bits_flagged split: sum.splits)
qed simp

lemma flagged_bits: "map snd (flagged data) = bytes_bits data"
  by (induction data) (simp_all add: o_def)

lemma flagged_last:
  "k < 8 \<Longrightarrow> flagged data = xs @ ys \<Longrightarrow> length ys = k \<Longrightarrow> ys = map (Pair True) (map snd ys)"
proof (induction data arbitrary: xs)
  case (Cons byte rest)
  show ?case
  proof (cases "rest = []")
    case True
    then obtain vs where "ys = map (Pair True) vs" using Cons.prems(2) by (auto simp: map_eq_append_conv)
    then show ?thesis by (simp add: o_def)
  next
    case False
    have "length (flagged rest) = 8 * length rest" for rest :: bytes by (induction rest) simp_all
    then have "k \<le> length (flagged rest)" using False Cons.prems(1) by (cases rest) simp_all
    moreover have "ys = drop (length (flagged (byte # rest)) - k) (flagged (byte # rest))" using Cons.prems(2,3) by simp
    ultimately have "ys = drop (length (flagged rest) - k) (flagged rest)" by simp
    then have "flagged rest = take (length (flagged rest) - k) (flagged rest) @ ys" by simp
    then show ?thesis using Cons.IH Cons.prems(1,3) by blast
  qed
qed simp

text \<open>One bit from an inner node, by the shape of the node it leads to.\<close>

lemma decode_bit_shape:
  assumes rep: "tree_rep tree S" and p: "walk tree 0 p = Some (ds_node st)" and inner: "S p = Some Inner"
  shows "S (p @ [b]) = Some (Sym s) \<Longrightarrow> s \<noteq> 256 \<Longrightarrow>
      decode_bit tree lst b st = Ret (Inr (st\<lparr>ds_node := 0, ds_padding := 0, ds_out := ds_out st @ [of_nat s]\<rparr>))"
    and "S (p @ [b]) = Some Inner \<Longrightarrow> \<exists>j. walk tree 0 (p @ [b]) = Some j \<and> j \<noteq> 0 \<and>
      decode_bit tree lst b st = Ret (Inr (st\<lparr>ds_node := j, ds_padding := (if lst then ds_padding st + 1 else ds_padding st)\<rparr>))"
    and "S (p @ [b]) = None \<or> S (p @ [b]) = Some (Sym 256) \<Longrightarrow> decode_bit tree lst b st = Ret (Inl CompressionError)"
proof -
  note D = tree_repD [OF rep]
  obtain l r where nd: "tree ! ds_node st = NInternal l r"
    using D(3) [OF p] inner by (cases "tree ! ds_node st") auto
  define c where "c = (if \<not> b then l else r)"
  have w: "walk tree 0 (p @ [b]) = (if c = 0 then None else Some c)" using p by (simp add: walk_snoc step_def nd child_def c_def)
  have len: "ds_node st < length tree" using D(2) [OF p] .
  have dec: "decode_bit tree lst b st =
      (if c = 0 then Ret (Inl CompressionError)
       else case tree ! c of
           NLeaf s \<Rightarrow> if s = 256 then Ret (Inl CompressionError)
             else Ret (Inr (st\<lparr>ds_node := 0, ds_padding := 0, ds_out := ds_out st @ [of_nat s]\<rparr>))
         | NInternal _ _ \<Rightarrow> Ret (Inr (st\<lparr>ds_node := c, ds_padding := (if lst then ds_padding st + 1 else ds_padding st)\<rparr>)))"
  proof (cases "c = 0")
    case False
    then have "c < length tree" using D(2) [of "p @ [b]" c] w by simp
    then show ?thesis using len False unfolding decode_bit_def nd Node.case Let_def c_def [symmetric] by simp
  qed (use len in \<open>simp add: decode_bit_def nd Let_def c_def\<close>)
  have sh: "c \<noteq> 0 \<Longrightarrow> S (p @ [b]) = Some (node_shape (tree ! c))" using D(3) w by simp
  have none: "c = 0 \<Longrightarrow> S (p @ [b]) = None" using D(4) w by simp
  show "S (p @ [b]) = Some (Sym s) \<Longrightarrow> s \<noteq> 256 \<Longrightarrow>
      decode_bit tree lst b st = Ret (Inr (st\<lparr>ds_node := 0, ds_padding := 0, ds_out := ds_out st @ [of_nat s]\<rparr>))"
    using sh none by (cases "c = 0"; cases "tree ! c") (simp_all add: dec)
  show "S (p @ [b]) = Some Inner \<Longrightarrow> \<exists>j. walk tree 0 (p @ [b]) = Some j \<and> j \<noteq> 0 \<and>
      decode_bit tree lst b st = Ret (Inr (st\<lparr>ds_node := j, ds_padding := (if lst then ds_padding st + 1 else ds_padding st)\<rparr>))"
    using sh none by (cases "c = 0"; cases "tree ! c") (simp_all add: dec w)
  show "S (p @ [b]) = None \<or> S (p @ [b]) = Some (Sym 256) \<Longrightarrow> decode_bit tree lst b st = Ret (Inl CompressionError)"
    using sh none by (cases "c = 0"; cases "tree ! c") (auto simp: dec)
qed

lemma decode_code:
  assumes rep: "tree_rep tree S" and "walk tree 0 p = Some (ds_node st)" "S (p @ map snd bs) = Some (Sym s)" "s \<noteq> 256" "bs \<noteq> []"
    and "\<And>q. strict_prefix q (map snd bs) \<Longrightarrow> S (p @ q) = Some Inner"
  shows "decode_flagged tree bs st = Ret (Inr (st\<lparr>ds_node := 0, ds_padding := 0, ds_out := ds_out st @ [of_nat s]\<rparr>))"
  using assms(2-)
proof (induction bs arbitrary: p st)
  case (Cons x bs)
  obtain lst b where x: "x = (lst, b)" by (cases x)
  have inner: "S p = Some Inner" using Cons.prems(5) [of "[]"] by simp
  show ?case
  proof (cases "bs = []")
    case True
    then show ?thesis using decode_bit_shape(1) [OF rep Cons.prems(1) inner, of b s lst] Cons.prems(2,3) x by simp
  next
    case False
    have "S (p @ [b]) = Some Inner" using Cons.prems(5) [of "[b]"] False x by (simp add: strict_prefix_def)
    then obtain j where j: "walk tree 0 (p @ [b]) = Some j"
      "decode_bit tree lst b st = Ret (Inr (st\<lparr>ds_node := j, ds_padding := (if lst then ds_padding st + 1 else ds_padding st)\<rparr>))"
      using decode_bit_shape(2) [OF rep Cons.prems(1) inner, of b lst] by blast
    let ?st = "st\<lparr>ds_node := j, ds_padding := (if lst then ds_padding st + 1 else ds_padding st)\<rparr>"
    have "decode_flagged tree bs ?st = Ret (Inr (?st\<lparr>ds_node := 0, ds_padding := 0, ds_out := ds_out ?st @ [of_nat s]\<rparr>))"
    proof (rule Cons.IH [of "p @ [b]"])
      show "S ((p @ [b]) @ q) = Some Inner" if "strict_prefix q (map snd bs)" for q
        using Cons.prems(5) [of "b # q"] that x by simp
    qed (use Cons.prems(2,3) False x j(1) in simp_all)
    then show ?thesis using j(2) x by simp
  qed
qed simp

text \<open>The tree the decoder uses.\<close>

definition table_codes_list :: "bool list list" where
  "table_codes_list = map code_of HUFFMAN_TABLE"

lemma code_tree_code:
  assumes "prefix_free T" "s < length T"
  shows "code_tree T (T ! s) = Some (Sym s)" "strict_prefix q (T ! s) \<Longrightarrow> code_tree T q = Some Inner"
proof -
  have T: "T = take s T @ T ! s # drop (Suc s) T" using assms(2) by (simp add: id_take_nth_drop)
  have pf: "prefix_free (take s T @ T ! s # drop (Suc s) T)" using assms(1) T by simp
  then have d: "c \<in> set (take s T) \<union> set (drop (Suc s) T) \<Longrightarrow> \<not> prefix c (T ! s) \<and> \<not> prefix (T ! s) c" for c
    by (auto simp: prefix_free_append)
  then have "vec_position (\<lambda>c. c = T ! s) (take s T) = None" unfolding vec_position_None_iff by auto
  then have "vec_position (\<lambda>c. c = T ! s) (take s T @ T ! s # drop (Suc s) T) = Some s"
    using assms(2) by (subst vec_position_append_None) auto
  then show "code_tree T (T ! s) = Some (Sym s)" using T by (simp add: code_tree_def)
  assume q: "strict_prefix q (T ! s)"
  have "vec_position (\<lambda>c. c = q) T = None"
    unfolding vec_position_None_iff
  proof
    fix c assume "c \<in> set T"
    then have "c \<in> set (take s T @ T ! s # drop (Suc s) T)" using T by simp
    then show "c \<noteq> q" using d q by (auto simp: strict_prefix_def)
  qed
  then show "code_tree T q = Some Inner" using q assms(2) by (auto simp: code_tree_def)
qed

lemma decode_codes:
  assumes rep: "tree_rep tree (code_tree table_codes_list)" and "map snd bs = codes data" "ds_node st = 0"
  shows "\<exists>st'. decode_flagged tree bs st = Ret (Inr st') \<and> ds_node st' = 0 \<and> ds_out st' = ds_out st @ data \<and>
    (data \<noteq> [] \<or> ds_padding st = 0 \<longrightarrow> ds_padding st' = 0)"
  using assms(2,3)
proof (induction data arbitrary: bs st)
  case (Cons b data)
  let ?c = "code_of (huff_entry b)"
  have lt: "unat b < 257" using unsigned_less [of b, where 'a = nat] by simp
  have s: "unat b < length table_codes_list" using lt by (simp add: table_codes_list_def table_shape(1))
  have c: "table_codes_list ! unat b = ?c" using lt by (simp add: table_codes_list_def huff_entry_def table_shape(1))
  obtain bs1 bs2 where bs: "bs = bs1 @ bs2" "map snd bs1 = ?c" "map snd bs2 = codes data"
    using Cons.prems(1) by (auto simp: codes_def map_eq_append_conv)
  have "0 < length (map snd bs1)" using huff_entry_shape(2) [of b] unfolding bs(2) by simp
  then have "bs1 \<noteq> []" by auto
  have pf: "prefix_free table_codes_list" using table_prefix_free by (simp add: table_codes_list_def)
  note ct = code_tree_code [OF pf s, unfolded c]
  have ne: "unat b \<noteq> 256" using unsigned_less [of b, where 'a = nat] by simp
  have "decode_flagged tree bs1 st = Ret (Inr (st\<lparr>ds_node := 0, ds_padding := 0, ds_out := ds_out st @ [of_nat (unat b)]\<rparr>))"
    by (rule decode_code [OF rep, of "[]"]) (use Cons.prems(2) ct ne bs(2) \<open>bs1 \<noteq> []\<close> in simp_all)
  then show ?case
    using Cons.IH [OF bs(3), of "st\<lparr>ds_node := 0, ds_padding := 0, ds_out := ds_out st @ [b]\<rparr>"] bs(1)
    by (auto simp: decode_flagged_append)
qed (simp add: codes_def)

subsection \<open>Padding\<close>

lemma eos_code: "table_codes_list ! 256 = replicate 30 True"
  by code_simp

lemma ones_inner: "k < 30 \<Longrightarrow> code_tree table_codes_list (replicate k True) = Some Inner"
proof -
  assume k: "k < 30"
  have "replicate 30 True = replicate k True @ replicate (30 - k) True" using k by (simp flip: replicate_add)
  then have "strict_prefix (replicate k True) (table_codes_list ! 256)"
    unfolding eos_code by (metis append_Nil2 k length_replicate less_irrefl_nat prefixI strict_prefix_def)
  moreover have "prefix_free table_codes_list" "256 < length table_codes_list"
    using table_prefix_free by (simp_all add: table_codes_list_def table_shape(1))
  ultimately show ?thesis using code_tree_code(2) by blast
qed

lemma codes_prefix_free: "prefix_free table_codes_list"
  using table_prefix_free by (simp add: table_codes_list_def)

lemma code_below: "prefix p c \<Longrightarrow> c \<in> set table_codes_list \<Longrightarrow> q \<noteq> p \<Longrightarrow> prefix q p \<Longrightarrow> code_tree table_codes_list q = Some Inner"
  using code_tree_code(2) [OF codes_prefix_free] by (metis in_set_conv_nth prefix_order.dual_order.strict_trans1 prefix_order.le_neq_trans)

lemma code_within: "prefix p c \<Longrightarrow> c \<in> set table_codes_list \<Longrightarrow> code_tree table_codes_list p \<noteq> None"
proof (cases "p = c")
  assume "c \<in> set table_codes_list" "p = c"
  then show "code_tree table_codes_list p \<noteq> None"
    using code_tree_code(1) [OF codes_prefix_free] by (metis in_set_conv_nth option.distinct(1))
next
  assume "prefix p c" "c \<in> set table_codes_list" "p \<noteq> c"
  then show "code_tree table_codes_list p \<noteq> None" using code_below [of c c p] by simp
qed

lemma code_treeD:
  "code_tree T q = Some (Sym s) \<Longrightarrow> s < length T \<and> T ! s = q"
  "code_tree T q \<noteq> None \<Longrightarrow> T \<noteq> [] \<Longrightarrow> \<exists>c \<in> set T. prefix q c"
proof -
  assume "code_tree T q = Some (Sym s)"
  then have "vec_position (\<lambda>c. c = q) T = Some s" by (auto simp: code_tree_def split: option.splits if_splits)
  then show "s < length T \<and> T ! s = q" by (induction T arbitrary: s) (auto split: if_splits)
next
  assume q: "code_tree T q \<noteq> None" "T \<noteq> []"
  show "\<exists>c \<in> set T. prefix q c"
  proof (cases "vec_position (\<lambda>c. c = q) T")
    case None
    then have "q = [] \<or> (\<exists>c \<in> set T. strict_prefix q c)" using q(1) by (auto simp: code_tree_def split: if_splits)
    then show ?thesis using q(2) by (cases T) (auto simp: strict_prefix_def)
  next
    case (Some s)
    then have "q \<in> set T" using vec_position_None_iff [of "\<lambda>c. c = q" T] by auto
    then show ?thesis by blast
  qed
qed

text \<open>Bits of the last byte that stay inside the tree.\<close>

lemma decode_inner:
  assumes rep: "tree_rep tree S" and "walk tree 0 p = Some (ds_node st)"
    and "\<And>q. prefix q bs \<Longrightarrow> S (p @ q) = Some Inner"
  shows "\<exists>j. decode_flagged tree (map (Pair True) bs) st = Ret (Inr (st\<lparr>ds_node := j, ds_padding := ds_padding st + length bs\<rparr>)) \<and>
      walk tree 0 (p @ bs) = Some j \<and> (bs \<noteq> [] \<longrightarrow> j \<noteq> 0)"
  using assms(2,3)
proof (induction bs arbitrary: p st)
  case (Cons b bs)
  have S: "S p = Some Inner" "S (p @ [b]) = Some Inner" using Cons.prems(2) [of "[]"] Cons.prems(2) [of "[b]"] by simp_all
  obtain j where j: "walk tree 0 (p @ [b]) = Some j" "j \<noteq> 0"
    "decode_bit tree True b st = Ret (Inr (st\<lparr>ds_node := j, ds_padding := ds_padding st + 1\<rparr>))"
    using decode_bit_shape(2) [OF rep Cons.prems(1) S, of True] by auto
  obtain i where i: "decode_flagged tree (map (Pair True) bs) (st\<lparr>ds_node := j, ds_padding := ds_padding st + 1\<rparr>) =
      Ret (Inr (st\<lparr>ds_node := i, ds_padding := ds_padding st + 1 + length bs\<rparr>))" "walk tree 0 ((p @ [b]) @ bs) = Some i" "bs \<noteq> [] \<longrightarrow> i \<noteq> 0"
    using Cons.IH [of "p @ [b]" "st\<lparr>ds_node := j, ds_padding := ds_padding st + 1\<rparr>"] j(1) Cons.prems(2) [of "b # q" for q] by auto
  have "bs = [] \<Longrightarrow> i = j" using i(2) j(1) by simp
  then show ?case using i j by (intro exI [of _ i]) auto
qed simp

lemma check_padding_right:
  assumes rep: "tree_rep tree S"
  shows "walk tree 0 p = Some i \<Longrightarrow> \<forall>j < k. S (p @ replicate j True) = Some Inner \<Longrightarrow> S (p @ replicate k True) \<noteq> None
    \<Longrightarrow> check_padding tree k i = Ret (Inr ())"
proof (induction k arbitrary: p i)
  case (Suc k)
  note D = tree_repD [OF rep]
  have inner: "S (p @ replicate j True) = Some Inner" if "j < Suc k" for j using Suc.prems(2) that by blast
  have "S p = Some Inner" using inner [of 0] by simp
  then obtain l r where nd: "tree ! i = NInternal l r" using D(3) [OF Suc.prems(1)] by (cases "tree ! i") auto
  have w: "walk tree 0 (p @ [True]) = (if r = 0 then None else Some r)"
    using Suc.prems(1) by (simp add: walk_snoc step_def nd child_def)
  have "S (p @ [True]) \<noteq> None"
  proof (cases "k = 0")
    case False
    then show ?thesis using inner [of 1] by simp
  qed (use Suc.prems(3) in simp)
  then have r: "r \<noteq> 0" using D(4) [of "p @ [True]"] unfolding w by presburger
  then have "walk tree 0 (p @ [True]) = Some r" unfolding w by simp
  then have "check_padding tree k r = Ret (Inr ())"
  proof (rule Suc.IH)
    show "\<forall>j < k. S ((p @ [True]) @ replicate j True) = Some Inner"
      using inner [of "Suc j" for j] by simp
  qed (use Suc.prems(3) in simp)
  then show ?case using nd r D(2) [OF Suc.prems(1)] by simp
qed simp

subsection \<open>The round trip\<close>

lemma flagged_append_bits:
  assumes "map snd bs = xs @ ys"
  obtains bs1 bs2 where "bs = bs1 @ bs2" "map snd bs1 = xs" "map snd bs2 = ys"
  using assms by (auto simp: map_eq_append_conv)

text \<open>The padding the decoder accepts: fewer than eight bits that, followed by as many ones, start some code.\<close>

definition padding_accepted :: "bool list \<Rightarrow> bool" where
  "padding_accepted pad \<longleftrightarrow> length pad < 8 \<and> (\<exists>c \<in> set (map code_of HUFFMAN_TABLE). prefix (pad @ replicate (length pad) True) c)"

lemma huff_decode_padded:
  assumes bits: "bytes_bits enc = codes data @ pad" and pad: "padding_accepted pad"
  shows "huff_decode enc = Ret (Inr data)"
proof -
  obtain tree where t: "build_decode_tree = Ret tree" "tree_rep tree (code_tree table_codes_list)"
    using decode_tree_rep unfolding table_codes_list_def by blast
  let ?S = "code_tree table_codes_list" and ?k = "length pad"
  obtain c where c: "c \<in> set table_codes_list" "prefix (pad @ replicate ?k True) c" and k: "?k < 8"
    using pad by (auto simp: padding_accepted_def table_codes_list_def)
  let ?st = "\<lparr>ds_node = 0, ds_padding = 0, ds_out = []\<rparr>"
  show ?thesis
  proof (cases "enc = []")
    case True
    have "codes data = []" using bits True by simp
    then have "decode_flagged tree [] ?st = Ret (Inr ?st) \<Longrightarrow> data = []"
      using decode_codes [OF t(2), of "[]" data ?st] by auto
    then show ?thesis using True by (simp add: huff_decode_def huff_decode_with_def t(1))
  next
    case False
    obtain bs1 bs2 where bs: "flagged enc = bs1 @ bs2" "map snd bs1 = codes data" "map snd bs2 = pad"
      using flagged_append_bits [of "flagged enc"] bits flagged_bits by metis
    obtain st where st: "decode_flagged tree bs1 ?st = Ret (Inr st)" "ds_node st = 0" "ds_out st = data" "ds_padding st = 0"
      using decode_codes [OF t(2) bs(2), of ?st] by auto
    have bs2: "bs2 = map (Pair True) pad" using flagged_last [OF k bs(1)] bs(3) by (metis length_map)
    have inner: "?S (pad @ replicate j True) = Some Inner" if "j < ?k" for j
    proof (rule code_below [OF c(2,1)])
      have "replicate ?k True = replicate j True @ replicate (?k - j) True" using that by (simp flip: replicate_add)
      then show "prefix (pad @ replicate j True) (pad @ replicate ?k True)" by simp
    qed (use that in auto)
    have "?S ([] @ q) = Some Inner" if "prefix q pad" "pad \<noteq> []" for q
      using code_below [OF c(2,1), of q] that by (metis append_Nil append_self_conv length_0_conv prefix_append prefix_order.antisym replicate_empty prefixI)
    then obtain j where j: "decode_flagged tree bs2 st = Ret (Inr (st\<lparr>ds_node := j, ds_padding := ?k\<rparr>))" "walk tree 0 pad = Some j"
      using decode_inner [OF t(2), of "[]" st pad] st(2,4) unfolding bs2 by (cases "pad = []") auto
    have run: "decode_bytes tree enc ?st = Ret (Inr (st\<lparr>ds_node := j, ds_padding := ?k\<rparr>))"
      using st(1) j(1) by (simp add: decode_bytes_flagged bs(1) decode_flagged_append)
    have "check_padding tree ?k j = Ret (Inr ())"
      using check_padding_right [OF t(2) j(2), of ?k] inner code_within [OF c(2,1)] by blast
    then show ?thesis using False run st(3) k by (simp add: huff_decode_def huff_decode_with_def t(1))
  qed
qed

lemma ones_accepted: "p < 8 \<Longrightarrow> padding_accepted (replicate p True)"
proof -
  assume p: "p < 8"
  have "replicate 30 True = (replicate p True @ replicate p True) @ replicate (30 - 2 * p) True" using p by (simp flip: replicate_add)
  then have "prefix (replicate p True @ replicate p True) (table_codes_list ! 256)" unfolding eos_code by (metis prefixI)
  then show ?thesis using p unfolding padding_accepted_def table_codes_list_def by (fastforce simp: table_shape(1))
qed

lemma huff_decode_encode: "huff_decode (huff_encode data) = Ret (Inr data)"
  using huff_encode_bits [of data] huff_decode_padded ones_accepted by blast

text \<open>Conversely, what the decoder has read when it returns.\<close>

lemma outcome_sum_bind_Inr:
  "outcome_bind m (\<lambda>r. case r of Inl e \<Rightarrow> Ret (Inl e) | Inr x \<Rightarrow> f x) = Ret (Inr y) \<longleftrightarrow> (\<exists>x. m = Ret (Inr x) \<and> f x = Ret (Inr y))"
proof (cases m)
  case (Ret r)
  then show ?thesis by (cases r) auto
qed simp

lemma decode_flagged_sound:
  assumes rep: "tree_rep tree (code_tree table_codes_list)"
    and "decode_flagged tree bs \<lparr>ds_node = 0, ds_padding = 0, ds_out = []\<rparr> = Ret (Inr st)"
  shows "\<exists>bs1 bs2. bs = bs1 @ bs2 \<and> map snd bs1 = codes (ds_out st) \<and> ds_padding st = length (filter fst bs2) \<and>
    walk tree 0 (map snd bs2) = Some (ds_node st) \<and> code_tree table_codes_list (map snd bs2) = Some Inner \<and>
    (ds_node st = 0 \<longleftrightarrow> bs2 = [])"
  using assms(2)
proof (induction bs arbitrary: st rule: rev_induct)
  case Nil
  then show ?case using ones_inner [of 0] by (auto simp: codes_def)
next
  case (snoc x bs)
  let ?S = "code_tree table_codes_list"
  obtain lst b where x: "x = (lst, b)" by (cases x)
  obtain st0 where st0: "decode_flagged tree bs \<lparr>ds_node = 0, ds_padding = 0, ds_out = []\<rparr> = Ret (Inr st0)"
      "decode_bit tree lst b st0 = Ret (Inr st)"
    using snoc.prems x by (auto simp: decode_flagged_append outcome_sum_bind_Inr)
  obtain bs1 bs2 where IH: "bs = bs1 @ bs2" "map snd bs1 = codes (ds_out st0)" "ds_padding st0 = length (filter fst bs2)"
      "walk tree 0 (map snd bs2) = Some (ds_node st0)" "?S (map snd bs2) = Some Inner"
    using snoc.IH [OF st0(1)] by blast
  note sh = decode_bit_shape [OF rep IH(4,5), where b = b and lst = lst]
  consider (bad) "?S (map snd bs2 @ [b]) = None \<or> ?S (map snd bs2 @ [b]) = Some (Sym 256)"
    | (leaf) s where "?S (map snd bs2 @ [b]) = Some (Sym s)" "s \<noteq> 256" | (inner) "?S (map snd bs2 @ [b]) = Some Inner"
    by (metis option.exhaust shape.exhaust)
  then show ?case
  proof cases
    case bad
    then show ?thesis using sh(3) st0(2) by simp
  next
    case leaf
    have s: "s < 257" "table_codes_list ! s = map snd bs2 @ [b]"
      using code_treeD(1) [OF leaf(1)] by (auto simp: table_codes_list_def table_shape(1))
    have "unat (of_nat s :: u8) = s" using s(1) leaf(2) by (simp add: unat_of_nat)
    then have "codes [of_nat s] = map snd bs2 @ [b]"
      using s by (simp add: codes_def huff_entry_def table_codes_list_def table_shape(1))
    moreover have "codes (xs @ ys) = codes xs @ codes ys" for xs ys by (simp add: codes_def)
    moreover have "st = st0\<lparr>ds_node := 0, ds_padding := 0, ds_out := ds_out st0 @ [of_nat s]\<rparr>" using sh(1) [OF leaf] st0(2) by simp
    ultimately show ?thesis
      using IH x ones_inner [of 0] by (intro exI [of _ "bs @ [x]"] exI [of _ "[]"]) simp
  next
    case inner
    then obtain j where j: "walk tree 0 (map snd bs2 @ [b]) = Some j" "j \<noteq> 0"
        "st = st0\<lparr>ds_node := j, ds_padding := (if lst then ds_padding st0 + 1 else ds_padding st0)\<rparr>"
      using sh(2) st0(2) by auto
    then show ?thesis using IH x inner by (intro exI [of _ bs1] exI [of _ "bs2 @ [x]"]) simp
  qed
qed

text \<open>The padding counter counts the bits of the last byte only, up to eight of them.\<close>

lemma flagged_count:
  assumes "flagged data = xs @ ys"
  shows "length (filter fst ys) = min 8 (length ys)"
proof (cases "length ys < 8")
  case True
  obtain vs where "ys = map (Pair True) vs" using flagged_last [OF True assms] by blast
  then show ?thesis using True by (simp add: filter_map o_def)
next
  case False
  have n: "length (flagged d) = 8 * length d" for d by (induction d) simp_all
  have split: "\<exists>zs. flagged d = zs @ map (Pair True) (bits_rev 8 (last d)) \<and> filter fst zs = []" if "d \<noteq> []" for d
    using that
  proof (induction d)
    case (Cons byte rest)
    show ?case
    proof (cases "rest = []")
      case False
      then obtain zs where "flagged rest = zs @ map (Pair True) (bits_rev 8 (last rest))" "filter fst zs = []" using Cons.IH by blast
      then show ?thesis using False by (intro exI [of _ "map (Pair False) (bits_rev 8 byte) @ zs"]) (simp add: filter_map o_def)
    qed simp
  qed simp
  have "data \<noteq> []" using False assms by auto
  then obtain zs where zs: "flagged data = zs @ map (Pair True) (bits_rev 8 (last data))" "filter fst zs = []" using split by blast
  then have eq: "xs @ ys = zs @ map (Pair True) (bits_rev 8 (last data))" using assms by simp
  have "length xs + length ys = length zs + 8" using arg_cong [OF eq, of length] by simp
  then have "length xs \<le> length zs" using False by linarith
  then obtain us where us: "zs = xs @ us" using arg_cong [OF eq, of "take (length zs)"] by (intro that [of "take (length zs - length xs) ys"]) simp
  then have "ys = us @ map (Pair True) (bits_rev 8 (last data))" using eq by simp
  then show ?thesis using zs(2) us False by (simp add: filter_map o_def)
qed

lemma check_padding_rightD:
  assumes rep: "tree_rep tree (code_tree table_codes_list)"
  shows "walk tree 0 p = Some i \<Longrightarrow> length p + k < 30 \<Longrightarrow> check_padding tree k i = Ret (Inr u)
    \<Longrightarrow> code_tree table_codes_list (p @ replicate k True) \<noteq> None"
proof (induction k arbitrary: p i)
  case 0
  then show ?case using tree_repD(3) [OF rep] by auto
next
  case (Suc k)
  note D = tree_repD [OF rep]
  show ?case
  proof (cases "tree ! i")
    case (NInternal l r)
    have w: "walk tree 0 (p @ [True]) = (if r = 0 then None else Some r)"
      using Suc.prems(1) by (simp add: walk_snoc step_def NInternal child_def)
    have "r \<noteq> 0" "check_padding tree k r = Ret (Inr u)"
      using Suc.prems(3) NInternal D(2) [OF Suc.prems(1)] by (auto split: if_splits)
    then show ?thesis using Suc.IH [of "p @ [True]" r] w Suc.prems(2) by simp
  next
    case (NLeaf s)
    then have "s = 256" using Suc.prems(3) D(2) [OF Suc.prems(1)] by (auto split: if_splits)
    moreover have "code_tree table_codes_list p = Some (Sym s)" using D(3) [OF Suc.prems(1)] NLeaf by simp
    ultimately have "p = replicate 30 True" using code_treeD(1) eos_code by metis
    then show ?thesis using Suc.prems(2) by simp
  qed
qed

lemma huff_decode_sound:
  assumes "huff_decode enc = Ret (Inr data)"
  shows "\<exists>pad. bytes_bits enc = codes data @ pad \<and> padding_accepted pad"
proof (cases "enc = []")
  case True
  then have "data = []" using assms by (simp add: huff_decode_def huff_decode_with_def outcome_bind_Ret_iff)
  then show ?thesis using True ones_accepted [of 0] by (simp add: codes_def)
next
  case False
  obtain tree where t: "build_decode_tree = Ret tree" "tree_rep tree (code_tree table_codes_list)"
    using decode_tree_rep unfolding table_codes_list_def by blast
  obtain st where st: "decode_flagged tree (flagged enc) \<lparr>ds_node = 0, ds_padding = 0, ds_out = []\<rparr> = Ret (Inr st)" "ds_out st = data"
      "ds_node st \<noteq> 0 \<Longrightarrow> ds_padding st \<le> 7 \<and> (\<exists>u. check_padding tree (ds_padding st) (ds_node st) = Ret (Inr u))"
    using assms False
    by (auto simp: huff_decode_def huff_decode_with_def t(1) decode_bytes_flagged outcome_sum_bind_Inr split: if_splits)
  obtain bs1 bs2 where bs: "flagged enc = bs1 @ bs2" "map snd bs1 = codes data" "ds_padding st = length (filter fst bs2)"
      "walk tree 0 (map snd bs2) = Some (ds_node st)" "ds_node st = 0 \<longleftrightarrow> bs2 = []"
    using decode_flagged_sound [OF t(2) st(1)] unfolding st(2) by (elim exE conjE) (rule that)
  let ?pad = "map snd bs2"
  have bits: "bytes_bits enc = codes data @ ?pad" using bs(1,2) by (metis flagged_bits map_append)
  show ?thesis
  proof (cases "bs2 = []")
    case True
    then show ?thesis using bits ones_accepted [of 0] by auto
  next
    case False
    then have p: "ds_padding st \<le> 7" and "\<exists>u. check_padding tree (ds_padding st) (ds_node st) = Ret (Inr u)" using st(3) bs(5) by auto
    moreover have k: "ds_padding st = length ?pad" using flagged_count [OF bs(1)] bs(3) p by simp
    ultimately have "code_tree table_codes_list (?pad @ replicate (length ?pad) True) \<noteq> None"
      using check_padding_rightD [OF t(2) bs(4), of "length ?pad"] by auto
    moreover have "table_codes_list \<noteq> []" using table_shape(1) by (auto simp: table_codes_list_def)
    ultimately have "padding_accepted ?pad"
      using code_treeD(2) [of table_codes_list] p k unfolding padding_accepted_def table_codes_list_def by simp
    then show ?thesis using bits by blast
  qed
qed

text \<open>Any bytes at all: the decoder returns, and every symbol it writes used at least one bit.\<close>

definition dec_inv :: "Node list \<Rightarrow> (bool list \<Rightarrow> shape option) \<Rightarrow> dec_state \<Rightarrow> bool" where
  "dec_inv tree S st \<longleftrightarrow> (\<exists>p. walk tree 0 p = Some (ds_node st) \<and> S p = Some Inner)"

lemma decode_bit_total:
  assumes rep: "tree_rep tree S" and root: "S [] = Some Inner" and inv: "dec_inv tree S st"
  shows "\<exists>r. decode_bit tree lst b st = Ret r \<and>
    (\<forall>st'. r = Inr st' \<longrightarrow> dec_inv tree S st' \<and> length (ds_out st') \<le> Suc (length (ds_out st)))"
proof -
  obtain p where p: "walk tree 0 p = Some (ds_node st)" "S p = Some Inner" using inv by (auto simp: dec_inv_def)
  note sh = decode_bit_shape [OF rep p, where b = b and lst = lst]
  consider (bad) "S (p @ [b]) = None \<or> S (p @ [b]) = Some (Sym 256)" | (leaf) s where "S (p @ [b]) = Some (Sym s)" "s \<noteq> 256"
    | (inner) "S (p @ [b]) = Some Inner"
    by (metis option.exhaust shape.exhaust)
  then show ?thesis
  proof cases
    case bad
    then show ?thesis using sh(3) by simp
  next
    case leaf
    have "dec_inv tree S (st\<lparr>ds_node := 0, ds_padding := 0, ds_out := ds_out st @ [of_nat s]\<rparr>)"
      unfolding dec_inv_def by (intro exI [of _ "[]"]) (simp add: root)
    then show ?thesis using sh(1) [OF leaf] by simp
  next
    case inner
    then show ?thesis using sh(2) by (auto simp: dec_inv_def)
  qed
qed

lemma decode_flagged_total:
  assumes rep: "tree_rep tree S" and root: "S [] = Some Inner" and "dec_inv tree S st"
  shows "\<exists>r. decode_flagged tree bs st = Ret r \<and>
    (\<forall>st'. r = Inr st' \<longrightarrow> dec_inv tree S st' \<and> length (ds_out st') \<le> length bs + length (ds_out st))"
  using assms(3)
proof (induction bs arbitrary: st)
  case (Cons x bs)
  obtain lst b where x: "x = (lst, b)" by (cases x)
  obtain r where r: "decode_bit tree lst b st = Ret r"
      "\<And>st'. r = Inr st' \<Longrightarrow> dec_inv tree S st' \<and> length (ds_out st') \<le> Suc (length (ds_out st))"
    using decode_bit_total [OF rep root Cons.prems] by blast
  show ?case
  proof (cases r)
    case (Inr st')
    then show ?thesis using Cons.IH [of st'] r x by fastforce
  qed (use r x in simp)
qed simp

lemma check_padding_total:
  assumes rep: "tree_rep tree S"
  shows "walk tree 0 p = Some i \<Longrightarrow> \<exists>r. check_padding tree k i = Ret r"
proof (induction k arbitrary: p i)
  case (Suc k)
  have len: "i < length tree" using tree_repD(2) [OF rep Suc.prems] .
  show ?case
  proof (cases "tree ! i")
    case (NInternal l r)
    have "walk tree 0 (p @ [True]) = (if r = 0 then None else Some r)"
      using Suc.prems by (simp add: walk_snoc step_def NInternal child_def)
    then show ?thesis using Suc.IH [of "p @ [True]" r] len NInternal by auto
  qed (use len in auto)
qed simp

lemma huff_decode_total: "\<exists>r. huff_decode data = Ret r \<and> (\<forall>out. r = Inr out \<longrightarrow> length out \<le> 8 * length data)"
proof -
  obtain tree where t: "build_decode_tree = Ret tree" "tree_rep tree (code_tree table_codes_list)"
    using decode_tree_rep unfolding table_codes_list_def by blast
  let ?S = "code_tree table_codes_list" and ?st = "\<lparr>ds_node = 0, ds_padding = 0, ds_out = []\<rparr>"
  have root: "?S [] = Some Inner" using ones_inner [of 0] by simp
  have len: "length (flagged data) = 8 * length data" by (induction data) simp_all
  have "walk tree 0 [] = Some (ds_node ?st)" by simp
  then have "dec_inv tree ?S ?st" using root unfolding dec_inv_def by blast
  then obtain r where r: "decode_bytes tree data ?st = Ret r"
      "\<And>st'. r = Inr st' \<Longrightarrow> dec_inv tree ?S st' \<and> length (ds_out st') \<le> 8 * length data"
    using decode_flagged_total [OF t(2) root, of ?st "flagged data"] len unfolding decode_bytes_flagged by auto
  show ?thesis
  proof (cases r)
    case (Inl e)
    then show ?thesis using r(1) by (simp add: huff_decode_def huff_decode_with_def t(1))
  next
    case (Inr st)
    obtain p where p: "walk tree 0 p = Some (ds_node st)" using r(2) [OF Inr] by (auto simp: dec_inv_def)
    obtain c where c: "check_padding tree (ds_padding st) (ds_node st) = Ret c"
      using check_padding_total [OF t(2) p] by blast
    show ?thesis using r Inr c by (cases c) (simp_all add: huff_decode_def huff_decode_with_def t(1))
  qed
qed

text \<open>C22. Huffman coding of header strings is lossless: for every byte string, decoding the encoder's output
  with the tree built from the code table gives the string back, without a panic or a compression error, and the
  encoder writes exactly the number of bytes that \<open>encoded_len\<close> announced for the length prefix.\<close>

theorem huffman_round_trip:
  "huff_decode (huff_encode data) = Ret (Inr data) \<and> length (huff_encode data) = encoded_len data"
  by (simp add: huff_decode_encode huff_encode_length)

text \<open>C23. Exactly what the Huffman decoder accepts: it returns \<open>data\<close> on the bytes \<open>enc\<close> if and only if the bits of
  \<open>enc\<close> are the codes of \<open>data\<close> followed by fewer than eight bits of padding that, with as many ones appended, are the start
  of some code of the table. So it is complete (the encoder's own padding, ones, is accepted), it never returns a string
  other than the one encoded, and it rejects padding of a byte or more; but the padding need not be the start of the
  end-of-string code, all ones, as RFC 7541 section 5.2 requires: the loop after the last byte walks the right children
  below the node the padding led to instead of comparing the bits of the padding. The byte 0x50, the code of a space
  followed by the bits 00, is one such string: it decodes to a space.\<close>

theorem huffman_decode_accepts:
  "(huff_decode enc = Ret (Inr data) \<longleftrightarrow> (\<exists>pad. bytes_bits enc = codes data @ pad \<and> padding_accepted pad)) \<and>
   bytes_bits [0x50] = codes [0x20] @ [False, False] \<and> huff_decode [0x50] = Ret (Inr [0x20])"
proof (intro conjI)
  show "huff_decode enc = Ret (Inr data) \<longleftrightarrow> (\<exists>pad. bytes_bits enc = codes data @ pad \<and> padding_accepted pad)"
    using huff_decode_sound huff_decode_padded by blast
  show bits: "bytes_bits [0x50] = codes [0x20] @ [False, False]" by code_simp
  have "padding_accepted [False, False]" by code_simp
  then show "huff_decode [0x50] = Ret (Inr [0x20])" using bits huff_decode_padded by blast
qed

end
