(* ===== verification/H2_Hpack.thy ===== *)
theory H2_Hpack
  imports Huffman_Codec
begin

section \<open>HPACK header compression\<close>

text \<open>
  \<open>ringline-h2/src/hpack.rs\<close>: the prefix-integer codec, the static and the dynamic table, string literals,
  the encoder and the decoder. Lengths, indices and sizes are natural numbers; the additions and
  subtractions that Rust checks or wraps carry their width (\<open>usize\<close> and \<open>u64\<close> are 64 bits) and the build
  profile \<open>dbg\<close>. The decoder changes its table while it reads, also when it fails later, so decoding returns
  the result together with the decoder.
\<close>

definition ascii :: "string \<Rightarrow> bytes" where
  "ascii = map of_char"

text \<open>The \<open>?\<close> operator in code that can also panic, and \<open>ok_or\<close>.\<close>

definition try_bind :: "'a h2_result outcome \<Rightarrow> ('a \<Rightarrow> 'b h2_result outcome) \<Rightarrow> 'b h2_result outcome" where
  "try_bind m k = outcome_bind m (\<lambda>r. case r of Inl e \<Rightarrow> Ret (Inl e) | Inr x \<Rightarrow> k x)"

definition ok_or :: "H2Error \<Rightarrow> 'a option outcome \<Rightarrow> 'a h2_result outcome" where
  "ok_or e m = outcome_bind m (\<lambda>r. Ret (case r of None \<Rightarrow> Inl e | Some x \<Rightarrow> Inr x))"

lemma try_bind_simps [simp]: "try_bind (Ret (Inr x)) k = k x" "try_bind (Ret (Inl e)) k = Ret (Inl e)"
  by (simp_all add: try_bind_def)

lemma try_bind_Inr_iff: "try_bind m k = Ret (Inr y) \<longleftrightarrow> (\<exists>x. m = Ret (Inr x) \<and> k x = Ret (Inr y))"
  by (cases m) (auto simp: try_bind_def split: sum.splits)

lemma ok_or_simps [simp]: "ok_or e (Ret (Some x)) = Ret (Inr x)" "ok_or e (Ret None) = Ret (Inl e)"
  by (simp_all add: ok_or_def)

lemma ok_or_Inr_iff: "ok_or e m = Ret (Inr y) \<longleftrightarrow> m = Ret (Some y)"
  by (cases m) (auto simp: ok_or_def split: option.splits)

definition MAX_HEADER_FIELDS :: nat where "MAX_HEADER_FIELDS = 256"

record HeaderField =
  hf_name :: bytes
  hf_value :: bytes

definition hf_size :: "HeaderField \<Rightarrow> nat" where
  "hf_size h = length (hf_name h) + length (hf_value h) + 32"

subsection \<open>Prefix integers\<close>

fun prefix_tail :: "nat \<Rightarrow> bytes" where
  "prefix_tail remaining =
     (if 128 \<le> remaining then (0x80 OR of_nat (remaining mod 128)) # prefix_tail (remaining div 128)
      else [of_nat remaining])"

declare prefix_tail.simps [simp del]

definition encode_prefix_int :: "nat \<Rightarrow> nat \<Rightarrow> u8 \<Rightarrow> bytes" where
  "encode_prefix_int val prefix_bits pattern =
     (let max = 2 ^ prefix_bits - 1 in
      if val < max then [pattern OR of_nat val]
      else (pattern OR of_nat max) # prefix_tail (val - max))"

fun prefix_loop :: "profile \<Rightarrow> bytes \<Rightarrow> nat \<Rightarrow> nat \<Rightarrow> nat \<Rightarrow> (nat \<times> nat) option outcome" where
  "prefix_loop dbg [] val shift i = Ret None"
| "prefix_loop dbg (b # bs) val shift i =
     uint_add 64 dbg val (cast_uint 64 (push_bit shift (unat (b AND 0x7f)))) (\<lambda>val.
       let shift = shift + 7 in
       if b AND 0x80 = 0 then Ret (Some (val, i + 2))
       else if 56 < shift then Ret None
       else prefix_loop dbg bs val shift (i + 1))"

fun decode_prefix_int :: "profile \<Rightarrow> bytes \<Rightarrow> nat \<Rightarrow> (nat \<times> nat) option outcome" where
  "decode_prefix_int dbg [] prefix_bits = Ret None"
| "decode_prefix_int dbg (b # bs) prefix_bits =
     (let max = 2 ^ prefix_bits - 1; val = take_bit prefix_bits (unat b) in
      if val < max then Ret (Some (val, 1)) else prefix_loop dbg bs max 0 0)"

subsection \<open>The static table\<close>

definition STATIC_TABLE :: "(bytes \<times> bytes) list" where
  "STATIC_TABLE =
    [(ascii '':authority'', ascii ''''), (ascii '':method'', ascii ''GET''), (ascii '':method'', ascii ''POST''),
     (ascii '':path'', ascii ''/''), (ascii '':path'', ascii ''/index.html''), (ascii '':scheme'', ascii ''http''),
     (ascii '':scheme'', ascii ''https''), (ascii '':status'', ascii ''200''), (ascii '':status'', ascii ''204''),
     (ascii '':status'', ascii ''206''), (ascii '':status'', ascii ''304''), (ascii '':status'', ascii ''400''),
     (ascii '':status'', ascii ''404''), (ascii '':status'', ascii ''500''), (ascii ''accept-charset'', ascii ''''),
     (ascii ''accept-encoding'', ascii ''gzip, deflate''), (ascii ''accept-language'', ascii ''''), (ascii ''accept-ranges'', ascii ''''),
     (ascii ''accept'', ascii ''''), (ascii ''access-control-allow-origin'', ascii ''''), (ascii ''age'', ascii ''''),
     (ascii ''allow'', ascii ''''), (ascii ''authorization'', ascii ''''), (ascii ''cache-control'', ascii ''''),
     (ascii ''content-disposition'', ascii ''''), (ascii ''content-encoding'', ascii ''''), (ascii ''content-language'', ascii ''''),
     (ascii ''content-length'', ascii ''''), (ascii ''content-location'', ascii ''''), (ascii ''content-range'', ascii ''''),
     (ascii ''content-type'', ascii ''''), (ascii ''cookie'', ascii ''''), (ascii ''date'', ascii ''''),
     (ascii ''etag'', ascii ''''), (ascii ''expect'', ascii ''''), (ascii ''expires'', ascii ''''),
     (ascii ''from'', ascii ''''), (ascii ''host'', ascii ''''), (ascii ''if-match'', ascii ''''),
     (ascii ''if-modified-since'', ascii ''''), (ascii ''if-none-match'', ascii ''''), (ascii ''if-range'', ascii ''''),
     (ascii ''if-unmodified-since'', ascii ''''), (ascii ''last-modified'', ascii ''''), (ascii ''link'', ascii ''''),
     (ascii ''location'', ascii ''''), (ascii ''max-forwards'', ascii ''''), (ascii ''proxy-authenticate'', ascii ''''),
     (ascii ''proxy-authorization'', ascii ''''), (ascii ''range'', ascii ''''), (ascii ''referer'', ascii ''''),
     (ascii ''refresh'', ascii ''''), (ascii ''retry-after'', ascii ''''), (ascii ''server'', ascii ''''),
     (ascii ''set-cookie'', ascii ''''), (ascii ''strict-transport-security'', ascii ''''), (ascii ''transfer-encoding'', ascii ''''),
     (ascii ''user-agent'', ascii ''''), (ascii ''vary'', ascii ''''), (ascii ''via'', ascii ''''),
     (ascii ''www-authenticate'', ascii '''')]"

definition find_static_name_value :: "bytes \<Rightarrow> bytes \<Rightarrow> nat option" where
  "find_static_name_value name val = map_option Suc (vec_position (\<lambda>(n, v). n = name \<and> v = val) STATIC_TABLE)"

definition find_static_name :: "bytes \<Rightarrow> nat option" where
  "find_static_name name = map_option Suc (vec_position (\<lambda>(n, _). n = name) STATIC_TABLE)"

subsection \<open>The dynamic table\<close>

record DynamicTable =
  dt_entries :: "HeaderField list"
  dt_size :: nat
  dt_max_size :: nat

definition dt_new :: "nat \<Rightarrow> DynamicTable" where
  "dt_new max_size = \<lparr>dt_entries = [], dt_size = 0, dt_max_size = max_size\<rparr>"

definition dt_get :: "nat \<Rightarrow> DynamicTable \<Rightarrow> HeaderField option" where
  "dt_get i t = (if i < length (dt_entries t) then Some (dt_entries t ! i) else None)"

text \<open>The eviction loop of \<open>insert\<close>, with the size of the new entry in \<open>extra\<close>, and of \<open>set_max_size\<close>, with
  \<open>extra\<close> zero.\<close>

fun dt_evict :: "profile \<Rightarrow> nat \<Rightarrow> nat \<Rightarrow> HeaderField list \<Rightarrow> nat \<Rightarrow> (HeaderField list \<times> nat) outcome" where
  "dt_evict dbg extra max_size entries sz =
     uint_add 64 dbg sz extra (\<lambda>needed.
       if max_size < needed \<and> entries \<noteq> [] then
         uint_sub 64 dbg sz (hf_size (last entries)) (\<lambda>sz. dt_evict dbg extra max_size (butlast entries) sz)
       else Ret (entries, sz))"

declare dt_evict.simps [simp del]

definition dt_insert :: "profile \<Rightarrow> HeaderField \<Rightarrow> DynamicTable \<Rightarrow> DynamicTable outcome" where
  "dt_insert dbg field t =
     (let entry_size = hf_size field in
      outcome_bind (dt_evict dbg entry_size (dt_max_size t) (dt_entries t) (dt_size t)) (\<lambda>(entries, sz).
        if dt_max_size t < entry_size then Ret (t\<lparr>dt_entries := [], dt_size := 0\<rparr>)
        else uint_add 64 dbg sz entry_size (\<lambda>sz. Ret (t\<lparr>dt_entries := field # entries, dt_size := sz\<rparr>))))"

definition dt_set_max_size :: "profile \<Rightarrow> nat \<Rightarrow> DynamicTable \<Rightarrow> DynamicTable outcome" where
  "dt_set_max_size dbg max_size t =
     outcome_bind (dt_evict dbg 0 max_size (dt_entries t) (dt_size t)) (\<lambda>(entries, sz).
       Ret \<lparr>dt_entries = entries, dt_size = sz, dt_max_size = max_size\<rparr>)"

definition dt_find_name_value :: "bytes \<Rightarrow> bytes \<Rightarrow> DynamicTable \<Rightarrow> nat option" where
  "dt_find_name_value name val t =
     map_option (\<lambda>i. i + 62) (vec_position (\<lambda>h. hf_name h = name \<and> hf_value h = val) (dt_entries t))"

definition dt_find_name :: "bytes \<Rightarrow> DynamicTable \<Rightarrow> nat option" where
  "dt_find_name name t = map_option (\<lambda>i. i + 62) (vec_position (\<lambda>h. hf_name h = name) (dt_entries t))"

subsection \<open>String literals\<close>

definition slice_from :: "nat \<Rightarrow> bytes \<Rightarrow> (bytes \<Rightarrow> 'a outcome) \<Rightarrow> 'a outcome" where
  "slice_from n buf k = ensure (n \<le> length buf) (k (drop n buf))"

definition encode_string_literal :: "bytes \<Rightarrow> bytes" where
  "encode_string_literal data =
     (let huf_len = encoded_len data in
      if huf_len < length data then encode_prefix_int huf_len 7 0x80 @ huff_encode data
      else encode_prefix_int (length data) 7 0x00 @ data)"

definition decode_string_literal :: "profile \<Rightarrow> bytes \<Rightarrow> (bytes \<times> nat) h2_result outcome" where
  "decode_string_literal dbg buf =
     (if buf = [] then Ret (Inl CompressionError)
      else let huffman = (hd buf AND 0x80 \<noteq> 0) in
        try_bind (ok_or CompressionError (decode_prefix_int dbg buf 7)) (\<lambda>(str_len, n).
          uint_add 64 dbg n str_len (\<lambda>total.
            if length buf < total then Ret (Inl CompressionError)
            else ensure (n \<le> total)
              (let data = take (total - n) (drop n buf) in
               if huffman then try_bind (huff_decode data) (\<lambda>val. Ret (Inr (val, total)))
               else Ret (Inr (data, total))))))"

subsection \<open>The encoder\<close>

record Encoder =
  enc_table :: DynamicTable
  enc_pending_min :: "nat option"
  enc_pending_latest :: "nat option"

definition enc_new :: "nat \<Rightarrow> Encoder" where
  "enc_new max_table_size = \<lparr>enc_table = dt_new max_table_size, enc_pending_min = None, enc_pending_latest = None\<rparr>"

definition enc_set_max_table_size :: "profile \<Rightarrow> nat \<Rightarrow> Encoder \<Rightarrow> (bytes \<times> Encoder) outcome" where
  "enc_set_max_table_size dbg new_size e =
     outcome_bind (dt_set_max_size dbg new_size (enc_table e)) (\<lambda>t.
       Ret (encode_prefix_int new_size 5 0x20, e\<lparr>enc_table := t\<rparr>))"

definition enc_update_max_table_size :: "nat \<Rightarrow> Encoder \<Rightarrow> Encoder" where
  "enc_update_max_table_size new_size e =
     e\<lparr>enc_pending_min := Some (case enc_pending_min e of Some m \<Rightarrow> min m new_size | None \<Rightarrow> new_size),
       enc_pending_latest := Some new_size\<rparr>"

definition encode_header :: "profile \<Rightarrow> HeaderField \<Rightarrow> DynamicTable \<Rightarrow> (bytes \<times> DynamicTable) outcome" where
  "encode_header dbg h t =
     (case find_static_name_value (hf_name h) (hf_value h) of
        Some i \<Rightarrow> Ret (encode_prefix_int i 7 0x80, t)
      | None \<Rightarrow>
     (case dt_find_name_value (hf_name h) (hf_value h) t of
        Some i \<Rightarrow> Ret (encode_prefix_int i 7 0x80, t)
      | None \<Rightarrow>
     (case find_static_name (hf_name h) of
        Some i \<Rightarrow>
          outcome_bind (dt_insert dbg h t) (\<lambda>t'. Ret (encode_prefix_int i 6 0x40 @ encode_string_literal (hf_value h), t'))
      | None \<Rightarrow>
     (case dt_find_name (hf_name h) t of
        Some i \<Rightarrow>
          outcome_bind (dt_insert dbg h t) (\<lambda>t'. Ret (encode_prefix_int i 6 0x40 @ encode_string_literal (hf_value h), t'))
      | None \<Rightarrow>
          outcome_bind (dt_insert dbg h t) (\<lambda>t'.
            Ret (0x40 # encode_string_literal (hf_name h) @ encode_string_literal (hf_value h), t'))))))"

fun encode_headers :: "profile \<Rightarrow> HeaderField list \<Rightarrow> DynamicTable \<Rightarrow> (bytes \<times> DynamicTable) outcome" where
  "encode_headers dbg [] t = Ret ([], t)"
| "encode_headers dbg (h # hs) t =
     outcome_bind (encode_header dbg h t) (\<lambda>(b, t').
       outcome_bind (encode_headers dbg hs t') (\<lambda>(bs, t''). Ret (b @ bs, t'')))"

definition emit_pending :: "profile \<Rightarrow> Encoder \<Rightarrow> (bytes \<times> Encoder) outcome" where
  "emit_pending dbg e =
     (case enc_pending_latest e of
        None \<Rightarrow> Ret ([], e)
      | Some latest \<Rightarrow>
          let e1 = e\<lparr>enc_pending_latest := None, enc_pending_min := None\<rparr>;
              min = (case enc_pending_min e of Some m \<Rightarrow> m | None \<Rightarrow> latest) in
          outcome_bind (if min \<noteq> latest then enc_set_max_table_size dbg min e1 else Ret ([], e1)) (\<lambda>(b1, e2).
            outcome_bind (enc_set_max_table_size dbg latest e2) (\<lambda>(b2, e3). Ret (b1 @ b2, e3))))"

definition enc_encode :: "profile \<Rightarrow> HeaderField list \<Rightarrow> Encoder \<Rightarrow> (bytes \<times> Encoder) outcome" where
  "enc_encode dbg headers e =
     outcome_bind (emit_pending dbg e) (\<lambda>(b1, e1).
       outcome_bind (encode_headers dbg headers (enc_table e1)) (\<lambda>(b2, t). Ret (b1 @ b2, e1\<lparr>enc_table := t\<rparr>)))"

subsection \<open>The decoder\<close>

record Decoder =
  dec_table :: DynamicTable
  dec_max_table_size :: nat

definition dec_new :: "nat \<Rightarrow> Decoder" where
  "dec_new max_table_size = \<lparr>dec_table = dt_new max_table_size, dec_max_table_size = max_table_size\<rparr>"

definition dec_set_max_table_size :: "nat \<Rightarrow> Decoder \<Rightarrow> Decoder" where
  "dec_set_max_table_size max_size d = d\<lparr>dec_max_table_size := max_size\<rparr>"

definition get_indexed :: "nat \<Rightarrow> DynamicTable \<Rightarrow> HeaderField h2_result" where
  "get_indexed index t =
     (if index = 0 then Inl CompressionError
      else if index \<le> length STATIC_TABLE then
        (case STATIC_TABLE ! (index - 1) of (name, val) \<Rightarrow> Inr \<lparr>hf_name = name, hf_value = val\<rparr>)
      else case dt_get (index - length STATIC_TABLE - 1) t of None \<Rightarrow> Inl CompressionError | Some h \<Rightarrow> Inr h)"

definition get_name :: "nat \<Rightarrow> DynamicTable \<Rightarrow> bytes h2_result" where
  "get_name index t =
     (if index = 0 then Inl CompressionError
      else if index \<le> length STATIC_TABLE then Inr (fst (STATIC_TABLE ! (index - 1)))
      else case dt_get (index - length STATIC_TABLE - 1) t of None \<Rightarrow> Inl CompressionError | Some h \<Rightarrow> Inr (hf_name h))"

text \<open>The part the three literal representations share: the name, by index or as a string, and the value,
  with the number of bytes read.\<close>

definition decode_literal :: "profile \<Rightarrow> nat \<Rightarrow> bytes \<Rightarrow> DynamicTable \<Rightarrow> (HeaderField \<times> nat) h2_result outcome" where
  "decode_literal dbg prefix_bits buf t =
     try_bind (ok_or CompressionError (decode_prefix_int dbg buf prefix_bits)) (\<lambda>(name_index, n).
       try_bind
         (if 0 < name_index then Ret (h2_bind (get_name name_index t) (\<lambda>name. Inr (name, 0)))
          else slice_from n buf (decode_string_literal dbg)) (\<lambda>(name, consumed).
         try_bind (slice_from (n + consumed) buf (decode_string_literal dbg)) (\<lambda>(val, consumed').
           Ret (Inr (\<lparr>hf_name = name, hf_value = val\<rparr>, n + consumed + consumed')))))"

record block_state =
  bs_headers :: "HeaderField list"
  bs_seen_header :: bool
  bs_decoder :: Decoder

abbreviation bs_table :: "block_state \<Rightarrow> DynamicTable" where
  "bs_table st \<equiv> dec_table (bs_decoder st)"

definition push_header :: "HeaderField \<Rightarrow> block_state \<Rightarrow> block_state" where
  "push_header h st = st\<lparr>bs_headers := bs_headers st @ [h], bs_seen_header := True\<rparr>"

definition set_table :: "DynamicTable \<Rightarrow> block_state \<Rightarrow> block_state" where
  "set_table t st = st\<lparr>bs_decoder := (bs_decoder st)\<lparr>dec_table := t\<rparr>\<rparr>"

definition too_many_headers :: "'a h2_result" where
  "too_many_headers = Inl (MaxSizeExceeded [Lit ''HPACK block exceeds MAX_HEADER_FIELDS ('', Num MAX_HEADER_FIELDS, Lit '')''])"

text \<open>One iteration of the loop in \<open>Decoder::decode\<close>: one representation, with the bytes it takes.\<close>

definition decode_one :: "profile \<Rightarrow> bytes \<Rightarrow> block_state \<Rightarrow> (nat \<times> block_state) h2_result outcome" where
  "decode_one dbg buf st =
     (let first = hd buf in
      if first AND 0x80 \<noteq> 0 then
        try_bind (ok_or CompressionError (decode_prefix_int dbg buf 7)) (\<lambda>(index, n).
          if MAX_HEADER_FIELDS \<le> length (bs_headers st) then Ret too_many_headers
          else try_bind (Ret (get_indexed index (bs_table st))) (\<lambda>field. Ret (Inr (n, push_header field st))))
      else if first AND 0x40 \<noteq> 0 then
        try_bind (decode_literal dbg 6 buf (bs_table st)) (\<lambda>(field, n).
          if MAX_HEADER_FIELDS \<le> length (bs_headers st) then Ret too_many_headers
          else outcome_bind (dt_insert dbg field (bs_table st)) (\<lambda>t.
            Ret (Inr (n, push_header field (set_table t st)))))
      else if first AND 0x20 \<noteq> 0 then
        (if bs_seen_header st then Ret (Inl CompressionError)
         else try_bind (ok_or CompressionError (decode_prefix_int dbg buf 5)) (\<lambda>(new_size, n).
           if dec_max_table_size (bs_decoder st) < new_size then Ret (Inl CompressionError)
           else outcome_bind (dt_set_max_size dbg new_size (bs_table st)) (\<lambda>t. Ret (Inr (n, set_table t st)))))
      else
        try_bind (decode_literal dbg 4 buf (bs_table st)) (\<lambda>(field, n).
          if MAX_HEADER_FIELDS \<le> length (bs_headers st) then Ret too_many_headers
          else Ret (Inr (n, push_header field st))))"

lemma uint_add_RetD: "uint_add w dbg a b k = Ret y \<Longrightarrow> \<exists>s. k s = Ret y"
  by (auto simp: uint_add_def split: if_splits)

lemma prefix_loop_consumes: "prefix_loop dbg bs val shift i = Ret (Some (v, n)) \<Longrightarrow> i < n \<and> n \<le> i + 1 + length bs"
proof (induction dbg bs val shift i rule: prefix_loop.induct)
  case (2 dbg b bs val shift i)
  then show ?case by (fastforce simp: uint_add_def Let_def split: if_splits)
qed simp

lemma decode_prefix_int_consumes: "decode_prefix_int dbg buf p = Ret (Some (v, n)) \<Longrightarrow> 0 < n \<and> n \<le> length buf"
  by (cases buf) (auto simp: Let_def split: if_splits dest!: prefix_loop_consumes)

lemma slice_from_Ret_iff: "slice_from n buf k = Ret y \<longleftrightarrow> n \<le> length buf \<and> k (drop n buf) = Ret y"
  by (simp add: slice_from_def)

lemma decode_string_literal_consumes:
  "decode_string_literal dbg buf = Ret (Inr (s, n)) \<Longrightarrow> n \<le> length buf"
  by (auto simp: decode_string_literal_def Let_def try_bind_Inr_iff ok_or_Inr_iff split: if_splits dest!: uint_add_RetD)

lemma decode_literal_consumes: "decode_literal dbg p buf t = Ret (Inr (h, n)) \<Longrightarrow> 0 < n \<and> n \<le> length buf"
  by (auto simp: decode_literal_def try_bind_Inr_iff ok_or_Inr_iff slice_from_Ret_iff h2_bind_Inr_iff
    dest!: decode_prefix_int_consumes decode_string_literal_consumes split: if_splits)

lemma decode_one_consumes: "decode_one dbg buf st = Ret (Inr (n, st')) \<Longrightarrow> 0 < n \<and> n \<le> length buf"
  unfolding decode_one_def Let_def
  by (auto simp: try_bind_Inr_iff ok_or_Inr_iff outcome_bind_Ret_iff too_many_headers_def
    dest!: decode_prefix_int_consumes decode_literal_consumes split: if_splits)

function decode_loop :: "profile \<Rightarrow> bytes \<Rightarrow> block_state \<Rightarrow> (HeaderField list h2_result \<times> Decoder) outcome" where
  "decode_loop dbg buf st =
     (if buf = [] then Ret (Inr (bs_headers st), bs_decoder st)
      else case decode_one dbg buf st of
             Panic \<Rightarrow> Panic
           | Ret (Inl e) \<Rightarrow> Ret (Inl e, bs_decoder st)
           | Ret (Inr (n, st')) \<Rightarrow> decode_loop dbg (drop n buf) st')"
  by pat_completeness auto
termination
  by (relation "measure (\<lambda>(dbg, buf, st). length buf)") (auto dest: decode_one_consumes)

declare decode_loop.simps [simp del]

definition dec_decode :: "profile \<Rightarrow> bytes \<Rightarrow> Decoder \<Rightarrow> (HeaderField list h2_result \<times> Decoder) outcome" where
  "dec_decode dbg buf d = decode_loop dbg buf \<lparr>bs_headers = [], bs_seen_header = False, bs_decoder = d\<rparr>"

end
