(* ===== verification/Hpack_Sync.thy ===== *)
theory Hpack_Sync
  imports H2_Hpack
begin

section \<open>HPACK: synchronised encoder and decoder\<close>

text \<open>
  The prefix-integer and string codecs are lossless; the dynamic table keeps exactly the newest entries that
  fit; the decoder, fed with the encoder's blocks, returns the headers and follows its table, also across table size
  changes; and whatever bytes a peer sends, the decoder neither panics nor leaves its bounds.
\<close>

subsection \<open>Prefix integers\<close>

lemma continuation_byte:
  "n < 128 \<Longrightarrow> unat ((0x80 OR of_nat n :: u8) AND 0x7f) = n \<and> (0x80 OR of_nat n :: u8) AND 0x80 \<noteq> 0"
proof -
  have "list_all (\<lambda>n. unat ((0x80 OR of_nat n :: u8) AND 0x7f) = n \<and> (0x80 OR of_nat n :: u8) AND 0x80 \<noteq> 0) [0..<128]"
    by code_simp
  then show "n < 128 \<Longrightarrow> ?thesis" by (simp add: list_all_iff)
qed

lemma last_byte: "n < 128 \<Longrightarrow> unat ((of_nat n :: u8) AND 0x7f) = n \<and> (of_nat n :: u8) AND 0x80 = 0"
proof -
  have "list_all (\<lambda>n. unat ((of_nat n :: u8) AND 0x7f) = n \<and> (of_nat n :: u8) AND 0x80 = 0) [0..<128]" by code_simp
  then show "n < 128 \<Longrightarrow> ?thesis" by (simp add: list_all_iff)
qed

lemma prefix_loop_cons:
  assumes "v < 128" "unat (b AND 0x7f) = v" "shift \<le> 56" "val + v * 2 ^ shift < 2 ^ 64"
  shows "prefix_loop dbg (b # bs) val shift i =
    (if b AND 0x80 = 0 then Ret (Some (val + v * 2 ^ shift, i + 2))
     else if 49 < shift then Ret None else prefix_loop dbg bs (val + v * 2 ^ shift) (shift + 7) (i + 1))"
proof -
  have "cast_uint 64 (push_bit shift v) = v * 2 ^ shift"
    unfolding push_bit_eq_mult by (rule cast_uint_fits) (use assms(4) in linarith)
  then show ?thesis using assms(1-3) by (simp add: Let_def uint_add_fits [OF assms(4)])
qed

lemma prefix_loop_tail:
  "\<lbrakk>remaining < 2 ^ (63 - shift); shift \<le> 56; 7 dvd shift; val + remaining * 2 ^ shift < 2 ^ 64\<rbrakk> \<Longrightarrow>
   prefix_loop dbg (prefix_tail remaining @ rest) val shift i =
     Ret (Some (val + remaining * 2 ^ shift, i + 1 + length (prefix_tail remaining)))"
proof (induction remaining arbitrary: val shift i rule: prefix_tail.induct)
  case (1 r)
  show ?case
  proof (cases "128 \<le> r")
    case False
    then have t: "prefix_tail r = [of_nat r]" using prefix_tail.simps [of r] by simp
    show ?thesis unfolding t append.simps
      by (subst prefix_loop_cons [of r]) (use False last_byte [of r] 1 in auto)
  next
    case True
    have t: "prefix_tail r = (0x80 OR of_nat (r mod 128)) # prefix_tail (r div 128)"
      using True prefix_tail.simps [of r] by simp
    have "(2 :: nat) ^ 7 < 2 ^ (63 - shift)" using True "1.prems"(1) by simp
    then have "7 < 63 - shift" using power_less_imp_less_exp by (metis one_less_numeral_iff semiring_norm(76))
    then have sh: "shift \<le> 49" using "1.prems"(3) by auto
    have split: "r mod 128 * 2 ^ shift + r div 128 * 2 ^ (shift + 7) = r * 2 ^ shift"
    proof -
      have "r div 128 * 2 ^ (shift + 7) = r div 128 * 128 * (2 ^ shift)" by (simp add: power_add)
      then show ?thesis by (metis add_mult_distrib mod_mult_div_eq mult.commute add.commute div_mult_mod_eq)
    qed
    have "63 - shift = 63 - (shift + 7) + 7" using sh by simp
    then have "(2 :: nat) ^ (63 - shift) = 2 ^ (63 - (shift + 7)) * 2 ^ 7" by (simp only: power_add)
    then have lt: "r div 128 < 2 ^ (63 - (shift + 7))" using "1.prems"(1) by (simp add: less_mult_imp_div_less)
    have IH: "prefix_loop dbg (prefix_tail (r div 128) @ rest) (val + r mod 128 * 2 ^ shift) (shift + 7) (i + 1) =
        Ret (Some (val + r * 2 ^ shift, i + 1 + 1 + length (prefix_tail (r div 128))))"
      using "1.IH" [OF True lt, of "val + r mod 128 * 2 ^ shift" "i + 1"] sh "1.prems" split by simp
    show ?thesis unfolding t append.simps
      by (subst prefix_loop_cons [of "r mod 128"]) (use continuation_byte [of "r mod 128"] sh split "1.prems" IH in auto)
  qed
qed

lemma first_byte:
  assumes "p \<le> 7" "take_bit p (unat pattern) = 0" "v < 2 ^ p"
  shows "take_bit p (unat (pattern OR of_nat v :: u8)) = v"
proof -
  have "(2 :: nat) ^ p \<le> 2 ^ 7" using assms(1) by (rule power_increasing) simp
  then have "unat (of_nat v :: u8) = v" using assms(3) by (intro unat_of_nat_fits) simp
  then show ?thesis using assms by (simp add: unsigned_or_eq take_bit_nat_eq_self)
qed

lemma decode_encode_prefix_int:
  assumes p: "p \<le> 7" "take_bit p (unat pattern) = 0" and v: "v < 2 ^ 63"
  shows "decode_prefix_int dbg (encode_prefix_int v p pattern @ rest) p = Ret (Some (v, length (encode_prefix_int v p pattern)))"
proof (cases "v < 2 ^ p - 1")
  case True
  then show ?thesis using first_byte [OF p, of v] by (simp add: encode_prefix_int_def Let_def)
next
  case False
  have "(2 :: nat) ^ p - 1 < 2 ^ p" by simp
  then have "take_bit p (unat (pattern OR of_nat (2 ^ p - 1) :: u8)) = 2 ^ p - 1" by (rule first_byte [OF p])
  moreover have "prefix_loop dbg (prefix_tail (v - (2 ^ p - 1)) @ rest) (2 ^ p - 1) 0 0 =
      Ret (Some (v, 1 + length (prefix_tail (v - (2 ^ p - 1)))))"
    using prefix_loop_tail [of "v - (2 ^ p - 1)" 0 "2 ^ p - 1" dbg rest 0] v False less_imp_diff_less [OF v, of "2 ^ p - 1"]
    by simp
  ultimately show ?thesis using False by (simp add: encode_prefix_int_def Let_def)
qed

subsection \<open>The dynamic table\<close>

text \<open>The reference: keep the newest entries while they fit in the budget.\<close>

fun fit :: "nat \<Rightarrow> HeaderField list \<Rightarrow> HeaderField list" where
  "fit m [] = []"
| "fit m (h # hs) = (if hf_size h \<le> m then h # fit (m - hf_size h) hs else [])"

definition total_size :: "HeaderField list \<Rightarrow> nat" where
  "total_size hs = sum_list (map hf_size hs)"

lemma total_size_simps [simp]: "total_size [] = 0" "total_size (h # hs) = hf_size h + total_size hs"
  "total_size (hs @ hs') = total_size hs + total_size hs'"
  by (simp_all add: total_size_def)

lemma hf_size_pos [simp]: "0 < hf_size h"
  by (simp add: hf_size_def)

lemma fit_all: "total_size hs \<le> m \<Longrightarrow> fit m hs = hs"
  by (induction hs arbitrary: m) auto

lemma fit_drop_last: "m < total_size (hs @ [h]) \<Longrightarrow> fit m (hs @ [h]) = fit m hs"
  by (induction hs arbitrary: m) auto

lemma total_size_fit: "total_size (fit m hs) \<le> m"
  by (induction m hs rule: fit.induct) auto

lemma fit_prefix: "prefix (fit m hs) hs"
  by (induction m hs rule: fit.induct) auto

lemma dt_evict_eq:
  "total_size entries + extra < 2 ^ 64 \<Longrightarrow>
   dt_evict dbg extra max_size entries (total_size entries) =
     (let kept = (if extra \<le> max_size then fit (max_size - extra) entries else []) in Ret (kept, total_size kept))"
proof (induction entries rule: rev_induct)
  case Nil
  then show ?case using uint_add_fits [OF Nil] by (subst dt_evict.simps) (simp add: Let_def uint_add_def)
next
  case (snoc h hs)
  let ?e = "hs @ [h]"
  show ?case
  proof (cases "max_size < total_size ?e + extra")
    case True
    have "dt_evict dbg extra max_size ?e (total_size ?e) = dt_evict dbg extra max_size hs (total_size hs)"
      by (subst dt_evict.simps, subst uint_add_fits [OF snoc.prems]) (use True in simp)
    also have "\<dots> = (let kept = (if extra \<le> max_size then fit (max_size - extra) hs else []) in Ret (kept, total_size kept))"
      using snoc by simp
    finally show ?thesis using True fit_drop_last [of "max_size - extra" hs h] by auto
  next
    case False
    have "dt_evict dbg extra max_size ?e (total_size ?e) = Ret (?e, total_size ?e)"
      by (subst dt_evict.simps, subst uint_add_fits [OF snoc.prems]) (use False in simp)
    then show ?thesis using False fit_all [of ?e "max_size - extra"] by (simp add: Let_def)
  qed
qed

definition dt_ok :: "DynamicTable \<Rightarrow> bool" where
  "dt_ok t \<longleftrightarrow> dt_size t = total_size (dt_entries t) \<and> dt_size t \<le> dt_max_size t \<and> dt_max_size t < 2 ^ 62"

definition table_of :: "nat \<Rightarrow> HeaderField list \<Rightarrow> DynamicTable" where
  "table_of m hs = \<lparr>dt_entries = fit m hs, dt_size = total_size (fit m hs), dt_max_size = m\<rparr>"

lemma dt_new_ok: "m < 2 ^ 62 \<Longrightarrow> dt_ok (dt_new m)"
  by (simp add: dt_ok_def dt_new_def)

lemma table_of_ok: "m < 2 ^ 62 \<Longrightarrow> dt_ok (table_of m hs)"
  by (simp add: dt_ok_def table_of_def total_size_fit)

lemma dt_ok_sum:
  assumes "dt_ok t" "n < 2 ^ 63"
  shows "total_size (dt_entries t) + n < 2 ^ 64"
proof -
  have "total_size (dt_entries t) < 2 ^ 62" using assms(1) by (simp add: dt_ok_def)
  then show ?thesis using assms(2) by simp
qed

lemma dt_insert_eq:
  assumes ok: "dt_ok t" and h: "hf_size h < 2 ^ 63"
  shows "dt_insert dbg h t = Ret (table_of (dt_max_size t) (h # dt_entries t))"
proof -
  have sz: "dt_size t = total_size (dt_entries t)" using ok by (simp add: dt_ok_def)
  note ev = dt_evict_eq [OF dt_ok_sum [OF ok h], of dbg "dt_max_size t"]
  show ?thesis
  proof (cases "hf_size h \<le> dt_max_size t")
    case True
    let ?k = "fit (dt_max_size t - hf_size h) (dt_entries t)"
    have "total_size ?k + hf_size h \<le> dt_max_size t" using total_size_fit [of "dt_max_size t - hf_size h" "dt_entries t"] True by linarith
    also have "\<dots> < 2 ^ 64" using ok by (simp add: dt_ok_def)
    finally have "total_size ?k + hf_size h < 2 ^ 64" .
    then have "uint_add 64 dbg (total_size ?k) (hf_size h) k = k (total_size ?k + hf_size h)" for k :: "nat \<Rightarrow> DynamicTable outcome"
      by (rule uint_add_fits)
    then show ?thesis using True sz ev by (simp add: dt_insert_def Let_def table_of_def add.commute)
  next
    case False
    then show ?thesis using sz ev by (simp add: dt_insert_def Let_def table_of_def)
  qed
qed

lemma dt_set_max_size_eq:
  assumes "dt_ok t"
  shows "dt_set_max_size dbg m t = Ret (table_of m (dt_entries t))"
  using dt_evict_eq [OF dt_ok_sum [OF assms, of 0], of dbg m] assms
  by (simp add: dt_set_max_size_def table_of_def dt_ok_def Let_def)

text \<open>C24. The dynamic table implements the eviction rule of the protocol: inserting a field, or changing the
  maximum, leaves exactly the newest entries whose accounted sizes sum to at most the maximum (none when the new field
  alone is too large), with the size field equal to their sum; no subtraction underflows and nothing panics in any build.\<close>

theorem dynamic_table_keeps_newest_fitting:
  assumes "dt_ok t" "hf_size h < 2 ^ 63" "m < 2 ^ 62"
  shows "dt_insert dbg h t = Ret (table_of (dt_max_size t) (h # dt_entries t)) \<and>
    dt_set_max_size dbg m t = Ret (table_of m (dt_entries t)) \<and>
    dt_ok (table_of (dt_max_size t) (h # dt_entries t)) \<and> dt_ok (table_of m (dt_entries t))"
proof -
  have "dt_max_size t < 2 ^ 62" using assms(1) by (simp add: dt_ok_def)
  then show ?thesis using assms by (intro conjI dt_insert_eq dt_set_max_size_eq table_of_ok)
qed

theorem dynamic_table_keeps_newest_fitting_witness:
  "dt_insert True \<lparr>hf_name = ascii ''a'', hf_value = ascii ''bc''\<rparr>
     \<lparr>dt_entries = [\<lparr>hf_name = ascii ''x'', hf_value = []\<rparr>, \<lparr>hf_name = ascii ''y'', hf_value = []\<rparr>], dt_size = 66, dt_max_size = 80\<rparr> =
   Ret \<lparr>dt_entries = [\<lparr>hf_name = ascii ''a'', hf_value = ascii ''bc''\<rparr>, \<lparr>hf_name = ascii ''x'', hf_value = []\<rparr>],
     dt_size = 68, dt_max_size = 80\<rparr>"
  using dynamic_table_keeps_newest_fitting [of "\<lparr>dt_entries = [\<lparr>hf_name = ascii ''x'', hf_value = []\<rparr>,
      \<lparr>hf_name = ascii ''y'', hf_value = []\<rparr>], dt_size = 66, dt_max_size = 80\<rparr>"
    "\<lparr>hf_name = ascii ''a'', hf_value = ascii ''bc''\<rparr>" 40 True]
  by (simp add: dt_ok_def table_of_def hf_size_def ascii_def)

subsection \<open>String literals\<close>

lemma first_byte_flags:
  "k < 128 \<Longrightarrow> (0x80 OR of_nat k :: u8) AND 0x80 \<noteq> 0"
  "k < 64 \<Longrightarrow> (0x40 OR of_nat k :: u8) AND 0x80 = 0 \<and> (0x40 OR of_nat k :: u8) AND 0x40 \<noteq> 0"
  "k < 32 \<Longrightarrow> (0x20 OR of_nat k :: u8) AND 0x80 = 0 \<and> (0x20 OR of_nat k :: u8) AND 0x40 = 0 \<and>
     (0x20 OR of_nat k :: u8) AND 0x20 \<noteq> 0"
proof -
  have "list_all (\<lambda>k. (0x40 OR of_nat k :: u8) AND 0x80 = 0 \<and> (0x40 OR of_nat k :: u8) AND 0x40 \<noteq> 0) [0..<64]"
    "list_all (\<lambda>k. (0x20 OR of_nat k :: u8) AND 0x80 = 0 \<and> (0x20 OR of_nat k :: u8) AND 0x40 = 0 \<and>
     (0x20 OR of_nat k :: u8) AND 0x20 \<noteq> 0) [0..<32]" by code_simp+
  then show "k < 64 \<Longrightarrow> (0x40 OR of_nat k :: u8) AND 0x80 = 0 \<and> (0x40 OR of_nat k :: u8) AND 0x40 \<noteq> 0"
    "k < 32 \<Longrightarrow> (0x20 OR of_nat k :: u8) AND 0x80 = 0 \<and> (0x20 OR of_nat k :: u8) AND 0x40 = 0 \<and>
     (0x20 OR of_nat k :: u8) AND 0x20 \<noteq> 0" by (simp_all add: list_all_iff)
qed (use continuation_byte in blast)

lemma encode_prefix_int_shape:
  "\<exists>k r. encode_prefix_int v p pattern = (pattern OR of_nat k) # r \<and> k < 2 ^ p"
proof (cases "v < 2 ^ p - 1")
  case True
  then show ?thesis by (intro exI [of _ v] exI [of _ "[]"]) (auto simp: encode_prefix_int_def Let_def)
next
  case False
  then show ?thesis
    by (intro exI [of _ "2 ^ p - 1"] exI [of _ "prefix_tail (v - (2 ^ p - 1))"]) (simp add: encode_prefix_int_def Let_def)
qed

lemma prefix_tail_length: "length (prefix_tail r) \<le> Suc r"
proof (induction r rule: prefix_tail.induct)
  case (1 r)
  then show ?case by (subst prefix_tail.simps) auto
qed

lemma encode_prefix_int_length: "0 < length (encode_prefix_int v p pattern)" "length (encode_prefix_int v p pattern) \<le> v + 2"
proof -
  have "length (prefix_tail (v - (2 ^ p - 1))) \<le> Suc v"
    using prefix_tail_length [of "v - (2 ^ p - 1)"] diff_le_self [of v "2 ^ p - 1"] by linarith
  then show "length (encode_prefix_int v p pattern) \<le> v + 2" by (auto simp: encode_prefix_int_def Let_def)
qed (simp add: encode_prefix_int_def Let_def)

lemma decode_string_parts:
  assumes p: "encode_prefix_int n 7 pattern = b # r" "take_bit 7 (unat pattern) = 0" and n: "n = length data" "n < 2 ^ 62"
  shows "decode_string_literal dbg ((b # r) @ data @ rest) =
    (if b AND 0x80 \<noteq> 0 then try_bind (huff_decode data) (\<lambda>val. Ret (Inr (val, Suc (length r) + n)))
     else Ret (Inr (data, Suc (length r) + n)))"
proof -
  have len: "Suc (length r) + length data < 2 ^ 64"
    using encode_prefix_int_length(2) [of n 7 pattern] n unfolding p(1) by simp
  have "decode_prefix_int dbg ((b # r) @ data @ rest) 7 = Ret (Some (n, Suc (length r)))"
    using decode_encode_prefix_int [of 7 pattern n dbg "data @ rest"] p n(2) by simp
  then show ?thesis
    using n(1) by (simp add: decode_string_literal_def Let_def uint_add_fits [OF len])
qed

lemma decode_encode_string:
  assumes "length data < 2 ^ 62"
  shows "decode_string_literal dbg (encode_string_literal data @ rest) = Ret (Inr (data, length (encode_string_literal data)))"
proof (cases "encoded_len data < length data")
  case True
  obtain k r where p: "encode_prefix_int (encoded_len data) 7 0x80 = (0x80 OR of_nat k) # r" "k < 128"
    using encode_prefix_int_shape [of "encoded_len data" 7 "0x80"] by auto
  have "decode_string_literal dbg (((0x80 OR of_nat k) # r) @ huff_encode data @ rest) =
      Ret (Inr (data, Suc (length r) + encoded_len data))"
    by (subst decode_string_parts [OF p(1)])
      (use True assms first_byte_flags(1) [OF p(2)] in \<open>simp_all add: huff_encode_length huff_decode_encode\<close>)
  then show ?thesis using True p(1) by (simp add: encode_string_literal_def Let_def huff_encode_length)
next
  case False
  obtain k r where p: "encode_prefix_int (length data) 7 0 = (0 OR of_nat k) # r" "k < 128"
    using encode_prefix_int_shape [of "length data" 7 0] by auto
  have "decode_string_literal dbg (((0 OR of_nat k) # r) @ data @ rest) = Ret (Inr (data, Suc (length r) + length data))"
    by (subst decode_string_parts [OF p(1)]) (use assms last_byte [OF p(2)] in simp_all)
  then show ?thesis using False p(1) by (simp add: encode_string_literal_def Let_def)
qed

subsection \<open>One header\<close>

lemma static_length: "length STATIC_TABLE = 61"
  by (simp add: STATIC_TABLE_def)

lemma find_static_name_value_get:
  assumes "find_static_name_value (hf_name h) (hf_value h) = Some i"
  shows "get_indexed i t = Inr h" "0 < i" "i \<le> 61"
proof -
  obtain j where j: "vec_position (\<lambda>(n, v). n = hf_name h \<and> v = hf_value h) STATIC_TABLE = Some j" "i = Suc j"
    using assms by (auto simp: find_static_name_value_def)
  have "j < 61" "STATIC_TABLE ! j = (hf_name h, hf_value h)"
    using vec_position_bound [OF j(1)] by (auto simp: static_length split: prod.splits)
  then show "get_indexed i t = Inr h" "0 < i" "i \<le> 61" using j(2) by (simp_all add: get_indexed_def static_length)
qed

lemma find_static_name_get:
  assumes "find_static_name name = Some i"
  shows "get_name i t = Inr name" "0 < i" "i \<le> 61"
proof -
  obtain j where j: "vec_position (\<lambda>(n, _). n = name) STATIC_TABLE = Some j" "i = Suc j"
    using assms by (auto simp: find_static_name_def)
  have "j < 61" "fst (STATIC_TABLE ! j) = name"
    using vec_position_bound [OF j(1)] by (auto simp: static_length split: prod.splits)
  then show "get_name i t = Inr name" "0 < i" "i \<le> 61" using j(2) by (simp_all add: get_name_def static_length)
qed

lemma table_count:
  assumes "dt_ok t" "i < length (dt_entries t)"
  shows "i + 62 < 2 ^ 63"
proof -
  have "length hs \<le> total_size hs" for hs by (induction hs) (simp_all add: hf_size_def)
  then have "i < total_size (dt_entries t)" using assms(2) by (rule less_le_trans [rotated])
  also have "\<dots> < 2 ^ 62" using assms(1) unfolding dt_ok_def by linarith
  finally show ?thesis by simp
qed

lemma dt_find_name_value_get:
  assumes "dt_find_name_value (hf_name h) (hf_value h) t = Some i" "dt_ok t"
  shows "get_indexed i t = Inr h" "0 < i" "i < 2 ^ 63"
proof -
  obtain j where j: "vec_position (\<lambda>g. hf_name g = hf_name h \<and> hf_value g = hf_value h) (dt_entries t) = Some j" "i = j + 62"
    using assms(1) by (auto simp: dt_find_name_value_def)
  have "j < length (dt_entries t)" "dt_entries t ! j = h"
    using vec_position_bound [OF j(1)] by (simp_all add: HeaderField.equality)
  then show "get_indexed i t = Inr h" "0 < i" "i < 2 ^ 63"
    using j(2) table_count [OF assms(2)] by (simp_all add: get_indexed_def static_length dt_get_def)
qed

lemma dt_find_name_get:
  assumes "dt_find_name name t = Some i" "dt_ok t"
  shows "get_name i t = Inr name" "0 < i" "i < 2 ^ 63"
proof -
  obtain j where j: "vec_position (\<lambda>g. hf_name g = name) (dt_entries t) = Some j" "i = j + 62"
    using assms(1) by (auto simp: dt_find_name_def)
  have "j < length (dt_entries t)" "hf_name (dt_entries t ! j) = name" using vec_position_bound [OF j(1)] by simp_all
  then show "get_name i t = Inr name" "0 < i" "i < 2 ^ 63"
    using j(2) table_count [OF assms(2)] by (simp_all add: get_name_def static_length dt_get_def)
qed

lemma pattern_bits: "take_bit 7 (unat (0x80 :: u8)) = 0" "take_bit 6 (unat (0x40 :: u8)) = 0" "take_bit 5 (unat (0x20 :: u8)) = 0"
  by code_simp+

lemma decode_one_indexed:
  assumes "get_indexed i (bs_table st) = Inr h" "i < 2 ^ 63" "length (bs_headers st) < MAX_HEADER_FIELDS"
  shows "decode_one dbg (encode_prefix_int i 7 0x80 @ rest) st = Ret (Inr (length (encode_prefix_int i 7 0x80), push_header h st))"
proof -
  obtain k r where p: "encode_prefix_int i 7 0x80 = (0x80 OR of_nat k) # r" "k < 128"
    using encode_prefix_int_shape [of i 7 "0x80"] by auto
  have "decode_prefix_int dbg (encode_prefix_int i 7 0x80 @ rest) 7 = Ret (Some (i, length (encode_prefix_int i 7 0x80)))"
    by (rule decode_encode_prefix_int) (use pattern_bits assms(2) in simp_all)
  moreover have "hd (encode_prefix_int i 7 0x80 @ rest) AND 0x80 \<noteq> 0" using first_byte_flags(1) [OF p(2)] by (simp add: p(1))
  ultimately show ?thesis using assms(1,3) by (simp add: decode_one_def Let_def)
qed

lemma decode_literal_indexed:
  assumes "get_name i t = Inr (hf_name h)" "0 < i" "i < 2 ^ 63" "length (hf_value h) < 2 ^ 62"
  shows "decode_literal dbg 6 (encode_prefix_int i 6 0x40 @ encode_string_literal (hf_value h) @ rest) t =
    Ret (Inr (h, length (encode_prefix_int i 6 0x40) + length (encode_string_literal (hf_value h))))"
proof -
  have "decode_prefix_int dbg (encode_prefix_int i 6 0x40 @ encode_string_literal (hf_value h) @ rest) 6 =
      Ret (Some (i, length (encode_prefix_int i 6 0x40)))"
    by (rule decode_encode_prefix_int) (use pattern_bits assms(3) in simp_all)
  then show ?thesis
    using assms by (simp add: decode_literal_def slice_from_def decode_encode_string)
qed

lemma decode_literal_new_name:
  assumes "length (hf_name h) < 2 ^ 62" "length (hf_value h) < 2 ^ 62"
  shows "decode_literal dbg 6 (0x40 # encode_string_literal (hf_name h) @ encode_string_literal (hf_value h) @ rest) t =
    Ret (Inr (h, 1 + length (encode_string_literal (hf_name h)) + length (encode_string_literal (hf_value h))))"
proof -
  have "take_bit 6 (unat (0x40 :: u8)) = 0" by (rule pattern_bits)
  then show ?thesis
    using assms by (simp add: decode_literal_def Let_def slice_from_def decode_encode_string)
qed

lemma decode_one_incremental:
  assumes "decode_literal dbg 6 buf (bs_table st) = Ret (Inr (h, n))" "length (bs_headers st) < MAX_HEADER_FIELDS"
    and "hd buf AND 0x80 = 0" "hd buf AND 0x40 \<noteq> 0" "dt_insert dbg h (bs_table st) = Ret t"
  shows "decode_one dbg buf st = Ret (Inr (n, push_header h (set_table t st)))"
  using assms by (simp add: decode_one_def Let_def)

lemma decode_one_resize:
  assumes "\<not> bs_seen_header st" "m \<le> dec_max_table_size (bs_decoder st)" "dt_ok (bs_table st)" "m < 2 ^ 62"
  shows "decode_one dbg (encode_prefix_int m 5 0x20 @ rest) st =
    Ret (Inr (length (encode_prefix_int m 5 0x20), set_table (table_of m (dt_entries (bs_table st))) st))"
proof -
  obtain k r where p: "encode_prefix_int m 5 0x20 = (0x20 OR of_nat k) # r" "k < 32"
    using encode_prefix_int_shape [of m 5 "0x20"] by auto
  have "decode_prefix_int dbg (encode_prefix_int m 5 0x20 @ rest) 5 = Ret (Some (m, length (encode_prefix_int m 5 0x20)))"
    by (rule decode_encode_prefix_int) (use pattern_bits assms(4) in simp_all)
  moreover have "hd (encode_prefix_int m 5 0x20 @ rest) = 0x20 OR of_nat k" by (simp add: p(1))
  ultimately show ?thesis
    using assms first_byte_flags(3) [OF p(2)] by (simp add: decode_one_def Let_def dt_set_max_size_eq)
qed

lemma encode_header_sync:
  assumes ok: "dt_ok (bs_table st)" and h: "hf_size h < 2 ^ 62" and room: "length (bs_headers st) < MAX_HEADER_FIELDS"
  shows "\<exists>b t. encode_header dbg h (bs_table st) = Ret (b, t) \<and> b \<noteq> [] \<and> dt_ok t \<and>
    (\<forall>rest. decode_one dbg (b @ rest) st = Ret (Inr (length b, push_header h (set_table t st))))"
proof -
  let ?t = "bs_table st" and ?v = "encode_string_literal (hf_value h)"
  let ?t' = "table_of (dt_max_size ?t) (h # dt_entries ?t)"
  have len: "length (hf_name h) < 2 ^ 62" "length (hf_value h) < 2 ^ 62" using h by (simp_all add: hf_size_def)
  have ins: "dt_insert dbg h ?t = Ret ?t'" using h by (intro dt_insert_eq [OF ok]) simp
  have ok': "dt_ok ?t'" using ok by (intro table_of_ok) (simp add: dt_ok_def)
  have same: "set_table ?t st = st" by (simp add: set_table_def)
  have indexed: ?thesis if "get_indexed i ?t = Inr h" "i < 2 ^ 63" "encode_header dbg h ?t = Ret (encode_prefix_int i 7 0x80, ?t)" for i
    using that ok encode_prefix_int_length(1) [of i 7 "0x80"] decode_one_indexed [OF that(1,2) room] same by auto
  have literal: ?thesis if g: "get_name i ?t = Inr (hf_name h)" "0 < i" "i < 2 ^ 63"
    and e: "encode_header dbg h ?t = Ret (encode_prefix_int i 6 0x40 @ ?v, ?t')" for i
  proof -
    obtain k r where p: "encode_prefix_int i 6 0x40 = (0x40 OR of_nat k) # r" "k < 64"
      using encode_prefix_int_shape [of i 6 "0x40"] by auto
    have "decode_one dbg ((encode_prefix_int i 6 0x40 @ ?v) @ rest) st =
        Ret (Inr (length (encode_prefix_int i 6 0x40 @ ?v), push_header h (set_table ?t' st)))" for rest
      by (rule decode_one_incremental)
        (use room ins first_byte_flags(2) [OF p(2)] decode_literal_indexed [OF g len(2)] in \<open>simp_all add: p(1)\<close>)
    then show ?thesis using e ok' p(1) by auto
  qed
  show ?thesis
  proof (cases "find_static_name_value (hf_name h) (hf_value h)")
    case (Some i)
    note g = find_static_name_value_get [OF Some]
    show ?thesis by (rule indexed [of i]) (use g Some in \<open>simp_all add: encode_header_def\<close>)
  next
    case no_static: None
    show ?thesis
    proof (cases "dt_find_name_value (hf_name h) (hf_value h) ?t")
      case (Some i)
      note g = dt_find_name_value_get [OF Some ok]
      show ?thesis by (rule indexed [of i]) (use g Some no_static in \<open>simp_all add: encode_header_def\<close>)
    next
      case no_entry: None
      show ?thesis
      proof (cases "find_static_name (hf_name h)")
        case (Some i)
        note g = find_static_name_get [OF Some]
        show ?thesis by (rule literal [of i]) (use g Some no_static no_entry ins in \<open>simp_all add: encode_header_def\<close>)
      next
        case no_name: None
        show ?thesis
        proof (cases "dt_find_name (hf_name h) ?t")
          case (Some i)
          note g = dt_find_name_get [OF Some ok]
          show ?thesis by (rule literal [of i]) (use g Some no_static no_entry no_name ins in \<open>simp_all add: encode_header_def\<close>)
        next
          case None
          let ?b = "0x40 # encode_string_literal (hf_name h) @ ?v"
          have "(0x40 :: u8) AND 0x80 = 0" "(0x40 :: u8) AND 0x40 \<noteq> 0" by code_simp+
          then have "decode_one dbg (?b @ rest) st = Ret (Inr (length ?b, push_header h (set_table ?t' st)))" for rest
            by (intro decode_one_incremental) (use room ins decode_literal_new_name [OF len] in simp_all)
          then show ?thesis using None no_static no_entry no_name ins ok' by (simp add: encode_header_def)
        qed
      qed
    qed
  qed
qed

subsection \<open>Header blocks and sessions\<close>

lemma decode_loop_step:
  "decode_one dbg (b @ rest) st = Ret (Inr (length b, st')) \<Longrightarrow> b \<noteq> [] \<Longrightarrow> decode_loop dbg (b @ rest) st = decode_loop dbg rest st'"
  by (subst decode_loop.simps) simp

lemma push_set_table [simp]:
  "bs_table (push_header h st) = bs_table st" "bs_headers (push_header h st) = bs_headers st @ [h]"
  "bs_decoder (push_header h st) = bs_decoder st"
  "bs_decoder (set_table t st) = (bs_decoder st)\<lparr>dec_table := t\<rparr>" "bs_headers (set_table t st) = bs_headers st"
  "bs_seen_header (set_table t st) = bs_seen_header st"
  by (simp_all add: push_header_def set_table_def)

lemma encode_headers_sync:
  assumes "dt_ok (bs_table st)" "list_all (\<lambda>h. hf_size h < 2 ^ 62) hs" "length (bs_headers st) + length hs \<le> MAX_HEADER_FIELDS"
  shows "\<exists>b t st'. encode_headers dbg hs (bs_table st) = Ret (b, t) \<and> dt_ok t \<and>
    (\<forall>rest. decode_loop dbg (b @ rest) st = decode_loop dbg rest st') \<and>
    bs_headers st' = bs_headers st @ hs \<and> bs_decoder st' = (bs_decoder st)\<lparr>dec_table := t\<rparr>"
  using assms
proof (induction hs arbitrary: st)
  case (Cons h hs)
  obtain b t where b: "encode_header dbg h (bs_table st) = Ret (b, t)" "b \<noteq> []" "dt_ok t"
      "\<forall>rest. decode_one dbg (b @ rest) st = Ret (Inr (length b, push_header h (set_table t st)))"
    using encode_header_sync [of st h dbg] Cons.prems by auto
  let ?st = "push_header h (set_table t st)"
  obtain bs t' st' where bs: "encode_headers dbg hs (bs_table ?st) = Ret (bs, t')" "dt_ok t'"
      "\<forall>rest. decode_loop dbg (bs @ rest) ?st = decode_loop dbg rest st'"
      "bs_headers st' = bs_headers ?st @ hs" "bs_decoder st' = (bs_decoder ?st)\<lparr>dec_table := t'\<rparr>"
    using Cons.IH [of ?st] Cons.prems b(3) by auto
  have "decode_loop dbg ((b @ bs) @ rest) st = decode_loop dbg rest st'" for rest
    using decode_loop_step [OF b(4) [rule_format, of "bs @ rest"] b(2)] bs(3) by simp
  then show ?case using b(1) bs by (intro exI [of _ "b @ bs"] exI [of _ t'] exI [of _ st']) simp
qed auto

definition resized :: "nat \<Rightarrow> block_state \<Rightarrow> block_state" where
  "resized m st = set_table (table_of m (dt_entries (bs_table st))) st"

definition dec_ok :: "Decoder \<Rightarrow> bool" where
  "dec_ok d \<longleftrightarrow> dt_ok (dec_table d) \<and> dec_max_table_size d < 2 ^ 62"

lemma resized_simps [simp]:
  "dec_ok (bs_decoder st) \<Longrightarrow> m \<le> dec_max_table_size (bs_decoder st) \<Longrightarrow> dec_ok (bs_decoder (resized m st))"
  "bs_headers (resized m st) = bs_headers st" "bs_seen_header (resized m st) = bs_seen_header st"
  "dec_max_table_size (bs_decoder (resized m st)) = dec_max_table_size (bs_decoder st)"
  by (auto simp: resized_def dec_ok_def intro: table_of_ok)

lemma resize_sync:
  assumes "enc_table e = bs_table st" "dec_ok (bs_decoder st)" "m \<le> dec_max_table_size (bs_decoder st)" "\<not> bs_seen_header st"
  shows "enc_set_max_table_size dbg m e = Ret (encode_prefix_int m 5 0x20, e\<lparr>enc_table := bs_table (resized m st)\<rparr>)"
    "decode_loop dbg (encode_prefix_int m 5 0x20 @ rest) st = decode_loop dbg rest (resized m st)"
proof -
  have ok: "dt_ok (bs_table st)" "m < 2 ^ 62" using assms(2,3) by (auto simp: dec_ok_def)
  show "enc_set_max_table_size dbg m e = Ret (encode_prefix_int m 5 0x20, e\<lparr>enc_table := bs_table (resized m st)\<rparr>)"
    using dt_set_max_size_eq [OF ok(1)] assms(1) by (simp add: enc_set_max_table_size_def resized_def)
  have "encode_prefix_int m 5 0x20 \<noteq> []" using encode_prefix_int_length(1) [of m 5 "0x20"] by auto
  then show "decode_loop dbg (encode_prefix_int m 5 0x20 @ rest) st = decode_loop dbg rest (resized m st)"
    using decode_one_resize [OF assms(4,3) ok] by (intro decode_loop_step) (simp_all add: resized_def)
qed

text \<open>A connection's use of HPACK: table sizes announced by the peer's SETTINGS (\<open>Resize\<close>), and header blocks, each
  possibly preceded by explicit size updates in the same buffer (\<open>Block\<close>).\<close>

datatype hpack_op = Resize nat | Block "nat list" "HeaderField list"

fun announce :: "profile \<Rightarrow> nat list \<Rightarrow> Encoder \<Rightarrow> (bytes \<times> Encoder) outcome" where
  "announce dbg [] e = Ret ([], e)"
| "announce dbg (m # ms) e =
     outcome_bind (enc_set_max_table_size dbg m e) (\<lambda>(b, e').
       outcome_bind (announce dbg ms e') (\<lambda>(bs, e''). Ret (b @ bs, e'')))"

fun hpack_run :: "profile \<Rightarrow> hpack_op list \<Rightarrow> Encoder \<Rightarrow> Decoder \<Rightarrow> HeaderField list h2_result list outcome" where
  "hpack_run dbg [] e d = Ret []"
| "hpack_run dbg (Resize m # ops) e d = hpack_run dbg ops (enc_update_max_table_size m e) d"
| "hpack_run dbg (Block ms hs # ops) e d =
     outcome_bind (announce dbg ms e) (\<lambda>(b1, e1).
       outcome_bind (enc_encode dbg hs e1) (\<lambda>(b2, e2).
         outcome_bind (dec_decode dbg (b1 @ b2) d) (\<lambda>(r, d').
           outcome_bind (hpack_run dbg ops e2 d') (\<lambda>rs. Ret (r # rs)))))"

fun hpack_op_ok :: "nat \<Rightarrow> hpack_op \<Rightarrow> bool" where
  "hpack_op_ok m (Resize n) = (n \<le> m)"
| "hpack_op_ok m (Block ns hs) =
     (list_all (\<lambda>n. n \<le> m) ns \<and> length hs \<le> MAX_HEADER_FIELDS \<and> list_all (\<lambda>h. hf_size h < 2 ^ 62) hs)"

fun blocks :: "hpack_op list \<Rightarrow> HeaderField list list" where
  "blocks [] = []"
| "blocks (Resize m # ops) = blocks ops"
| "blocks (Block ms hs # ops) = hs # blocks ops"

definition pending_le :: "nat \<Rightarrow> Encoder \<Rightarrow> bool" where
  "pending_le m e \<longleftrightarrow> (\<forall>n. enc_pending_min e = Some n \<longrightarrow> n \<le> m) \<and> (\<forall>n. enc_pending_latest e = Some n \<longrightarrow> n \<le> m)"

definition block_sync :: "Encoder \<Rightarrow> block_state \<Rightarrow> bool" where
  "block_sync e st \<longleftrightarrow> enc_table e = bs_table st \<and> dec_ok (bs_decoder st) \<and> pending_le (dec_max_table_size (bs_decoder st)) e \<and>
     \<not> bs_seen_header st"

lemma block_sync_resized:
  "block_sync e st \<Longrightarrow> m \<le> dec_max_table_size (bs_decoder st) \<Longrightarrow>
   block_sync (e\<lparr>enc_table := bs_table (resized m st)\<rparr>) (resized m st)"
  by (simp add: block_sync_def pending_le_def)

lemma announce_sync:
  assumes "block_sync e st" "list_all (\<lambda>n. n \<le> dec_max_table_size (bs_decoder st)) ms"
  shows "\<exists>b e' st'. announce dbg ms e = Ret (b, e') \<and> block_sync e' st' \<and> bs_headers st' = bs_headers st \<and>
    dec_max_table_size (bs_decoder st') = dec_max_table_size (bs_decoder st) \<and>
    (\<forall>rest. decode_loop dbg (b @ rest) st = decode_loop dbg rest st')"
  using assms
proof (induction ms arbitrary: e st)
  case (Cons m ms)
  have m: "m \<le> dec_max_table_size (bs_decoder st)" using Cons.prems(2) by simp
  have R: "enc_set_max_table_size dbg m e = Ret (encode_prefix_int m 5 0x20, e\<lparr>enc_table := bs_table (resized m st)\<rparr>)"
    "decode_loop dbg (encode_prefix_int m 5 0x20 @ rest) st = decode_loop dbg rest (resized m st)" for rest
    using resize_sync [of e st m] Cons.prems(1) m by (auto simp: block_sync_def)
  obtain bs e' st' where I: "announce dbg ms (e\<lparr>enc_table := bs_table (resized m st)\<rparr>) = Ret (bs, e')" "block_sync e' st'"
      "bs_headers st' = bs_headers st" "dec_max_table_size (bs_decoder st') = dec_max_table_size (bs_decoder st)"
      "\<forall>rest. decode_loop dbg (bs @ rest) (resized m st) = decode_loop dbg rest st'"
    using Cons.IH [OF block_sync_resized [OF Cons.prems(1) m]] Cons.prems(2) by auto
  then show ?case using R by (intro exI [of _ "encode_prefix_int m 5 0x20 @ bs"] exI [of _ e'] exI [of _ st']) simp
qed auto

lemma emit_pending_announce:
  "emit_pending dbg e =
     (case enc_pending_latest e of
        None \<Rightarrow> Ret ([], e)
      | Some latest \<Rightarrow>
          let m = (case enc_pending_min e of Some m \<Rightarrow> m | None \<Rightarrow> latest) in
          announce dbg ((if m \<noteq> latest then [m] else []) @ [latest]) (e\<lparr>enc_pending_latest := None, enc_pending_min := None\<rparr>))"
proof (cases "enc_pending_latest e")
  case (Some latest)
  define m where "m = (case enc_pending_min e of Some m \<Rightarrow> m | None \<Rightarrow> latest)"
  have nil: "outcome_bind x Ret = x" for x :: "(bytes \<times> Encoder) outcome" by (cases x) auto
  have one: "announce dbg [n] e' = enc_set_max_table_size dbg n e'" for n e'
    by (cases "enc_set_max_table_size dbg n e'") auto
  show ?thesis unfolding emit_pending_def Some Let_def by (simp flip: m_def add: one nil)
qed (simp add: emit_pending_def)

lemma block_sync_cleared: "block_sync e st \<Longrightarrow> block_sync (e\<lparr>enc_pending_latest := None, enc_pending_min := None\<rparr>) st"
  by (simp add: block_sync_def pending_le_def)

lemma emit_pending_sync:
  assumes "block_sync e st"
  shows "\<exists>b e' st'. emit_pending dbg e = Ret (b, e') \<and> block_sync e' st' \<and> bs_headers st' = bs_headers st \<and>
    dec_max_table_size (bs_decoder st') = dec_max_table_size (bs_decoder st) \<and>
    (\<forall>rest. decode_loop dbg (b @ rest) st = decode_loop dbg rest st')"
proof (cases "enc_pending_latest e")
  case None
  then show ?thesis using assms by (auto simp: emit_pending_def)
next
  case (Some latest)
  define m where "m = (case enc_pending_min e of Some m \<Rightarrow> m | None \<Rightarrow> latest)"
  have "latest \<le> dec_max_table_size (bs_decoder st)" "m \<le> dec_max_table_size (bs_decoder st)"
    using assms Some by (auto simp: block_sync_def pending_le_def m_def split: option.splits)
  then have "list_all (\<lambda>n. n \<le> dec_max_table_size (bs_decoder st)) ((if m \<noteq> latest then [m] else []) @ [latest])" by simp
  from announce_sync [OF block_sync_cleared [OF assms] this]
  show ?thesis unfolding emit_pending_announce Some Let_def option.case m_def [symmetric] .
qed

definition in_sync :: "nat \<Rightarrow> Encoder \<Rightarrow> Decoder \<Rightarrow> bool" where
  "in_sync m e d \<longleftrightarrow> enc_table e = dec_table d \<and> dec_ok d \<and> dec_max_table_size d = m \<and> pending_le m e"

lemma block_decodes:
  assumes "in_sync m e d" "hpack_op_ok m (Block ms hs)"
  shows "\<exists>b1 e1 b2 e2 d'. announce dbg ms e = Ret (b1, e1) \<and> enc_encode dbg hs e1 = Ret (b2, e2) \<and>
    dec_decode dbg (b1 @ b2) d = Ret (Inr hs, d') \<and> in_sync m e2 d'"
proof -
  let ?st = "\<lparr>bs_headers = [], bs_seen_header = False, bs_decoder = d\<rparr>"
  have st: "block_sync e ?st" using assms(1) by (simp add: in_sync_def block_sync_def)
  have m: "dec_max_table_size (bs_decoder ?st) = m" using assms(1) by (simp add: in_sync_def)
  obtain b1 e1 st1 where 1: "announce dbg ms e = Ret (b1, e1)" "block_sync e1 st1" "bs_headers st1 = []"
      "dec_max_table_size (bs_decoder st1) = m" "\<forall>rest. decode_loop dbg (b1 @ rest) ?st = decode_loop dbg rest st1"
    using announce_sync [OF st, of ms dbg] assms(2) unfolding m by auto
  obtain b2 e2 st2 where 2: "emit_pending dbg e1 = Ret (b2, e2)" "block_sync e2 st2" "bs_headers st2 = []"
      "dec_max_table_size (bs_decoder st2) = m" "\<forall>rest. decode_loop dbg (b2 @ rest) st1 = decode_loop dbg rest st2"
    using emit_pending_sync [OF 1(2), of dbg] 1(3,4) by auto
  have ok: "dt_ok (bs_table st2)" "enc_table e2 = bs_table st2" "dec_ok (bs_decoder st2)" "pending_le m e2"
    using 2(2,4) by (auto simp: block_sync_def dec_ok_def)
  obtain b3 t st3 where 3: "encode_headers dbg hs (enc_table e2) = Ret (b3, t)" "dt_ok t" "bs_headers st3 = hs"
      "bs_decoder st3 = (bs_decoder st2)\<lparr>dec_table := t\<rparr>" "\<forall>rest. decode_loop dbg (b3 @ rest) st2 = decode_loop dbg rest st3"
    using encode_headers_sync [OF ok(1), of hs dbg] assms(2) 2(3) ok(2) by auto
  have "dec_decode dbg (b1 @ b2 @ b3) d = decode_loop dbg [] st3"
    using 1(5) 2(5) 3(5) [rule_format, of "[]"] by (simp add: dec_decode_def)
  also have "\<dots> = Ret (Inr hs, bs_decoder st3)" using 3(3) by (subst decode_loop.simps) simp
  finally have "dec_decode dbg (b1 @ b2 @ b3) d = Ret (Inr hs, bs_decoder st3)" .
  moreover have "in_sync m (e2\<lparr>enc_table := t\<rparr>) (bs_decoder st3)"
    using ok(3,4) 2(4) 3(2,4) by (simp add: in_sync_def dec_ok_def pending_le_def)
  ultimately show ?thesis using 1(1) 2(1) 3(1) by (auto simp: enc_encode_def)
qed

lemma resize_in_sync: "in_sync m e d \<Longrightarrow> n \<le> m \<Longrightarrow> in_sync m (enc_update_max_table_size n e) d"
  by (auto simp: in_sync_def pending_le_def enc_update_max_table_size_def split: option.splits)

lemma hpack_run_sync:
  "in_sync m e d \<Longrightarrow> list_all (hpack_op_ok m) ops \<Longrightarrow> hpack_run dbg ops e d = Ret (map Inr (blocks ops))"
proof (induction dbg ops e d rule: hpack_run.induct)
  case (2 dbg n ops e d)
  then show ?case using resize_in_sync by simp
next
  case (3 dbg ms hs ops e d)
  obtain b1 e1 b2 e2 d' where b: "announce dbg ms e = Ret (b1, e1)" "enc_encode dbg hs e1 = Ret (b2, e2)"
      "dec_decode dbg (b1 @ b2) d = Ret (Inr hs, d')" "in_sync m e2 d'"
    using block_decodes [OF "3.prems"(1), of ms hs dbg] "3.prems"(2) by auto
  then show ?case using "3.IH" [OF b(4)] "3.prems"(2) by simp
qed simp

lemma new_in_sync: "m < 2 ^ 62 \<Longrightarrow> in_sync m (enc_new m) (dec_new m)"
  by (simp add: in_sync_def enc_new_def dec_new_def dec_ok_def pending_le_def dt_new_ok)

text \<open>C25. Header compression is lossless over a whole connection: whatever the sequence of header blocks and table
  size changes, an encoder and a decoder that start with the same limit stay synchronised, and every block decodes
  to exactly the headers that were encoded, in order, without a panic. Sizes announced must not exceed the limit the
  decoder allows, and a block has at most \<open>MAX_HEADER_FIELDS\<close> headers.\<close>

theorem hpack_session_lossless:
  assumes "m < 2 ^ 62" "list_all (hpack_op_ok m) ops"
  shows "hpack_run dbg ops (enc_new m) (dec_new m) = Ret (map Inr (blocks ops))"
  using hpack_run_sync [OF new_in_sync [OF assms(1)] assms(2)] .

theorem hpack_session_lossless_witness:
  "hpack_run True [Block [] [\<lparr>hf_name = ascii '':method'', hf_value = ascii ''GET''\<rparr>, \<lparr>hf_name = ascii ''x-id'', hf_value = ascii ''1''\<rparr>],
      Resize 20, Resize 100, Block [30] [\<lparr>hf_name = ascii ''x-id'', hf_value = ascii ''1''\<rparr>]] (enc_new 4096) (dec_new 4096) =
   Ret [Inr [\<lparr>hf_name = ascii '':method'', hf_value = ascii ''GET''\<rparr>, \<lparr>hf_name = ascii ''x-id'', hf_value = ascii ''1''\<rparr>],
     Inr [\<lparr>hf_name = ascii ''x-id'', hf_value = ascii ''1''\<rparr>]]"
  using hpack_session_lossless [of 4096 "[Block [] [\<lparr>hf_name = ascii '':method'', hf_value = ascii ''GET''\<rparr>,
      \<lparr>hf_name = ascii ''x-id'', hf_value = ascii ''1''\<rparr>], Resize 20, Resize 100, Block [30] [\<lparr>hf_name = ascii ''x-id'', hf_value = ascii ''1''\<rparr>]]" True]
  by (simp add: MAX_HEADER_FIELDS_def hf_size_def ascii_def)

subsection \<open>Arbitrary input\<close>

lemma prefix_loop_total:
  "val < 128 + 2 ^ shift \<Longrightarrow> shift \<le> 56 \<Longrightarrow>
   \<exists>r. prefix_loop dbg bs val shift i = Ret r \<and> (\<forall>v n. r = Some (v, n) \<longrightarrow> v < 2 ^ 63 + 128)"
proof (induction dbg bs val shift i rule: prefix_loop.induct)
  case (2 dbg b bs val shift i)
  have "unat (b AND 0x7f) \<le> 127" using word_and_le1 [of b "0x7f"] by (simp add: word_le_nat_alt)
  define v where "v = unat (b AND 0x7f)"
  have v: "v \<le> 127" using \<open>unat (b AND 0x7f) \<le> 127\<close> by (simp add: v_def)
  have "v * 2 ^ shift \<le> 127 * 2 ^ shift" using v by (intro mult_right_mono) simp_all
  moreover have "(2 :: nat) ^ (shift + 7) = 128 * 2 ^ shift" by (simp add: power_add)
  ultimately have nxt: "val + v * 2 ^ shift < 128 + 2 ^ (shift + 7)" using "2.prems"(1) by linarith
  have "(2 :: nat) ^ (shift + 7) \<le> 2 ^ 63" using "2.prems"(2) by (intro power_increasing) simp_all
  then have bound: "val + v * 2 ^ shift < 2 ^ 63 + 128" using nxt by linarith
  then have "val + v * 2 ^ shift < 2 ^ 64" by simp
  then have eq: "prefix_loop dbg (b # bs) val shift i =
    (if b AND 0x80 = 0 then Ret (Some (val + v * 2 ^ shift, i + 2))
     else if 49 < shift then Ret None else prefix_loop dbg bs (val + v * 2 ^ shift) (shift + 7) (i + 1))"
    using v "2.prems"(2) by (intro prefix_loop_cons) (simp_all add: v_def)
  show ?case
  proof (cases "b AND 0x80 = 0 \<or> 49 < shift")
    case True
    then show ?thesis unfolding eq using bound by auto
  next
    case False
    then show ?thesis unfolding eq using "2.IH" [of "shift + 7" "val + v * 2 ^ shift"] nxt by simp
  qed
qed simp

lemma decode_prefix_int_total:
  assumes "p \<le> 7"
  shows "\<exists>r. decode_prefix_int dbg buf p = Ret r \<and> (\<forall>v n. r = Some (v, n) \<longrightarrow> v < 2 ^ 63 + 128)"
proof (cases buf)
  case (Cons b bs)
  have "(2 :: nat) ^ p \<le> 2 ^ 7" using assms by (rule power_increasing) simp
  then have m: "(2 :: nat) ^ p - 1 < 128" by simp
  show ?thesis
  proof (cases "take_bit p (unat b) < 2 ^ p - 1")
    case True
    then have "take_bit p (unat b) < 2 ^ 63 + 128" using m by linarith
    then show ?thesis using True Cons by (simp add: Let_def)
  next
    case False
    then show ?thesis using prefix_loop_total [of "2 ^ p - 1" 0 dbg bs 0] m Cons by (simp add: Let_def)
  qed
qed simp

lemma try_bind_total:
  assumes "\<exists>r. m = Ret r \<and> (\<forall>x. r = Inr x \<longrightarrow> P x)" "\<And>x. m = Ret (Inr x) \<Longrightarrow> P x \<Longrightarrow> \<exists>r. k x = Ret r \<and> (\<forall>y. r = Inr y \<longrightarrow> Q y)"
  shows "\<exists>r. try_bind m k = Ret r \<and> (\<forall>y. r = Inr y \<longrightarrow> Q y)"
proof -
  obtain r where r: "m = Ret r" "\<forall>x. r = Inr x \<longrightarrow> P x" using assms(1) by blast
  show ?thesis
  proof (cases r)
    case (Inr x)
    then show ?thesis using r assms(2) [of x] by simp
  qed (use r in simp)
qed

lemma prefix_int_ok_or:
  "p \<le> 7 \<Longrightarrow> \<exists>r. ok_or e (decode_prefix_int dbg buf p) = Ret r \<and> (\<forall>x. r = Inr x \<longrightarrow> (case x of (v, n) \<Rightarrow> v < 2 ^ 63 + 128))"
  using decode_prefix_int_total [of p dbg buf] by (auto simp: ok_or_def split: option.splits)

lemma decode_string_literal_total:
  assumes "length buf < 2 ^ 56"
  shows "\<exists>r. decode_string_literal dbg buf = Ret r \<and> (\<forall>x. r = Inr x \<longrightarrow> (case x of (s, n) \<Rightarrow> length s \<le> 8 * length buf))"
proof (cases "buf = []")
  case False
  show ?thesis unfolding decode_string_literal_def Let_def if_not_P [OF False]
  proof (rule try_bind_total [OF prefix_int_ok_or], goal_cases)
    case (2 x)
    obtain v n where x: "x = (v, n)" by (cases x)
    have n: "n \<le> length buf" "v < 2 ^ 63 + 128" using 2 x by (auto simp: ok_or_Inr_iff dest: decode_prefix_int_consumes)
    then have fits: "n + v < 2 ^ 64" using assms by simp
    let ?data = "take v (drop n buf)"
    obtain r where r: "huff_decode ?data = Ret r" "\<forall>out. r = Inr out \<longrightarrow> length out \<le> 8 * length ?data"
      using huff_decode_total by blast
    have "8 * length ?data \<le> 8 * length buf" by simp
    then have "\<forall>out. r = Inr out \<longrightarrow> length out \<le> 8 * length buf" using r(2) order_trans by blast
    then show ?case unfolding x prod.case uint_add_fits [OF fits]
      using r(1) by (cases r) auto
  qed simp
qed (simp add: decode_string_literal_def)

lemma get_name_bound: "dt_ok t \<Longrightarrow> get_name i t = Inr name \<Longrightarrow> length name < 2 ^ 62"
proof -
  assume ok: "dt_ok t" and g: "get_name i t = Inr name"
  have st: "list_all (\<lambda>p. length (fst p) < 64) STATIC_TABLE" by (simp add: STATIC_TABLE_def ascii_def)
  show ?thesis
  proof (cases "i \<le> length STATIC_TABLE")
    case True
    then have "i - 1 < length STATIC_TABLE" "name = fst (STATIC_TABLE ! (i - 1))" using g by (auto simp: get_name_def static_length split: if_splits)
    then have "length name < 64" using st by (simp add: list_all_length)
    then show ?thesis by simp
  next
    case False
    then obtain j where j: "j < length (dt_entries t)" "name = hf_name (dt_entries t ! j)"
      using g by (auto simp: get_name_def dt_get_def split: if_splits)
    have "hf_size h \<le> total_size hs" if "h \<in> set hs" for h hs using that by (induction hs) auto
    then have "hf_size (dt_entries t ! j) \<le> total_size (dt_entries t)" using j(1) by simp
    then have "length name < total_size (dt_entries t)" using j(2) by (simp add: hf_size_def)
    also have "\<dots> < 2 ^ 62" using ok unfolding dt_ok_def by linarith
    finally show ?thesis .
  qed
qed

lemma slice_from_total:
  assumes "n \<le> length buf" "\<exists>r. k (drop n buf) = Ret r \<and> (\<forall>x. r = Inr x \<longrightarrow> P x)"
  shows "\<exists>r. slice_from n buf k = Ret r \<and> (\<forall>x. r = Inr x \<longrightarrow> P x)"
  using assms by (simp add: slice_from_def)

lemma decode_string_slice_total:
  assumes "n \<le> length buf" "length buf < 2 ^ 56"
  shows "\<exists>r. slice_from n buf (decode_string_literal dbg) = Ret r \<and> (\<forall>x. r = Inr x \<longrightarrow> (case x of (s, k) \<Rightarrow> length s < 2 ^ 60 \<and> n + k \<le> length buf))"
proof (rule slice_from_total [OF assms(1)])
  have "length (drop n buf) < 2 ^ 56" unfolding length_drop by (rule less_imp_diff_less [OF assms(2)])
  then obtain r where r: "decode_string_literal dbg (drop n buf) = Ret r" "\<forall>x. r = Inr x \<longrightarrow> (case x of (s, k) \<Rightarrow> length s \<le> 8 * length (drop n buf))"
    using decode_string_literal_total by blast
  have "length s < 2 ^ 60 \<and> n + k \<le> length buf" if "r = Inr (s, k)" for s k
    using r that assms decode_string_literal_consumes [of dbg "drop n buf" s k] by auto
  then show "\<exists>r. decode_string_literal dbg (drop n buf) = Ret r \<and> (\<forall>x. r = Inr x \<longrightarrow> (case x of (s, k) \<Rightarrow> length s < 2 ^ 60 \<and> n + k \<le> length buf))"
    using r(1) by auto
qed

lemma decode_literal_total:
  assumes ok: "dt_ok t" and p: "p \<le> 7" and len: "length buf < 2 ^ 56"
  shows "\<exists>r. decode_literal dbg p buf t = Ret r \<and> (\<forall>x. r = Inr x \<longrightarrow> (case x of (h, n) \<Rightarrow> hf_size h < 2 ^ 63))"
  unfolding decode_literal_def
proof (rule try_bind_total [OF prefix_int_ok_or [OF p]], goal_cases)
  case (1 x)
  obtain i n where x: "x = (i, n)" by (cases x)
  have n: "n \<le> length buf" using 1 x by (auto simp: ok_or_Inr_iff dest: decode_prefix_int_consumes)
  let ?P = "\<lambda>x. case x of (s, k) \<Rightarrow> length s < 2 ^ 62 \<and> n + k \<le> length buf"
  have name: "\<exists>r. (if 0 < i then Ret (h2_bind (get_name i t) (\<lambda>name. Inr (name, 0))) else slice_from n buf (decode_string_literal dbg)) = Ret r \<and>
      (\<forall>x. r = Inr x \<longrightarrow> ?P x)"
  proof (cases "0 < i")
    case True
    then show ?thesis using get_name_bound [OF ok, of i] n by (auto simp: h2_bind_Inr_iff)
  next
    case False
    obtain r where r: "slice_from n buf (decode_string_literal dbg) = Ret r"
        "\<forall>x. r = Inr x \<longrightarrow> (case x of (s, k) \<Rightarrow> length s < 2 ^ 60 \<and> n + k \<le> length buf)"
      using decode_string_slice_total [OF n len] by blast
    then have "\<forall>x. r = Inr x \<longrightarrow> ?P x" by auto
    then show ?thesis using False r(1) by simp
  qed
  show ?case unfolding x prod.case
  proof (rule try_bind_total [OF name], goal_cases)
    case (1 y)
    obtain s k where y: "y = (s, k)" "length s < 2 ^ 62" "n + k \<le> length buf" using 1 by (cases y) auto
    show ?case unfolding y(1) prod.case
    proof (rule try_bind_total [OF decode_string_slice_total [OF y(3) len]], goal_cases)
      case (1 z)
      then show ?case using y(2) by (cases z) (simp add: hf_size_def)
    qed
  qed
qed

definition block_ok :: "block_state \<Rightarrow> bool" where
  "block_ok st \<longleftrightarrow> dec_ok (bs_decoder st) \<and> length (bs_headers st) \<le> MAX_HEADER_FIELDS"

lemma insert_block_ok:
  assumes "block_ok st" "hf_size h < 2 ^ 63" "length (bs_headers st) < MAX_HEADER_FIELDS"
  shows "\<exists>t. dt_insert dbg h (bs_table st) = Ret t \<and> block_ok (push_header h (set_table t st))"
proof -
  have ok: "dt_ok (bs_table st)" "dt_max_size (bs_table st) < 2 ^ 62" using assms(1) by (auto simp: block_ok_def dec_ok_def dt_ok_def)
  show ?thesis using dt_insert_eq [OF ok(1) assms(2)] table_of_ok [OF ok(2)] assms(1,3) by (simp add: block_ok_def dec_ok_def)
qed

lemma decode_one_total:
  assumes ok: "block_ok st" and len: "length buf < 2 ^ 56"
  shows "\<exists>r. decode_one dbg buf st = Ret r \<and> (\<forall>x. r = Inr x \<longrightarrow> (case x of (n, st') \<Rightarrow> block_ok st'))"
proof -
  have t: "dt_ok (bs_table st)" "dec_max_table_size (bs_decoder st) < 2 ^ 62" using ok by (auto simp: block_ok_def dec_ok_def)
  note int = try_bind_total [OF prefix_int_ok_or]
  note lit = try_bind_total [OF decode_literal_total [OF t(1) _ len]]
  let ?room = "length (bs_headers st) < MAX_HEADER_FIELDS"
  have push: "?room \<Longrightarrow> block_ok (push_header h st)" for h using ok by (simp add: block_ok_def)
  have indexed: "\<exists>r. try_bind (ok_or CompressionError (decode_prefix_int dbg buf 7)) (\<lambda>(index, n).
          if MAX_HEADER_FIELDS \<le> length (bs_headers st) then Ret too_many_headers
          else try_bind (Ret (get_indexed index (bs_table st))) (\<lambda>field. Ret (Inr (n, push_header field st)))) = Ret r \<and>
        (\<forall>x. r = Inr x \<longrightarrow> (case x of (n, st') \<Rightarrow> block_ok st'))"
    by (rule int) (use push in \<open>auto simp: too_many_headers_def try_bind_def split: sum.splits\<close>)
  have incremental: "\<exists>r. try_bind (decode_literal dbg 6 buf (bs_table st)) (\<lambda>(field, n).
          if MAX_HEADER_FIELDS \<le> length (bs_headers st) then Ret too_many_headers
          else outcome_bind (dt_insert dbg field (bs_table st)) (\<lambda>t.
            Ret (Inr (n, push_header field (set_table t st))))) = Ret r \<and>
        (\<forall>x. r = Inr x \<longrightarrow> (case x of (n, st') \<Rightarrow> block_ok st'))"
  proof (rule lit, simp, goal_cases)
    case (1 x)
    then show ?case using insert_block_ok [OF ok, of "fst x" dbg] by (cases x) (auto simp: too_many_headers_def)
  qed
  have resize: "\<exists>r. try_bind (ok_or CompressionError (decode_prefix_int dbg buf 5)) (\<lambda>(new_size, n).
           if dec_max_table_size (bs_decoder st) < new_size then Ret (Inl CompressionError)
           else outcome_bind (dt_set_max_size dbg new_size (bs_table st)) (\<lambda>t. Ret (Inr (n, set_table t st)))) = Ret r \<and>
        (\<forall>x. r = Inr x \<longrightarrow> (case x of (n, st') \<Rightarrow> block_ok st'))"
    by (rule int) (use ok t in \<open>auto simp: dt_set_max_size_eq block_ok_def dec_ok_def intro!: table_of_ok\<close>)
  have literal: "\<exists>r. try_bind (decode_literal dbg 4 buf (bs_table st)) (\<lambda>(field, n).
          if MAX_HEADER_FIELDS \<le> length (bs_headers st) then Ret too_many_headers
          else Ret (Inr (n, push_header field st))) = Ret r \<and>
        (\<forall>x. r = Inr x \<longrightarrow> (case x of (n, st') \<Rightarrow> block_ok st'))"
    by (rule lit) (use push in \<open>auto simp: too_many_headers_def\<close>)
  show ?thesis unfolding decode_one_def Let_def using indexed incremental resize literal by simp
qed

lemma decode_loop_total:
  "block_ok st \<Longrightarrow> length buf < 2 ^ 56 \<Longrightarrow>
   \<exists>r d. decode_loop dbg buf st = Ret (r, d) \<and> dec_ok d \<and> (\<forall>hs. r = Inr hs \<longrightarrow> length hs \<le> MAX_HEADER_FIELDS)"
proof (induction dbg buf st rule: decode_loop.induct)
  case (1 dbg buf st)
  show ?case
  proof (cases "buf = []")
    case True
    then show ?thesis using "1.prems"(1) by (subst decode_loop.simps) (simp add: block_ok_def)
  next
    case False
    obtain r where r: "decode_one dbg buf st = Ret r" "\<forall>x. r = Inr x \<longrightarrow> (case x of (n, st') \<Rightarrow> block_ok st')"
      using decode_one_total [OF "1.prems"] by blast
    show ?thesis
    proof (cases r)
      case (Inl e)
      then show ?thesis using r(1) False "1.prems"(1) by (subst decode_loop.simps) (simp add: block_ok_def)
    next
      case (Inr x)
      obtain n st' where x: "x = (n, st')" by (cases x)
      have ok': "block_ok st'" using r(2) Inr x by simp
      have len': "length (drop n buf) < 2 ^ 56" unfolding length_drop by (rule less_imp_diff_less [OF "1.prems"(2)])
      have "decode_loop dbg buf st = decode_loop dbg (drop n buf) st'"
        using r(1) False Inr x by (subst decode_loop.simps) simp
      then show ?thesis using "1.IH" [OF False r(1) Inr x [symmetric] ok' len'] by simp
    qed
  qed
qed

text \<open>C26. Whatever bytes a peer sends as a header block, the decoder returns: no index out of range, no overflow, no
  unreachable branch, in either build profile. The dynamic table keeps its accounting and its limit, also when the
  block is refused halfway, and a block that is accepted yields at most \<open>MAX_HEADER_FIELDS\<close> headers.\<close>

theorem hpack_decoder_robust:
  assumes "dec_ok d" "length buf < 2 ^ 56"
  shows "\<exists>r d'. dec_decode dbg buf d = Ret (r, d') \<and> dec_ok d' \<and> (\<forall>hs. r = Inr hs \<longrightarrow> length hs \<le> MAX_HEADER_FIELDS)"
  unfolding dec_decode_def using assms by (intro decode_loop_total) (simp_all add: block_ok_def)

theorem hpack_decoder_robust_witness:
  "\<exists>r d'. dec_decode True [0x82, 0x3f, 0xff, 0xff, 0xff] (dec_new 4096) = Ret (r, d') \<and> dec_ok d' \<and>
     (\<forall>hs. r = Inr hs \<longrightarrow> length hs \<le> MAX_HEADER_FIELDS)"
  using hpack_decoder_robust [of "dec_new 4096" "[0x82, 0x3f, 0xff, 0xff, 0xff]" True]
  by (simp add: dec_ok_def dec_new_def dt_new_ok)

end
