(* ===== verification/H2_Connection.thy ===== *)
theory H2_Connection
  imports H2_Frame Hpack_Sync "HOL-Library.AList"
begin

section \<open>The HTTP/2 client connection\<close>

text \<open>
  \<open>ringline-h2/src/connection.rs\<close>: the sans-IO client. A connection is a record; \<open>recv\<close>, the frame
  handlers and the request operations are functions from a connection to a result and a connection. A handler that
  fails has already changed some of the state, so the connection is returned with the error too. Only HPACK can
  panic, so only what calls it returns an \<open>outcome\<close>.

  The stream table is an association list in the iteration order of the hash map, which Rust leaves
  unspecified: removing keeps the order and inserting appends. Windows are \<open>i64\<close> in the source and integers
  here.
\<close>

subsection \<open>Header validation\<close>

definition message_error :: "message \<Rightarrow> 'a h2_result" where
  "message_error msg = Inl (MessageError msg)"

definition is_ascii_uppercase :: "u8 \<Rightarrow> bool" where
  "is_ascii_uppercase b \<longleftrightarrow> 0x41 \<le> b \<and> b \<le> 0x5a"

definition forbidden_headers :: "bytes list" where
  "forbidden_headers =
     [ascii ''connection'', ascii ''proxy-connection'', ascii ''keep-alive'', ascii ''transfer-encoding'', ascii ''upgrade'']"

definition validate_regular_header :: "HeaderField \<Rightarrow> unit h2_result" where
  "validate_regular_header h =
     (if list_ex is_ascii_uppercase (hf_name h) then message_error [Lit ''uppercase header name: '', Lossy (hf_name h)]
      else if hf_name h \<in> set forbidden_headers then
        message_error [Lit ''connection-specific header forbidden in HTTP/2: '', Lossy (hf_name h)]
      else if hf_name h = ascii ''te'' \<and> hf_value h \<noteq> ascii ''trailers'' then
        message_error [Lit ''TE header may only contain `trailers` in HTTP/2'']
      else Inr ())"

definition is_pseudo :: "HeaderField \<Rightarrow> bool" where
  "is_pseudo h \<longleftrightarrow> hd (hf_name h) = 0x3a"

fun validate_response_loop :: "HeaderField list \<Rightarrow> bool \<Rightarrow> nat \<Rightarrow> unit h2_result" where
  "validate_response_loop [] seen_regular status_count =
     (if status_count = 0 then message_error [Lit ''missing :status pseudo-header''] else Inr ())"
| "validate_response_loop (h # hs) seen_regular status_count =
     (if hf_name h = [] then message_error [Lit ''empty header name'']
      else if is_pseudo h then
        (if seen_regular then message_error [Lit ''pseudo-header after regular header'']
         else if hf_name h \<noteq> ascii '':status'' then
           message_error [Lit ''unexpected pseudo-header in response: '', Lossy (hf_name h)]
         else if 1 < status_count + 1 then message_error [Lit ''duplicate :status'']
         else validate_response_loop hs seen_regular (status_count + 1))
      else h2_bind (validate_regular_header h) (\<lambda>_. validate_response_loop hs True status_count))"

definition validate_response :: "HeaderField list \<Rightarrow> unit h2_result" where
  "validate_response headers = validate_response_loop headers False 0"

fun validate_trailers :: "HeaderField list \<Rightarrow> unit h2_result" where
  "validate_trailers [] = Inr ()"
| "validate_trailers (h # hs) =
     (if hf_name h = [] then message_error [Lit ''empty header name'']
      else if is_pseudo h then message_error [Lit ''pseudo-header in trailers'']
      else h2_bind (validate_regular_header h) (\<lambda>_. validate_trailers hs))"

subsection \<open>The connection\<close>

definition CLIENT_PREFACE :: bytes where
  "CLIENT_PREFACE = ascii ''PRI * HTTP/2.0'' @ [13, 10, 13, 10] @ ascii ''SM'' @ [13, 10, 13, 10]"

definition WINDOW_UPDATE_THRESHOLD :: int where "WINDOW_UPDATE_THRESHOLD = 32768"
definition MAX_STREAM_ID :: u32 where "MAX_STREAM_ID = 0x7fffffff"
definition DEFAULT_MAX_RECV_BUF :: nat where "DEFAULT_MAX_RECV_BUF = 262144"

datatype H2Event =
    H2Response u32 "HeaderField list" bool
  | H2Data u32 bytes bool
  | H2Trailers u32 "HeaderField list"
  | H2StreamReset u32 ErrorCode
  | H2GoAway u32 ErrorCode bytes
  | H2PingAcknowledged bytes
  | H2SettingsAcknowledged
  | H2ErrorEvent H2Error

datatype ConnState = WaitingPreface | Ready | Closing | ConnClosed

record H2Connection =
  hc_state :: ConnState
  hc_local_settings :: Settings
  hc_remote_settings :: Settings
  hc_streams :: "(u32 \<times> H2Stream) list"
  hc_next_stream_id :: u32
  hc_conn_recv_window :: FlowControl
  hc_conn_send_window :: FlowControl
  hc_encoder :: Encoder
  hc_decoder :: Decoder
  hc_continuation_stream :: "u32 option"
  hc_recv_buf :: bytes
  hc_send_buf :: bytes
  hc_events :: "H2Event list"
  hc_initial_recv_window :: int
  hc_max_recv_buf :: nat
  hc_received_any_frame :: bool
  hc_peer_last_stream_id :: "u32 option"

definition send_frame :: "Frame \<Rightarrow> H2Connection \<Rightarrow> H2Connection" where
  "send_frame fr c = c\<lparr>hc_send_buf := hc_send_buf c @ frame_encode fr\<rparr>"

definition push_event :: "H2Event \<Rightarrow> H2Connection \<Rightarrow> H2Connection" where
  "push_event ev c = c\<lparr>hc_events := hc_events c @ [ev]\<rparr>"

definition stream_get :: "u32 \<Rightarrow> H2Connection \<Rightarrow> H2Stream option" where
  "stream_get sid c = map_of (hc_streams c) sid"

definition stream_put :: "u32 \<Rightarrow> H2Stream \<Rightarrow> H2Connection \<Rightarrow> H2Connection" where
  "stream_put sid s c = c\<lparr>hc_streams := AList.update sid s (hc_streams c)\<rparr>"

definition stream_remove :: "u32 \<Rightarrow> H2Connection \<Rightarrow> H2Connection" where
  "stream_remove sid c = c\<lparr>hc_streams := AList.delete sid (hc_streams c)\<rparr>"

definition is_closing :: "H2Connection \<Rightarrow> bool" where
  "is_closing c \<longleftrightarrow> hc_state c = Closing \<or> hc_state c = ConnClosed"

definition hc_new :: "Settings \<Rightarrow> H2Connection" where
  "hc_new settings =
     (let initial_recv = uint (initial_window_size settings) in
      \<lparr>hc_state = WaitingPreface, hc_local_settings = settings, hc_remote_settings = settings_default, hc_streams = [],
       hc_next_stream_id = 1, hc_conn_recv_window = fc_new initial_recv, hc_conn_send_window = fc_default,
       hc_encoder = enc_new (unat (header_table_size settings)), hc_decoder = dec_new 4096, hc_continuation_stream = None,
       hc_recv_buf = [],
       hc_send_buf = CLIENT_PREFACE @ frame_encode (FSettings False settings) @
         (if DEFAULT_WINDOW_SIZE < initial_recv then frame_encode (FWindowUpdate 0 (of_int (initial_recv - DEFAULT_WINDOW_SIZE))) else []),
       hc_events = [], hc_initial_recv_window = initial_recv, hc_max_recv_buf = DEFAULT_MAX_RECV_BUF,
       hc_received_any_frame = False, hc_peer_last_stream_id = None\<rparr>)"

definition hc_set_max_recv_buf :: "nat \<Rightarrow> H2Connection \<Rightarrow> H2Connection" where
  "hc_set_max_recv_buf n c = c\<lparr>hc_max_recv_buf := n\<rparr>"

definition u32_saturating_sub :: "u32 \<Rightarrow> u32 \<Rightarrow> u32" where
  "u32_saturating_sub a b = (if b \<le> a then a - b else 0)"

definition u32_saturating_add :: "u32 \<Rightarrow> u32 \<Rightarrow> u32" where
  "u32_saturating_add a b = (if unat a + unat b < 2 ^ 32 then a + b else - 1)"

definition fatal_error :: "H2Error \<Rightarrow> H2Connection \<Rightarrow> H2Connection" where
  "fatal_error err c =
     (if is_closing c then c
      else push_event (H2ErrorEvent err)
        ((send_frame (FGoAway (u32_saturating_sub (hc_next_stream_id c) 2) (h2_error_code err) []) c)\<lparr>hc_state := Closing\<rparr>))"

definition hc_poll_event :: "H2Connection \<Rightarrow> H2Event option \<times> H2Connection" where
  "hc_poll_event c =
     (case hc_events c of [] \<Rightarrow> (None, c) | ev # evs \<Rightarrow> (Some ev, c\<lparr>hc_events := evs\<rparr>))"

definition hc_take_pending_send :: "H2Connection \<Rightarrow> bytes \<times> H2Connection" where
  "hc_take_pending_send c = (hc_send_buf c, c\<lparr>hc_send_buf := []\<rparr>)"

subsection \<open>Requests\<close>

definition refused :: "'a h2_result" where
  "refused = Inl (ConnectionError RefusedStream)"

definition active_streams :: "H2Connection \<Rightarrow> nat" where
  "active_streams c = length (filter (\<lambda>(_, s). hs_state s \<noteq> Closed) (hc_streams c))"

definition hc_send_request :: "profile \<Rightarrow> HeaderField list \<Rightarrow> bool \<Rightarrow> H2Connection \<Rightarrow> (u32 h2_result \<times> H2Connection) outcome" where
  "hc_send_request dbg headers end_stream c =
     (if is_closing c then Ret (refused, c)
      else if (case max_concurrent_streams (hc_remote_settings c) of
                 Some limit \<Rightarrow> limit \<le> of_nat (active_streams c) | None \<Rightarrow> False) then Ret (refused, c)
      else if MAX_STREAM_ID < hc_next_stream_id c then Ret (refused, c)
      else
        let stream_id = hc_next_stream_id c;
            c1 = c\<lparr>hc_next_stream_id := u32_saturating_add stream_id 2\<rparr> in
        outcome_bind (enc_encode dbg headers (hc_encoder c1)) (\<lambda>(encoded, enc).
          let c2 = send_frame (FHeaders stream_id encoded end_stream True None) (c1\<lparr>hc_encoder := enc\<rparr>);
              s = hs_new (hc_initial_recv_window c2) (uint (initial_window_size (hc_remote_settings c2)));
              s' = (if end_stream then s\<lparr>hs_state := HalfClosedLocal\<rparr> else s) in
          Ret (Inr stream_id, stream_put stream_id s' c2)))"

text \<open>\<open>data.chunks(max_frame)\<close>, which panics on a chunk size of zero, and the DATA frames of one call.\<close>

function chunks :: "nat \<Rightarrow> bytes \<Rightarrow> bytes list" where
  "chunks n data = (if n = 0 \<or> data = [] then [] else take n data # chunks n (drop n data))"
  by pat_completeness auto
termination
  by (relation "measure (\<lambda>(n, data). length data)") auto

declare chunks.simps [simp del]

fun send_chunks :: "u32 \<Rightarrow> bool \<Rightarrow> bytes list \<Rightarrow> H2Connection \<Rightarrow> H2Connection" where
  "send_chunks stream_id end_stream [] c = c"
| "send_chunks stream_id end_stream (chunk # cs) c =
     send_chunks stream_id end_stream cs (send_frame (FData stream_id chunk (end_stream \<and> cs = [])) c)"

definition consume_or_keep :: "u32 \<Rightarrow> FlowControl \<Rightarrow> FlowControl" where
  "consume_or_keep n fc = (case fc_consume n fc of Inr fc' \<Rightarrow> fc' | Inl _ \<Rightarrow> fc)"

definition increase_or_keep :: "u32 \<Rightarrow> FlowControl \<Rightarrow> FlowControl" where
  "increase_or_keep n fc = (case fc_increase n fc of Inr fc' \<Rightarrow> fc' | Inl _ \<Rightarrow> fc)"

definition hc_send_data :: "u32 \<Rightarrow> bytes \<Rightarrow> bool \<Rightarrow> H2Connection \<Rightarrow> (unit h2_result \<times> H2Connection) outcome" where
  "hc_send_data stream_id data end_stream c =
     (case stream_get stream_id c of
        None \<Rightarrow> Ret (Inl (Internal [Lit ''unknown stream'']), c)
      | Some s \<Rightarrow>
          if hs_state s \<noteq> Open \<and> hs_state s \<noteq> HalfClosedRemote then Ret (Inl (StreamError stream_id StreamClosedCode), c)
          else
            let len = (of_nat (length data) :: u32) in
            if 0 < len \<and> fc_window (hs_send_window s) < uint len then Ret (Inl FlowControlError, c)
            else if 0 < len \<and> fc_window (hc_conn_send_window c) < uint len then Ret (Inl FlowControlError, c)
            else
              let s1 = (if 0 < len then s\<lparr>hs_send_window := consume_or_keep len (hs_send_window s)\<rparr> else s);
                  c1 = (if 0 < len then c\<lparr>hc_conn_send_window := consume_or_keep len (hc_conn_send_window c)\<rparr> else c);
                  max_frame = unat (max_frame_size (hc_remote_settings c1)) in
              ensure (data = [] \<or> 0 < max_frame)
                (let c2 = send_chunks stream_id end_stream (if data = [] then [[]] else chunks max_frame data) c1;
                     s2 = (if end_stream then s1\<lparr>hs_state := (if hs_state s1 = HalfClosedRemote then Closed else HalfClosedLocal)\<rparr>
                           else s1) in
                 Ret (Inr (), stream_put stream_id s2 c2)))"

definition hc_reset_stream :: "u32 \<Rightarrow> ErrorCode \<Rightarrow> H2Connection \<Rightarrow> H2Connection" where
  "hc_reset_stream stream_id error_code c =
     (let c1 = send_frame (FRstStream stream_id error_code) c in
      case stream_get stream_id c1 of
        Some s \<Rightarrow> stream_put stream_id (s\<lparr>hs_state := Closed\<rparr>) c1
      | None \<Rightarrow> c1)"

definition hc_send_ping :: "H2Connection \<Rightarrow> H2Connection" where
  "hc_send_ping c = send_frame (FPing False (replicate 8 0)) c"

definition hc_send_goaway :: "ErrorCode \<Rightarrow> H2Connection \<Rightarrow> H2Connection" where
  "hc_send_goaway error_code c = (send_frame (FGoAway 0 error_code []) c)\<lparr>hc_state := Closing\<rparr>"

subsection \<open>Frame handlers\<close>

fun adjust_streams :: "int \<Rightarrow> (u32 \<times> H2Stream) list \<Rightarrow> unit h2_result \<times> (u32 \<times> H2Stream) list" where
  "adjust_streams delta [] = (Inr (), [])"
| "adjust_streams delta ((sid, s) # ss) =
     (if hs_state s = Closed then (case adjust_streams delta ss of (r, ss') \<Rightarrow> (r, (sid, s) # ss'))
      else case fc_adjust delta (hs_send_window s) of
             Inl e \<Rightarrow> (Inl e, (sid, s) # ss)
           | Inr w \<Rightarrow> (case adjust_streams delta ss of (r, ss') \<Rightarrow> (r, (sid, s\<lparr>hs_send_window := w\<rparr>) # ss')))"

definition handle_settings :: "bool \<Rightarrow> Settings \<Rightarrow> H2Connection \<Rightarrow> unit h2_result \<times> H2Connection" where
  "handle_settings ack settings c =
     (if ack then (Inr (), push_event H2SettingsAcknowledged c)
      else
        let delta = uint (initial_window_size settings) - uint (initial_window_size (hc_remote_settings c));
            c1 = c\<lparr>hc_remote_settings := settings,
                   hc_encoder := enc_update_max_table_size (unat (header_table_size settings)) (hc_encoder c)\<rparr> in
        case (if delta \<noteq> 0 then adjust_streams delta (hc_streams c1) else (Inr (), hc_streams c1)) of
          (Inl e, ss) \<Rightarrow> (Inl e, c1\<lparr>hc_streams := ss\<rparr>)
        | (Inr _, ss) \<Rightarrow>
            let c2 = send_frame (FSettings True settings_default) (c1\<lparr>hc_streams := ss\<rparr>) in
            (Inr (), if hc_state c2 = WaitingPreface then c2\<lparr>hc_state := Ready\<rparr> else c2))"

definition header_block_too_long :: "nat \<Rightarrow> u32 \<Rightarrow> H2Error" where
  "header_block_too_long len limit =
     MaxSizeExceeded [Lit ''header block ('', Num len, Lit '' bytes) exceeds SETTINGS_MAX_HEADER_LIST_SIZE ('', Num (unat limit), Lit '')'']"

definition header_list_too_long :: "nat \<Rightarrow> u32 \<Rightarrow> H2Error" where
  "header_list_too_long n limit =
     MaxSizeExceeded [Lit ''decoded header list size '', Num n, Lit '' exceeds SETTINGS_MAX_HEADER_LIST_SIZE ('', Num (unat limit), Lit '')'']"

definition list_limit_check :: "Settings \<Rightarrow> nat \<Rightarrow> (nat \<Rightarrow> u32 \<Rightarrow> H2Error) \<Rightarrow> unit h2_result" where
  "list_limit_check settings n err =
     (case max_header_list_size settings of Some limit \<Rightarrow> if unat limit < n then Inl (err n limit) else Inr () | None \<Rightarrow> Inr ())"

definition close_remote :: "H2Stream \<Rightarrow> H2Stream" where
  "close_remote s = s\<lparr>hs_state := (if hs_state s = HalfClosedLocal then Closed else HalfClosedRemote)\<rparr>"

text \<open>The part of \<open>decode_and_emit_headers\<close> after the block has been decoded.\<close>

definition emit_headers :: "u32 \<Rightarrow> HeaderField list \<Rightarrow> bool \<Rightarrow> H2Connection \<Rightarrow> unit h2_result \<times> H2Connection" where
  "emit_headers stream_id headers end_stream c =
     (case list_limit_check (hc_local_settings c) (sum_list (map hf_size headers)) header_list_too_long of
        Inl e \<Rightarrow> (Inl e, c)
      | Inr _ \<Rightarrow>
          (case stream_get stream_id c of
             None \<Rightarrow> (Inr (), c)
           | Some s \<Rightarrow>
               let is_initial_response = \<not> hs_received_initial_response s in
               (case (if is_initial_response then validate_response headers
                      else h2_bind (validate_trailers headers) (\<lambda>_.
                        if \<not> end_stream then Inl (ProtocolError [Lit ''trailers without END_STREAM'']) else Inr ())) of
                  Inl e \<Rightarrow> (Inl e, c)
                | Inr _ \<Rightarrow>
                    let s1 = (if is_initial_response then s\<lparr>hs_received_initial_response := True\<rparr> else s);
                        s2 = (if end_stream then close_remote s1 else s1);
                        c1 = push_event (if is_initial_response then H2Response stream_id headers end_stream
                                         else H2Trailers stream_id headers) (stream_put stream_id s2 c) in
                    (Inr (), if hs_state s2 = Closed then stream_remove stream_id c1 else c1))))"

definition decode_and_emit_headers ::
  "profile \<Rightarrow> u32 \<Rightarrow> bytes \<Rightarrow> bool \<Rightarrow> H2Connection \<Rightarrow> (unit h2_result \<times> H2Connection) outcome" where
  "decode_and_emit_headers dbg stream_id encoded end_stream c =
     (case list_limit_check (hc_local_settings c) (length encoded) header_block_too_long of
        Inl e \<Rightarrow> Ret (Inl e, c)
      | Inr _ \<Rightarrow>
          outcome_bind (dec_decode dbg encoded (hc_decoder c)) (\<lambda>(r, d).
            let c1 = c\<lparr>hc_decoder := d\<rparr> in
            case r of Inl e \<Rightarrow> Ret (Inl e, c1) | Inr headers \<Rightarrow> Ret (emit_headers stream_id headers end_stream c1)))"

definition handle_headers ::
  "profile \<Rightarrow> u32 \<Rightarrow> bytes \<Rightarrow> bool \<Rightarrow> bool \<Rightarrow> H2Connection \<Rightarrow> (unit h2_result \<times> H2Connection) outcome" where
  "handle_headers dbg stream_id encoded end_stream end_headers c =
     (case stream_get stream_id c of
        None \<Rightarrow> Ret (Inl (ProtocolError [Lit ''HEADERS on unknown stream '', Num (unat stream_id)]), c)
      | Some s \<Rightarrow>
          if end_headers then
            decode_and_emit_headers dbg stream_id (hs_header_buf s @ encoded) end_stream
              (stream_put stream_id (s\<lparr>hs_header_buf := []\<rparr>) c)
          else
            Ret (Inr (), (stream_put stream_id
              (s\<lparr>hs_header_buf := hs_header_buf s @ encoded, hs_receiving_headers := True, hs_headers_end_stream := end_stream\<rparr>)
              c)\<lparr>hc_continuation_stream := Some stream_id\<rparr>))"

definition handle_continuation ::
  "profile \<Rightarrow> u32 \<Rightarrow> bytes \<Rightarrow> bool \<Rightarrow> H2Connection \<Rightarrow> (unit h2_result \<times> H2Connection) outcome" where
  "handle_continuation dbg stream_id encoded end_headers c =
     (case stream_get stream_id c of
        None \<Rightarrow> Ret (Inr (), c)
      | Some s \<Rightarrow>
          let block = hs_header_buf s @ encoded in
          if end_headers then
            decode_and_emit_headers dbg stream_id block (hs_headers_end_stream s)
              ((stream_put stream_id (s\<lparr>hs_header_buf := [], hs_receiving_headers := False\<rparr>) c)\<lparr>hc_continuation_stream := None\<rparr>)
          else Ret (Inr (), stream_put stream_id (s\<lparr>hs_header_buf := block\<rparr>) c))"

text \<open>DATA on a stream that takes none: give the bytes back to the connection window and reset the stream.\<close>

definition refuse_data :: "u32 \<Rightarrow> u32 \<Rightarrow> H2Connection \<Rightarrow> H2Connection" where
  "refuse_data stream_id data_len c =
     send_frame (FRstStream stream_id StreamClosedCode)
       (if 0 < data_len then
          send_frame (FWindowUpdate 0 data_len) (c\<lparr>hc_conn_recv_window := increase_or_keep data_len (hc_conn_recv_window c)\<rparr>)
        else c)"

definition consume_if :: "u32 \<Rightarrow> FlowControl \<Rightarrow> FlowControl h2_result" where
  "consume_if n fc = (if 0 < n then fc_consume n fc else Inr fc)"

definition update_conn_window :: "H2Connection \<Rightarrow> H2Connection" where
  "update_conn_window c =
     (if fc_window (hc_conn_recv_window c) < WINDOW_UPDATE_THRESHOLD then
        let increment = (of_int (hc_initial_recv_window c - fc_window (hc_conn_recv_window c)) :: u32) in
        if 0 < increment then
          (send_frame (FWindowUpdate 0 increment) c)\<lparr>hc_conn_recv_window := increase_or_keep increment (hc_conn_recv_window c)\<rparr>
        else c
      else c)"

definition update_stream_window :: "u32 \<Rightarrow> H2Connection \<Rightarrow> H2Connection" where
  "update_stream_window stream_id c =
     (case stream_get stream_id c of
        None \<Rightarrow> c
      | Some s \<Rightarrow>
          if hs_state s \<noteq> Closed \<and> hs_state s \<noteq> HalfClosedRemote \<and> fc_window (hs_recv_window s) < WINDOW_UPDATE_THRESHOLD then
            let increment = (of_int (hc_initial_recv_window c - fc_window (hs_recv_window s)) :: u32) in
            if 0 < increment then
              stream_put stream_id (s\<lparr>hs_recv_window := increase_or_keep increment (hs_recv_window s)\<rparr>)
                (send_frame (FWindowUpdate stream_id increment) c)
            else c
          else c)"

definition maybe_send_window_updates :: "u32 \<Rightarrow> u32 \<Rightarrow> H2Connection \<Rightarrow> H2Connection" where
  "maybe_send_window_updates stream_id data_len c =
     (if data_len = 0 then c else update_stream_window stream_id (update_conn_window c))"

definition handle_data :: "u32 \<Rightarrow> bytes \<Rightarrow> bool \<Rightarrow> H2Connection \<Rightarrow> unit h2_result \<times> H2Connection" where
  "handle_data stream_id payload end_stream c =
     (let data_len = (of_nat (length payload) :: u32) in
      case consume_if data_len (hc_conn_recv_window c) of
        Inl e \<Rightarrow> (Inl e, c)
      | Inr w \<Rightarrow>
          let c1 = c\<lparr>hc_conn_recv_window := w\<rparr> in
          (case stream_get stream_id c1 of
             None \<Rightarrow> (Inr (), refuse_data stream_id data_len c1)
           | Some s \<Rightarrow>
               if hs_state s = Closed \<or> hs_state s = HalfClosedRemote then
                 (Inr (), stream_remove stream_id (refuse_data stream_id data_len c1))
               else
                 (case consume_if data_len (hs_recv_window s) of
                    Inl e \<Rightarrow> (Inl e, c1)
                  | Inr sw \<Rightarrow>
                      let s1 = s\<lparr>hs_recv_window := sw\<rparr>;
                          s2 = (if end_stream then close_remote s1 else s1);
                          c2 = maybe_send_window_updates stream_id data_len
                            (push_event (H2Data stream_id payload end_stream) (stream_put stream_id s2 c1)) in
                      (Inr (), if end_stream \<and> hs_state s2 = Closed then stream_remove stream_id c2 else c2))))"

definition handle_window_update :: "u32 \<Rightarrow> u32 \<Rightarrow> H2Connection \<Rightarrow> unit h2_result \<times> H2Connection" where
  "handle_window_update stream_id increment c =
     (if stream_id = 0 then
        (case fc_increase increment (hc_conn_send_window c) of
           Inl e \<Rightarrow> (Inl e, c)
         | Inr w \<Rightarrow> (Inr (), c\<lparr>hc_conn_send_window := w\<rparr>))
      else case stream_get stream_id c of
             None \<Rightarrow> (Inr (), send_frame (FRstStream stream_id StreamClosedCode) c)
           | Some s \<Rightarrow>
               (case fc_increase increment (hs_send_window s) of
                  Inr w \<Rightarrow> (Inr (), stream_put stream_id (s\<lparr>hs_send_window := w\<rparr>) c)
                | Inl _ \<Rightarrow>
                    (Inr (), push_event (H2StreamReset stream_id FlowControlErrorCode)
                      (send_frame (FRstStream stream_id FlowControlErrorCode) (stream_remove stream_id c)))))"

definition go_away_streams :: "u32 \<Rightarrow> ErrorCode \<Rightarrow> bytes \<Rightarrow> H2Connection \<Rightarrow> H2Connection" where
  "go_away_streams last_stream_id error_code debug_data c =
     (let c1 = push_event (H2GoAway last_stream_id error_code debug_data)
            (c\<lparr>hc_peer_last_stream_id := Some last_stream_id, hc_state := Closing\<rparr>);
          to_reset = filter (\<lambda>sid. last_stream_id < sid) (map fst (hc_streams c1)) in
      fold (\<lambda>sid c. push_event (H2StreamReset sid RefusedStream) (stream_remove sid c)) to_reset c1)"

definition handle_goaway :: "u32 \<Rightarrow> ErrorCode \<Rightarrow> bytes \<Rightarrow> H2Connection \<Rightarrow> unit h2_result \<times> H2Connection" where
  "handle_goaway last_stream_id error_code debug_data c =
     (case hc_peer_last_stream_id c of
        Some prev \<Rightarrow> if prev < last_stream_id
          then (Inl (ProtocolError [Lit ''GOAWAY last_stream_id '', Num (unat last_stream_id), Lit '' > previous '', Num (unat prev)]), c)
          else (Inr (), go_away_streams last_stream_id error_code debug_data c)
      | None \<Rightarrow> (Inr (), go_away_streams last_stream_id error_code debug_data c))"

definition preface_check :: "Frame \<Rightarrow> H2Connection \<Rightarrow> unit h2_result" where
  "preface_check fr c =
     (if hc_received_any_frame c then Inr ()
      else case fr of
             FSettings False _ \<Rightarrow> Inr ()
           | _ \<Rightarrow> Inl (ProtocolError [Lit ''first server frame must be SETTINGS'']))"

definition continuation_check :: "Frame \<Rightarrow> H2Connection \<Rightarrow> unit h2_result" where
  "continuation_check fr c =
     (case hc_continuation_stream c of
        Some expected_sid \<Rightarrow>
          (case fr of
             FContinuation stream_id _ _ \<Rightarrow>
               if stream_id = expected_sid then Inr () else Inl (ProtocolError [Lit ''expected CONTINUATION frame''])
           | _ \<Rightarrow> Inl (ProtocolError [Lit ''expected CONTINUATION frame'']))
      | None \<Rightarrow>
          (case fr of
             FContinuation _ _ _ \<Rightarrow>
               Inl (ProtocolError [Lit ''CONTINUATION without preceding HEADERS without END_HEADERS''])
           | _ \<Rightarrow> Inr ()))"

fun dispatch_frame :: "profile \<Rightarrow> Frame \<Rightarrow> H2Connection \<Rightarrow> (unit h2_result \<times> H2Connection) outcome" where
  "dispatch_frame dbg (FSettings ack settings) c = Ret (handle_settings ack settings c)"
| "dispatch_frame dbg (FHeaders stream_id encoded end_stream end_headers _) c =
     handle_headers dbg stream_id encoded end_stream end_headers c"
| "dispatch_frame dbg (FContinuation stream_id encoded end_headers) c = handle_continuation dbg stream_id encoded end_headers c"
| "dispatch_frame dbg (FData stream_id payload end_stream) c = Ret (handle_data stream_id payload end_stream c)"
| "dispatch_frame dbg (FRstStream stream_id error_code) c =
     Ret (Inr (), push_event (H2StreamReset stream_id error_code) (stream_remove stream_id c))"
| "dispatch_frame dbg (FPing ack opaque_data) c =
     Ret (Inr (), if ack then push_event (H2PingAcknowledged opaque_data) c else send_frame (FPing True opaque_data) c)"
| "dispatch_frame dbg (FGoAway last_stream_id error_code debug_data) c =
     Ret (handle_goaway last_stream_id error_code debug_data c)"
| "dispatch_frame dbg (FWindowUpdate stream_id increment) c = Ret (handle_window_update stream_id increment c)"
| "dispatch_frame dbg (FPriority _ _) c = Ret (Inr (), c)"
| "dispatch_frame dbg (FPushPromise _ promised_stream_id _ _) c =
     (if \<not> enable_push (hc_local_settings c)
      then Ret (Inl (ProtocolError [Lit ''PUSH_PROMISE received but ENABLE_PUSH=0'']), c)
      else Ret (Inr (), send_frame (FRstStream promised_stream_id RefusedStream) c))"
| "dispatch_frame dbg (FUnknown _ _ _ _) c = Ret (Inr (), c)"

definition handle_frame :: "profile \<Rightarrow> Frame \<Rightarrow> H2Connection \<Rightarrow> (unit h2_result \<times> H2Connection) outcome" where
  "handle_frame dbg fr c =
     (case preface_check fr c of
        Inl e \<Rightarrow> Ret (Inl e, c)
      | Inr _ \<Rightarrow>
          let c1 = c\<lparr>hc_received_any_frame := True\<rparr> in
          (case continuation_check fr c1 of
             Inl e \<Rightarrow> Ret (Inl e, c1)
           | Inr _ \<Rightarrow> dispatch_frame dbg fr c1))"

subsection \<open>Receiving\<close>

text \<open>What no handler and no request operation touches; in particular the receive buffer, so that the loop below
  consumes it.\<close>

definition frozen :: "H2Connection \<Rightarrow> bytes \<times> Settings \<times> nat \<times> int" where
  "frozen c = (hc_recv_buf c, hc_local_settings c, hc_max_recv_buf c, hc_initial_recv_window c)"

lemma frozen_basic [simp]:
  "frozen (send_frame fr c) = frozen c" "frozen (push_event ev c) = frozen c" "frozen (stream_put sid s c) = frozen c"
  "frozen (stream_remove sid c) = frozen c" "frozen (c\<lparr>hc_state := st\<rparr>) = frozen c" "frozen (c\<lparr>hc_streams := ss\<rparr>) = frozen c"
  "frozen (c\<lparr>hc_conn_recv_window := w\<rparr>) = frozen c" "frozen (c\<lparr>hc_conn_send_window := w\<rparr>) = frozen c"
  "frozen (c\<lparr>hc_remote_settings := rs\<rparr>) = frozen c" "frozen (c\<lparr>hc_encoder := e\<rparr>) = frozen c"
  "frozen (c\<lparr>hc_decoder := d\<rparr>) = frozen c" "frozen (c\<lparr>hc_continuation_stream := k\<rparr>) = frozen c"
  "frozen (c\<lparr>hc_received_any_frame := b\<rparr>) = frozen c" "frozen (c\<lparr>hc_peer_last_stream_id := p\<rparr>) = frozen c"
  "frozen (c\<lparr>hc_next_stream_id := n\<rparr>) = frozen c"
  by (simp_all add: frozen_def send_frame_def push_event_def stream_put_def stream_remove_def)

lemma frozen_fold [simp]: "(\<And>x c. frozen (f x c) = frozen c) \<Longrightarrow> frozen (fold f xs c) = frozen c"
  by (induction xs arbitrary: c) simp_all

lemma frozen_helpers [simp]:
  "frozen (fatal_error e c) = frozen c" "frozen (refuse_data sid n c) = frozen c" "frozen (update_conn_window c) = frozen c"
  "frozen (update_stream_window sid c) = frozen c" "frozen (go_away_streams l code d c) = frozen c"
  by (auto simp: fatal_error_def refuse_data_def update_conn_window_def update_stream_window_def go_away_streams_def Let_def
    split: option.splits)

lemma frozen_maybe [simp]: "frozen (maybe_send_window_updates sid n c) = frozen c"
  by (simp add: maybe_send_window_updates_def)

lemma frozen_handlers [simp]:
  "frozen (snd (handle_settings ack rs c)) = frozen c" "frozen (snd (emit_headers sid hs es c)) = frozen c"
  "frozen (snd (handle_data sid p es c)) = frozen c" "frozen (snd (handle_window_update sid n c)) = frozen c"
  "frozen (snd (handle_goaway l e d c)) = frozen c"
  by (auto simp: handle_settings_def emit_headers_def handle_data_def handle_window_update_def handle_goaway_def Let_def
    split: option.splits sum.splits prod.splits)

lemma decode_and_emit_cases:
  assumes "decode_and_emit_headers dbg sid b es c = Ret (r, c')"
  obtains (limit) e where "r = Inl e" "c' = c"
  | (malformed) e d where "dec_decode dbg b (hc_decoder c) = Ret (Inl e, d)" "r = Inl e" "c' = c\<lparr>hc_decoder := d\<rparr>"
  | (decoded) hs d where "dec_decode dbg b (hc_decoder c) = Ret (Inr hs, d)" "emit_headers sid hs es (c\<lparr>hc_decoder := d\<rparr>) = (r, c')"
proof (cases "list_limit_check (hc_local_settings c) (length b) header_block_too_long")
  case (Inl e)
  then show ?thesis using assms by (intro limit [of e]) (simp_all add: decode_and_emit_headers_def)
next
  case (Inr u)
  obtain x d where x: "dec_decode dbg b (hc_decoder c) = Ret (x, d)"
    using assms Inr by (auto simp: decode_and_emit_headers_def outcome_bind_Ret_iff)
  show ?thesis
  proof (cases x)
    case (Inl e)
    then show ?thesis using assms Inr x by (intro malformed [of e d]) (simp_all add: decode_and_emit_headers_def)
  next
    case hs: (Inr hs)
    then show ?thesis using assms Inr x by (intro decoded [of hs d]) (simp_all add: decode_and_emit_headers_def)
  qed
qed

lemma frozen_decode_and_emit: "decode_and_emit_headers dbg sid b es c = Ret (r, c') \<Longrightarrow> frozen c' = frozen c"
proof (erule decode_and_emit_cases)
  fix hs d assume "emit_headers sid hs es (c\<lparr>hc_decoder := d\<rparr>) = (r, c')"
  then show ?thesis using frozen_handlers(2) [of sid hs es "c\<lparr>hc_decoder := d\<rparr>"] by simp
qed simp_all

lemma frozen_headers:
  "handle_headers dbg sid b es eh c = Ret (r, c') \<Longrightarrow> frozen c' = frozen c"
  "handle_continuation dbg sid b eh c = Ret (r, c') \<Longrightarrow> frozen c' = frozen c"
  by (auto simp: handle_headers_def handle_continuation_def Let_def split: option.splits if_splits dest!: frozen_decode_and_emit)

lemma frozen_dispatch: "dispatch_frame dbg fr c = Ret (r, c') \<Longrightarrow> frozen c' = frozen c"
proof (cases fr)
  case (FSettings x y)
  then show "dispatch_frame dbg fr c = Ret (r, c') \<Longrightarrow> ?thesis" using frozen_handlers(1) [of x y c] by auto
next
  case (FData x y z)
  then show "dispatch_frame dbg fr c = Ret (r, c') \<Longrightarrow> ?thesis" using frozen_handlers(3) [of x y z c] by auto
next
  case (FGoAway x y z)
  then show "dispatch_frame dbg fr c = Ret (r, c') \<Longrightarrow> ?thesis" using frozen_handlers(5) [of x y z c] by auto
next
  case (FWindowUpdate x y)
  then show "dispatch_frame dbg fr c = Ret (r, c') \<Longrightarrow> ?thesis" using frozen_handlers(4) [of x y c] by auto
qed (auto split: if_splits dest: frozen_headers)

lemma frozen_handle_frame: "handle_frame dbg fr c = Ret (r, c') \<Longrightarrow> frozen c' = frozen c"
  by (auto simp: handle_frame_def Let_def split: sum.splits dest: frozen_dispatch)

lemma fatal_closing [simp]: "is_closing (fatal_error e c)"
  by (simp add: fatal_error_def is_closing_def push_event_def send_frame_def)

lemma process_shrinks:
  assumes "decode_frame (hc_recv_buf c) m = Inr (Some (fr, n))" "handle_frame dbg fr (c\<lparr>hc_recv_buf := drop n (hc_recv_buf c)\<rparr>) = Ret (r, c')"
  shows "length (hc_recv_buf c') < length (hc_recv_buf c)"
proof -
  have "hc_recv_buf c' = drop n (hc_recv_buf c)" using frozen_handle_frame [OF assms(2)] by (simp add: frozen_def)
  then show ?thesis using decode_frame_progress [OF assms(1)] by auto
qed

function process_recv_buf :: "profile \<Rightarrow> H2Connection \<Rightarrow> H2Connection outcome" where
  "process_recv_buf dbg c =
     (if is_closing c then Ret c
      else case decode_frame (hc_recv_buf c) (max_frame_size (hc_local_settings c)) of
             Inr (Some (fr, consumed)) \<Rightarrow>
               (case handle_frame dbg fr (c\<lparr>hc_recv_buf := drop consumed (hc_recv_buf c)\<rparr>) of
                  Panic \<Rightarrow> Panic
                | Ret (Inl e, c') \<Rightarrow> process_recv_buf dbg (fatal_error e c')
                | Ret (Inr _, c') \<Rightarrow> process_recv_buf dbg c')
           | Inr None \<Rightarrow> Ret c
           | Inl e \<Rightarrow> process_recv_buf dbg (fatal_error e (c\<lparr>hc_recv_buf := []\<rparr>)))"
  by pat_completeness auto

termination
  by (relation "measure (\<lambda>(dbg, c). if is_closing c then 0 else Suc (length (hc_recv_buf c)))") (auto dest: process_shrinks)

declare process_recv_buf.simps [simp del]

definition hc_recv :: "profile \<Rightarrow> bytes \<Rightarrow> H2Connection \<Rightarrow> H2Connection outcome" where
  "hc_recv dbg data c =
     (if is_closing c then Ret c
      else if hc_max_recv_buf c < length (hc_recv_buf c) + length data then
        Ret (fatal_error (MaxSizeExceeded [Lit ''recv_buf would exceed '', Num (hc_max_recv_buf c), Lit '' bytes'']) c)
      else process_recv_buf dbg (c\<lparr>hc_recv_buf := hc_recv_buf c @ data\<rparr>))"

end
