(* ===== verification/H2_Messages.thy ===== *)
theory H2_Messages
  imports H2_Connection
begin

section \<open>HTTP/2 connection: messages\<close>

text \<open>
  What the checks on header sections accept, and what \<open>send_data\<close> puts on the wire.
\<close>

text \<open>A regular header field of HTTP/2: a nonempty lower-case name that is not a pseudo-header, not
  connection-specific, and \<open>te\<close> only with the value \<open>trailers\<close>.\<close>

definition regular_field :: "HeaderField \<Rightarrow> bool" where
  "regular_field h \<longleftrightarrow> hf_name h \<noteq> [] \<and> hd (hf_name h) \<noteq> 0x3a \<and> (\<forall>b \<in> set (hf_name h). \<not> (0x41 \<le> b \<and> b \<le> 0x5a)) \<and>
     hf_name h \<notin> set forbidden_headers \<and> (hf_name h = ascii ''te'' \<longrightarrow> hf_value h = ascii ''trailers'')"

lemma validate_regular_iff:
  "hf_name h \<noteq> [] \<and> \<not> is_pseudo h \<and> validate_regular_header h = Inr () \<longleftrightarrow> regular_field h"
  by (auto simp: validate_regular_header_def regular_field_def is_pseudo_def message_error_def list_ex_iff is_ascii_uppercase_def)

lemma h2_bind_unit: "h2_bind m (\<lambda>_. k) = Inr () \<longleftrightarrow> m = Inr () \<and> k = Inr ()"
  by (cases m) auto

lemma validate_trailers_iff: "validate_trailers hs = Inr () \<longleftrightarrow> (\<forall>h \<in> set hs. regular_field h)"
proof (induction hs)
  case (Cons h hs)
  then show ?case using validate_regular_iff [of h] by (auto simp: message_error_def h2_bind_unit)
qed simp

lemma validate_regular_part:
  "validate_response_loop hs True n = Inr () \<longleftrightarrow> n \<noteq> 0 \<and> (\<forall>h \<in> set hs. regular_field h)"
proof (induction hs)
  case (Cons h hs)
  then show ?case using validate_regular_iff [of h] by (auto simp: message_error_def h2_bind_unit)
qed (simp add: message_error_def)

lemma status_is_pseudo: "hf_name h = ascii '':status'' \<Longrightarrow> hf_name h \<noteq> [] \<and> is_pseudo h"
  by (simp add: is_pseudo_def ascii_def)

lemma validate_after_status:
  "validate_response_loop hs False 1 = Inr () \<longleftrightarrow> (\<forall>h \<in> set hs. regular_field h)"
proof (cases hs)
  case (Cons h hs')
  then show ?thesis using validate_regular_iff [of h] validate_regular_part [of hs' 1]
    by (auto simp: message_error_def h2_bind_unit)
qed simp

text \<open>C27. Header validation is exact. A response header section passes exactly when it is one \<open>:status\<close>
  pseudo-header followed by regular fields, and a trailer section exactly when all its fields are regular: lower-case
  names, no connection-specific field, \<open>te\<close> only with \<open>trailers\<close>, no further pseudo-header anywhere.\<close>

theorem header_validation_exact:
  "(validate_response hs = Inr () \<longleftrightarrow> (\<exists>h rest. hs = h # rest \<and> hf_name h = ascii '':status'' \<and> list_all regular_field rest)) \<and>
   (validate_trailers hs = Inr () \<longleftrightarrow> list_all regular_field hs)"
proof
  show "validate_response hs = Inr () \<longleftrightarrow> (\<exists>h rest. hs = h # rest \<and> hf_name h = ascii '':status'' \<and> list_all regular_field rest)"
  proof (cases hs)
    case (Cons h rest)
    show ?thesis
    proof (cases "hf_name h = ascii '':status''")
      case True
      then show ?thesis using Cons status_is_pseudo [OF True] validate_after_status [of rest]
        by (simp add: validate_response_def list_all_iff)
    next
      case False
      then show ?thesis using Cons validate_regular_part [of rest 0]
        by (auto simp: validate_response_def message_error_def h2_bind_unit)
    qed
  qed (simp add: validate_response_def message_error_def)
  show "validate_trailers hs = Inr () \<longleftrightarrow> list_all regular_field hs"
    by (simp add: validate_trailers_iff list_all_iff)
qed

subsection \<open>DATA frames\<close>

lemma chunks_Cons: "0 < n \<Longrightarrow> data \<noteq> [] \<Longrightarrow> chunks n data = take n data # chunks n (drop n data)"
  using chunks.simps [of n data] by simp

lemma chunks_Nil [simp]: "chunks n [] = []"
  by (simp add: chunks.simps)

lemma chunks_Nil_iff: "0 < n \<Longrightarrow> chunks n data = [] \<longleftrightarrow> data = []"
  by (cases "data = []") (simp_all add: chunks_Cons)

lemma concat_chunks: "0 < n \<Longrightarrow> concat (chunks n data) = data"
proof (induction n data rule: chunks.induct)
  case (1 n data)
  then show ?case by (cases "data = []") (simp_all add: chunks_Cons)
qed

lemma chunk_length: "0 < n \<Longrightarrow> p \<in> set (chunks n data) \<Longrightarrow> p \<noteq> [] \<and> length p \<le> n"
proof (induction n data rule: chunks.induct)
  case (1 n data)
  show ?case
  proof (cases "data = []")
    case False
    then consider "p = take n data" | "p \<in> set (chunks n (drop n data))" using "1.prems" by (auto simp: chunks_Cons)
    then show ?thesis by cases (use "1.IH" "1.prems" False in auto)
  qed (use "1.prems" in simp)
qed

fun data_frames :: "u32 \<Rightarrow> bool \<Rightarrow> bytes list \<Rightarrow> Frame list" where
  "data_frames sid es [] = []"
| "data_frames sid es (p # ps) = FData sid p (es \<and> ps = []) # data_frames sid es ps"

definition encode_frames :: "Frame list \<Rightarrow> bytes" where
  "encode_frames fs = concat (map frame_encode fs)"

lemma encode_frames_simps [simp]: "encode_frames [] = []" "encode_frames (f # fs) = frame_encode f @ encode_frames fs"
  "encode_frames (fs @ gs) = encode_frames fs @ encode_frames gs"
  by (simp_all add: encode_frames_def)

lemma send_chunks_eq: "send_chunks sid es cs c = c\<lparr>hc_send_buf := hc_send_buf c @ encode_frames (data_frames sid es cs)\<rparr>"
  by (induction cs arbitrary: c) (simp_all add: send_frame_def)

lemma fc_window_update: "fc\<lparr>fc_window := w\<rparr> = fc_new w" "fc_new (fc_window fc) = fc"
  by (cases fc; simp add: fc_new_def)+

lemma uint_of_length: "length data < 2 ^ 32 \<Longrightarrow> uint (of_nat (length data) :: u32) = int (length data)"
  by (simp add: uint_nat unat_of_nat_fits)

lemma length_word_pos: "length data < 2 ^ 32 \<Longrightarrow> 0 < (of_nat (length data) :: u32) \<longleftrightarrow> data \<noteq> []"
  using of_nat_word_eq_0 [where 'l = 32, of "length data"] by (simp add: word_neq_0_conv [symmetric])

text \<open>How many bytes a call may send, and the stream afterwards.\<close>

definition may_send :: "nat \<Rightarrow> H2Stream \<Rightarrow> H2Connection \<Rightarrow> bool" where
  "may_send n s c \<longleftrightarrow> n = 0 \<or> (int n \<le> fc_window (hs_send_window s) \<and> int n \<le> fc_window (hc_conn_send_window c))"

definition after_send :: "nat \<Rightarrow> bool \<Rightarrow> H2Stream \<Rightarrow> H2Stream" where
  "after_send n es s =
     s\<lparr>hs_send_window := fc_new (fc_window (hs_send_window s) - int n),
       hs_state := (if es then if hs_state s = HalfClosedRemote then Closed else HalfClosedLocal else hs_state s)\<rparr>"

lemma hc_send_data_eq:
  assumes s: "stream_get sid c = Some s" and st: "hs_state s = Open \<or> hs_state s = HalfClosedRemote"
    and n: "length data < 2 ^ 32" and m: "0 < max_frame_size (hc_remote_settings c)"
  shows "hc_send_data sid data es c =
    (if may_send (length data) s c then
       Ret (Inr (), stream_put sid (after_send (length data) es s)
         (c\<lparr>hc_conn_send_window := fc_new (fc_window (hc_conn_send_window c) - int (length data)),
            hc_send_buf := hc_send_buf c @ encode_frames (data_frames sid es
              (if data = [] then [[]] else chunks (unat (max_frame_size (hc_remote_settings c))) data))\<rparr>))
     else Ret (Inl FlowControlError, c))"
proof -
  let ?len = "of_nat (length data) :: u32"
  have m': "0 < unat (max_frame_size (hc_remote_settings c))" using m by (simp add: word_less_nat_alt)
  have st': "\<not> (hs_state s \<noteq> Open \<and> hs_state s \<noteq> HalfClosedRemote)" using st by auto
  have win: "hs_send_window s = fc_new (fc_window (hs_send_window s))" "hc_conn_send_window c = fc_new (fc_window (hc_conn_send_window c))"
    by (simp_all add: fc_window_update)
  have take: "consume_or_keep ?len fc = fc_new (fc_window fc - int (length data))" if "int (length data) \<le> fc_window fc" for fc
    using that by (simp add: consume_or_keep_def fc_consume_def Let_def uint_of_length [OF n] fc_window_update)
  note eq = hc_send_data_def s option.case if_not_P [OF st'] Let_def uint_of_length [OF n] length_word_pos [OF n]
  show ?thesis
  proof (cases "data = []")
    case True
    then show ?thesis unfolding eq using m'
      by (cases s, cases c) (simp add: may_send_def after_send_def send_chunks_eq fc_window_update ensure_def)
  next
    case False
    show ?thesis unfolding eq using False m' take
      by (auto simp: may_send_def after_send_def send_chunks_eq ensure_def)
  qed
qed

text \<open>C28. Sending a body shorter than 2^32 bytes (a longer one is outside the claim: its length is truncated to 32 bits
  for the window check). On a stream that is open for sending, \<open>send_data\<close> succeeds exactly when the bytes fit
  both the stream's and the connection's send window (an empty body always fits), and otherwise changes nothing. On
  success it appends DATA frames to the output whose payloads concatenate to the data and are at most the peer's maximum
  frame size, END_STREAM only on the last one and only if asked; both windows shrink by exactly the length, and the
  stream is half closed, or closed when the peer had finished.\<close>

theorem send_data_frames:
  assumes "stream_get sid c = Some s" "hs_state s = Open \<or> hs_state s = HalfClosedRemote"
    and "length data < 2 ^ 32" "0 < max_frame_size (hc_remote_settings c)"
  shows "if may_send (length data) s c
    then \<exists>parts c'. hc_send_data sid data es c = Ret (Inr (), c') \<and> concat parts = data \<and> parts \<noteq> [] \<and>
      list_all (\<lambda>p. length p \<le> unat (max_frame_size (hc_remote_settings c))) parts \<and>
      hc_send_buf c' = hc_send_buf c @ encode_frames (data_frames sid es parts) \<and>
      stream_get sid c' = Some (after_send (length data) es s) \<and>
      fc_window (hc_conn_send_window c') = fc_window (hc_conn_send_window c) - int (length data)
    else hc_send_data sid data es c = Ret (Inl FlowControlError, c)"
proof (cases "may_send (length data) s c")
  case True
  let ?m = "unat (max_frame_size (hc_remote_settings c))"
  have m: "0 < ?m" using assms(4) by (simp add: word_less_nat_alt)
  define parts where "parts = (if data = [] then [[]] else chunks ?m data)"
  have "concat parts = data" "parts \<noteq> []" using m by (simp_all add: parts_def concat_chunks chunks_Nil_iff)
  moreover have "list_all (\<lambda>p. length p \<le> ?m) parts" using chunk_length [OF m] by (auto simp: parts_def list_all_iff)
  ultimately show ?thesis
    using True hc_send_data_eq [OF assms, of es, folded parts_def]
    by (auto simp: stream_get_def stream_put_def update_conv' fc_new_def)
qed (use hc_send_data_eq [OF assms] in simp)

theorem send_data_frames_witness:
  "let c = stream_put 1 (hs_new 65535 10) (hc_new settings_client_default) in
   \<exists>parts c'. hc_send_data 1 [1, 2, 3] True c = Ret (Inr (), c') \<and> concat parts = [1, 2, 3] \<and>
     hc_send_buf c' = hc_send_buf c @ encode_frames (data_frames 1 True parts) \<and> fc_window (hc_conn_send_window c') = 65532"
proof -
  let ?c = "stream_put 1 (hs_new 65535 10) (hc_new settings_client_default)"
  have c: "stream_get 1 ?c = Some (hs_new 65535 10)" "fc_window (hc_conn_send_window ?c) = 65535"
    "max_frame_size (hc_remote_settings ?c) = 16384"
    by (simp_all add: stream_get_def stream_put_def hc_new_def Let_def update_conv' fc_default_def fc_new_def DEFAULT_WINDOW_SIZE_def settings_default_def)
  have "may_send (length [1, 2, 3 :: u8]) (hs_new 65535 10) ?c" using c(2) by (simp add: may_send_def hs_new_def fc_new_def)
  then show ?thesis
    using send_data_frames [OF c(1), of "[1, 2, 3]" True] c(2,3) unfolding Let_def by (auto simp: hs_new_def)
qed

end
