(* ===== verification/H2_Ledger.thy ===== *)
theory H2_Ledger
  imports H2_Messages
begin

section \<open>HTTP/2 connection: invariant and flow-control ledger\<close>

text \<open>
  The invariant of a connection, kept by every frame and every request operation, and the ledger that ties the
  two connection windows to the frames on the wire: what was received, and what was sent.
\<close>

definition stream_ok :: "H2Connection \<Rightarrow> u32 \<Rightarrow> H2Stream \<Rightarrow> bool" where
  "stream_ok c sid s \<longleftrightarrow>
     0 \<le> fc_window (hs_recv_window s) \<and> fc_window (hs_recv_window s) \<le> hc_initial_recv_window c \<and>
     fc_window (hs_send_window s) < 2 ^ 31 \<and> odd (unat sid) \<and> unat sid < unat (hc_next_stream_id c)"

definition streams_ok :: "H2Connection \<Rightarrow> bool" where
  "streams_ok c \<longleftrightarrow> distinct (map fst (hc_streams c)) \<and> (\<forall>sid s. stream_get sid c = Some s \<longrightarrow> stream_ok c sid s)"

definition windows_ok :: "H2Connection \<Rightarrow> bool" where
  "windows_ok c \<longleftrightarrow>
     0 \<le> fc_window (hc_conn_recv_window c) \<and> fc_window (hc_conn_recv_window c) \<le> hc_initial_recv_window c \<and>
     hc_initial_recv_window c < 2 ^ 31 \<and> 0 \<le> fc_window (hc_conn_send_window c) \<and> fc_window (hc_conn_send_window c) < 2 ^ 31"

definition encoder_ok :: "Encoder \<Rightarrow> bool" where
  "encoder_ok e \<longleftrightarrow> dt_ok (enc_table e) \<and> pending_le (2 ^ 32) e"

definition conn_ok :: "H2Connection \<Rightarrow> bool" where
  "conn_ok c \<longleftrightarrow> streams_ok c \<and> windows_ok c \<and> odd (unat (hc_next_stream_id c)) \<and> unat (hc_next_stream_id c) \<le> 2 ^ 31 + 1 \<and>
     encoder_ok (hc_encoder c) \<and> dec_ok (hc_decoder c) \<and> 0 < max_frame_size (hc_remote_settings c) \<and>
     uint (initial_window_size (hc_remote_settings c)) < 2 ^ 31 \<and>
     max_header_list_size (hc_local_settings c) \<noteq> None \<and> \<not> enable_push (hc_local_settings c) \<and>
     (\<forall>sid. hc_continuation_stream c = Some sid \<longrightarrow> is_closing c \<or> stream_get sid c \<noteq> None)"

subsection \<open>The ledger\<close>

fun data_bytes :: "Frame list \<Rightarrow> int" where
  "data_bytes [] = 0"
| "data_bytes (FData _ p _ # fs) = int (length p) + data_bytes fs"
| "data_bytes (_ # fs) = data_bytes fs"

fun credits :: "Frame list \<Rightarrow> int" where
  "credits [] = 0"
| "credits (FWindowUpdate sid n # fs) = (if sid = 0 then uint n else 0) + credits fs"
| "credits (_ # fs) = credits fs"

lemma data_bytes_append [simp]: "data_bytes (fs @ gs) = data_bytes fs + data_bytes gs"
  by (induction fs rule: data_bytes.induct) simp_all

lemma credits_append [simp]: "credits (fs @ gs) = credits fs + credits gs"
  by (induction fs rule: credits.induct) simp_all

text \<open>From \<open>c\<close> to \<open>c'\<close> the frames \<open>outs\<close> were sent, all well formed; of the frames \<open>ins\<close> the DATA bytes were debited and
  the window updates credited.\<close>

definition ledger :: "Frame list \<Rightarrow> Frame list \<Rightarrow> H2Connection \<Rightarrow> H2Connection \<Rightarrow> bool" where
  "ledger ins outs c c' \<longleftrightarrow>
     hc_send_buf c' = hc_send_buf c @ encode_frames outs \<and> list_all frame_ok outs \<and>
     fc_window (hc_conn_recv_window c') = fc_window (hc_conn_recv_window c) - data_bytes ins + credits outs \<and>
     fc_window (hc_conn_send_window c') = fc_window (hc_conn_send_window c) + credits ins - data_bytes outs"

lemma ledger_refl: "ledger [] [] c c"
  by (simp add: ledger_def)

lemma ledger_trans: "ledger i1 o1 c c1 \<Longrightarrow> ledger i2 o2 c1 c2 \<Longrightarrow> ledger (i1 @ i2) (o1 @ o2) c c2"
  by (simp add: ledger_def)

subsection \<open>Words\<close>

lemma id31_iff: "id31 v \<longleftrightarrow> unat v < 2 ^ 31"
proof -
  have "v AND 0x7fffffff = take_bit 31 v" by (simp add: take_bit_eq_mask mask_eq_exp_minus_1)
  moreover have "unat (take_bit 31 v) = unat v mod 2 ^ 31" unfolding unsigned_take_bit_eq by (rule take_bit_eq_mod)
  ultimately show ?thesis by (metis id31_def mod_less mod_less_divisor unsigned_word_eqI zero_less_numeral zero_less_power)
qed

lemma uint_of_int_31: "0 \<le> x \<Longrightarrow> x < 2 ^ 31 \<Longrightarrow> uint (of_int x :: u32) = x"
  by (simp add: uint_word_of_int_eq take_bit_int_eq_self)

lemma unat_uint_less: "unat (v :: u32) < 2 ^ 31 \<longleftrightarrow> uint v < 2 ^ 31"
  using of_nat_less_iff [where 'a = int, of "unat v" "2 ^ 31"] by simp

subsection \<open>Updates that keep the invariant\<close>

lemma stream_get_put [simp]: "stream_get sid' (stream_put sid s c) = (if sid' = sid then Some s else stream_get sid' c)"
  by (simp add: stream_get_def stream_put_def update_conv')

lemma stream_get_remove [simp]: "stream_get sid' (stream_remove sid c) = (if sid' = sid then None else stream_get sid' c)"
  by (simp add: stream_get_def stream_remove_def delete_conv')

lemma stream_get_other [simp]: "stream_get sid (send_frame fr c) = stream_get sid c" "stream_get sid (push_event ev c) = stream_get sid c"
  by (simp_all add: stream_get_def send_frame_def push_event_def)

lemma stream_get_fields [simp]:
  "stream_get sid (c\<lparr>hc_conn_recv_window := x0\<rparr>) = stream_get sid c"
  "stream_get sid (c\<lparr>hc_conn_send_window := x1\<rparr>) = stream_get sid c"
  "stream_get sid (c\<lparr>hc_decoder := x2\<rparr>) = stream_get sid c"
  "stream_get sid (c\<lparr>hc_state := x3\<rparr>) = stream_get sid c"
  "stream_get sid (c\<lparr>hc_continuation_stream := x4\<rparr>) = stream_get sid c"
  "stream_get sid (c\<lparr>hc_received_any_frame := x5\<rparr>) = stream_get sid c"
  "stream_get sid (c\<lparr>hc_peer_last_stream_id := x6\<rparr>) = stream_get sid c"
  "stream_get sid (c\<lparr>hc_encoder := x7\<rparr>) = stream_get sid c"
  "stream_get sid (c\<lparr>hc_remote_settings := x8\<rparr>) = stream_get sid c"
  "stream_get sid (c\<lparr>hc_next_stream_id := x9\<rparr>) = stream_get sid c"
  "stream_get sid (c\<lparr>hc_recv_buf := x10\<rparr>) = stream_get sid c"
  "stream_get sid (c\<lparr>hc_send_buf := x11\<rparr>) = stream_get sid c"
  "stream_get sid (c\<lparr>hc_events := x12\<rparr>) = stream_get sid c"
  by (simp_all add: stream_get_def)

lemma is_closing_fields [simp]:
  "is_closing (c\<lparr>hc_conn_recv_window := x0\<rparr>) = is_closing c"
  "is_closing (c\<lparr>hc_conn_send_window := x1\<rparr>) = is_closing c"
  "is_closing (c\<lparr>hc_decoder := x2\<rparr>) = is_closing c"
  "is_closing (c\<lparr>hc_continuation_stream := x4\<rparr>) = is_closing c"
  "is_closing (c\<lparr>hc_received_any_frame := x5\<rparr>) = is_closing c"
  "is_closing (c\<lparr>hc_peer_last_stream_id := x6\<rparr>) = is_closing c"
  "is_closing (c\<lparr>hc_encoder := x7\<rparr>) = is_closing c"
  "is_closing (c\<lparr>hc_remote_settings := x8\<rparr>) = is_closing c"
  "is_closing (c\<lparr>hc_next_stream_id := x9\<rparr>) = is_closing c"
  "is_closing (c\<lparr>hc_recv_buf := x10\<rparr>) = is_closing c"
  "is_closing (c\<lparr>hc_send_buf := x11\<rparr>) = is_closing c"
  "is_closing (c\<lparr>hc_events := x12\<rparr>) = is_closing c"
  "is_closing (c\<lparr>hc_streams := ss\<rparr>) = is_closing c" "is_closing (send_frame fr c) = is_closing c"
  "is_closing (push_event ev c) = is_closing c" "is_closing (stream_put sid s c) = is_closing c" "is_closing (stream_remove sid c) = is_closing c"
  by (simp_all add: is_closing_def send_frame_def push_event_def stream_put_def stream_remove_def)

lemma stream_ok_state [simp]:
  "stream_ok c sid (s\<lparr>hs_state := x\<rparr>) = stream_ok c sid s" "stream_ok c sid (s\<lparr>hs_header_buf := b\<rparr>) = stream_ok c sid s"
  "stream_ok c sid (s\<lparr>hs_receiving_headers := f\<rparr>) = stream_ok c sid s" "stream_ok c sid (s\<lparr>hs_headers_end_stream := f\<rparr>) = stream_ok c sid s"
  "stream_ok c sid (s\<lparr>hs_received_initial_response := f\<rparr>) = stream_ok c sid s" "stream_ok c sid (close_remote s) = stream_ok c sid s"
  by (simp_all add: stream_ok_def close_remote_def)

lemma conn_ok_send [simp]: "conn_ok (send_frame fr c) = conn_ok c" "conn_ok (push_event ev c) = conn_ok c"
  "conn_ok (c\<lparr>hc_received_any_frame := f\<rparr>) = conn_ok c" "conn_ok (c\<lparr>hc_peer_last_stream_id := p\<rparr>) = conn_ok c"
  by (simp_all add: conn_ok_def streams_ok_def stream_ok_def windows_ok_def stream_get_def send_frame_def push_event_def is_closing_def)

lemma conn_okD:
  assumes "conn_ok c"
  shows "windows_ok c" "encoder_ok (hc_encoder c)" "dec_ok (hc_decoder c)" "streams_ok c"
    "stream_get sid c = Some s \<Longrightarrow> stream_ok c sid s" "odd (unat (hc_next_stream_id c))" "unat (hc_next_stream_id c) \<le> 2 ^ 31 + 1"
    "0 < max_frame_size (hc_remote_settings c)" "uint (initial_window_size (hc_remote_settings c)) < 2 ^ 31"
  using assms by (auto simp: conn_ok_def streams_ok_def)

lemma conn_ok_put: "conn_ok c \<Longrightarrow> stream_ok c sid s \<Longrightarrow> conn_ok (stream_put sid s c)"
  unfolding conn_ok_def streams_ok_def
  by (auto simp: stream_ok_def windows_ok_def is_closing_def stream_put_def distinct_update stream_get_def update_conv')

lemma conn_ok_remove:
  "conn_ok c \<Longrightarrow> hc_continuation_stream c = None \<or> is_closing c \<Longrightarrow> conn_ok (stream_remove sid c)"
  unfolding conn_ok_def streams_ok_def
  by (auto simp: stream_ok_def windows_ok_def is_closing_def stream_remove_def distinct_delete stream_get_def delete_conv' split: option.splits)

lemma conn_ok_recv_window:
  "conn_ok c \<Longrightarrow> 0 \<le> fc_window w \<Longrightarrow> fc_window w \<le> hc_initial_recv_window c \<Longrightarrow> conn_ok (c\<lparr>hc_conn_recv_window := w\<rparr>)"
  by (simp add: conn_ok_def streams_ok_def stream_ok_def windows_ok_def)

lemma conn_ok_send_window:
  "conn_ok c \<Longrightarrow> 0 \<le> fc_window w \<Longrightarrow> fc_window w < 2 ^ 31 \<Longrightarrow> conn_ok (c\<lparr>hc_conn_send_window := w\<rparr>)"
  by (simp add: conn_ok_def streams_ok_def stream_ok_def windows_ok_def)

lemma conn_ok_decoder: "conn_ok c \<Longrightarrow> dec_ok d \<Longrightarrow> conn_ok (c\<lparr>hc_decoder := d\<rparr>)"
  by (simp add: conn_ok_def streams_ok_def stream_ok_def windows_ok_def)

lemma conn_ok_closing: "conn_ok c \<Longrightarrow> conn_ok (c\<lparr>hc_state := Closing\<rparr>)"
  by (simp add: conn_ok_def streams_ok_def stream_ok_def windows_ok_def is_closing_def)

lemma conn_ok_continuation: "conn_ok c \<Longrightarrow> (\<forall>sid. k = Some sid \<longrightarrow> stream_get sid c \<noteq> None) \<Longrightarrow> conn_ok (c\<lparr>hc_continuation_stream := k\<rparr>)"
  by (simp add: conn_ok_def streams_ok_def stream_ok_def windows_ok_def is_closing_def)

subsection \<open>Ledger of the updates\<close>

definition quiet :: "H2Connection \<Rightarrow> H2Connection \<Rightarrow> bool" where
  "quiet c c' \<longleftrightarrow> hc_send_buf c' = hc_send_buf c \<and> hc_conn_recv_window c' = hc_conn_recv_window c \<and>
     hc_conn_send_window c' = hc_conn_send_window c"

lemma quiet_ledger: "quiet c c' \<Longrightarrow> ledger [] [] c c'"
  by (simp add: quiet_def ledger_def)

lemma ledger_quiet: "ledger i os c c1 \<Longrightarrow> quiet c1 c2 \<Longrightarrow> ledger i os c c2" "quiet c c1 \<Longrightarrow> ledger i os c1 c2 \<Longrightarrow> ledger i os c c2"
  by (auto simp: quiet_def ledger_def)

lemma quiet_updates [simp]:
  "quiet c c" "quiet c (push_event ev c1) = quiet c c1" "quiet c (stream_put sid s c1) = quiet c c1"
  "quiet c (stream_remove sid c1) = quiet c c1" "quiet c (c1\<lparr>hc_state := x\<rparr>) = quiet c c1" "quiet c (c1\<lparr>hc_decoder := d\<rparr>) = quiet c c1"
  "quiet c (c1\<lparr>hc_streams := ss\<rparr>) = quiet c c1" "quiet c (c1\<lparr>hc_remote_settings := rs\<rparr>) = quiet c c1"
  "quiet c (c1\<lparr>hc_encoder := e\<rparr>) = quiet c c1" "quiet c (c1\<lparr>hc_continuation_stream := k\<rparr>) = quiet c c1"
  "quiet c (c1\<lparr>hc_received_any_frame := f\<rparr>) = quiet c c1" "quiet c (c1\<lparr>hc_peer_last_stream_id := p\<rparr>) = quiet c c1"
  "quiet c (c1\<lparr>hc_next_stream_id := n\<rparr>) = quiet c c1"
  by (simp_all add: quiet_def push_event_def stream_put_def stream_remove_def)

definition neutral :: "Frame \<Rightarrow> bool" where
  "neutral fr \<longleftrightarrow> data_bytes [fr] = 0 \<and> credits [fr] = 0"

lemma ledger_send: "frame_ok fr \<Longrightarrow> neutral fr \<Longrightarrow> ledger [] [fr] c (send_frame fr c)"
  by (simp add: ledger_def neutral_def send_frame_def)

definition moves :: "Frame list \<Rightarrow> H2Connection \<Rightarrow> H2Connection \<Rightarrow> bool" where
  "moves ins c c' \<longleftrightarrow> conn_ok c' \<and> (\<exists>outs. ledger ins outs c c')"

lemma moves_refl: "conn_ok c \<Longrightarrow> moves [] c c"
  using ledger_refl by (auto simp: moves_def)

lemma moves_trans: "moves i1 c c1 \<Longrightarrow> moves i2 c1 c2 \<Longrightarrow> moves (i1 @ i2) c c2"
  using ledger_trans unfolding moves_def by blast

lemma moves_quiet: "moves i c c1 \<Longrightarrow> quiet c1 c2 \<Longrightarrow> conn_ok c2 \<Longrightarrow> moves i c c2"
  using ledger_quiet(1) unfolding moves_def by blast

lemma quiet_moves: "conn_ok c' \<Longrightarrow> quiet c c' \<Longrightarrow> moves [] c c'"
  using quiet_ledger unfolding moves_def by blast

lemma moves_send: "conn_ok c \<Longrightarrow> frame_ok fr \<Longrightarrow> neutral fr \<Longrightarrow> moves [] c (send_frame fr c)"
  using ledger_send unfolding moves_def by fastforce

lemma neutral_frames [simp]: "neutral (FRstStream sid code)" "neutral (FGoAway l code d)" "neutral (FPing a p)" "neutral (FSettings a rs)"
  "neutral (FHeaders sid b es eh pri)" "sid \<noteq> 0 \<Longrightarrow> neutral (FWindowUpdate sid n)"
  by (simp_all add: neutral_def)

lemma fatal_moves:
  assumes "conn_ok c"
  shows "moves [] c (fatal_error e c)"
proof (cases "is_closing c")
  case True
  then show ?thesis using assms by (simp add: fatal_error_def moves_refl)
next
  case False
  let ?l = "u32_saturating_sub (hc_next_stream_id c) 2"
  have "unat ?l < 2 ^ 31"
    using conn_okD(7) [OF assms] by (auto simp: u32_saturating_sub_def unat_sub_fits)
  then have "moves [] c (send_frame (FGoAway ?l (h2_error_code e) []) c)"
    using assms by (intro moves_send) (simp_all add: id31_iff)
  then show ?thesis
    by (rule moves_quiet) (use False assms in \<open>simp_all add: fatal_error_def conn_ok_closing\<close>)
qed

lemma ledger_window_update:
  assumes "frame_ok (FWindowUpdate 0 n)" "fc_window (hc_conn_recv_window c) + uint n < 2 ^ 31"
  shows "ledger [] [FWindowUpdate 0 n] c (send_frame (FWindowUpdate 0 n) (c\<lparr>hc_conn_recv_window := increase_or_keep n (hc_conn_recv_window c)\<rparr>))"
proof -
  have "\<not> 0x7fffffff < fc_window (hc_conn_recv_window c) + uint n" using assms(2) by simp
  then show ?thesis using assms(1) by (simp add: ledger_def send_frame_def increase_or_keep_def fc_increase_def Let_def)
qed

lemma increase_or_keep_window: "fc_window fc + uint n < 2 ^ 31 \<Longrightarrow> fc_window (increase_or_keep n fc) = fc_window fc + uint n"
  by (simp add: increase_or_keep_def fc_increase_def Let_def)

lemma credit_moves:
  assumes ok: "conn_ok c" and n: "0 < n" "unat n < 2 ^ 31" "fc_window (hc_conn_recv_window c) + uint n \<le> hc_initial_recv_window c"
  shows "moves [] c (send_frame (FWindowUpdate 0 n) (c\<lparr>hc_conn_recv_window := increase_or_keep n (hc_conn_recv_window c)\<rparr>))"
proof -
  have w: "0 \<le> fc_window (hc_conn_recv_window c)" "hc_initial_recv_window c < 2 ^ 31"
    using conn_okD(1) [OF ok] by (auto simp: windows_ok_def)
  have lt: "fc_window (hc_conn_recv_window c) + uint n < 2 ^ 31" using n(3) w(2) by linarith
  have "frame_ok (FWindowUpdate 0 n)" using n by (simp add: id31_iff word_gt_0)
  moreover have "conn_ok (c\<lparr>hc_conn_recv_window := increase_or_keep n (hc_conn_recv_window c)\<rparr>)"
    using ok w n(3) increase_or_keep_window [OF lt] by (intro conn_ok_recv_window) simp_all
  ultimately show ?thesis using ledger_window_update [OF _ lt] unfolding moves_def by auto
qed

lemma update_conn_window_moves:
  assumes ok: "conn_ok c"
  shows "moves [] c (update_conn_window c)"
proof -
  let ?w = "fc_window (hc_conn_recv_window c)" and ?n = "of_int (hc_initial_recv_window c - fc_window (hc_conn_recv_window c)) :: u32"
  have w: "0 \<le> ?w" "?w \<le> hc_initial_recv_window c" "hc_initial_recv_window c < 2 ^ 31"
    using conn_okD(1) [OF ok] by (auto simp: windows_ok_def)
  have n: "uint ?n = hc_initial_recv_window c - ?w" using w by (intro uint_of_int_31) auto
  show ?thesis
  proof (cases "?w < WINDOW_UPDATE_THRESHOLD \<and> 0 < ?n")
    case True
    have "unat ?n < 2 ^ 31" unfolding unat_uint_less n using w by linarith
    then have "moves [] c (send_frame (FWindowUpdate 0 ?n) (c\<lparr>hc_conn_recv_window := increase_or_keep ?n (hc_conn_recv_window c)\<rparr>))"
      using True n by (intro credit_moves [OF ok]) simp_all
    moreover have "update_conn_window c = send_frame (FWindowUpdate 0 ?n) (c\<lparr>hc_conn_recv_window := increase_or_keep ?n (hc_conn_recv_window c)\<rparr>)"
      using True by (simp add: update_conn_window_def Let_def send_frame_def)
    ultimately show ?thesis by simp
  next
    case False
    then have "update_conn_window c = c" by (auto simp: update_conn_window_def Let_def)
    then show ?thesis using moves_refl [OF ok] by simp
  qed
qed

lemma update_stream_window_moves:
  assumes ok: "conn_ok c" and sid: "id31 sid" "sid \<noteq> 0"
  shows "moves [] c (update_stream_window sid c)"
proof (cases "stream_get sid c")
  case None
  then show ?thesis using moves_refl [OF ok] by (simp add: update_stream_window_def)
next
  case (Some s)
  let ?w = "fc_window (hs_recv_window s)" and ?n = "of_int (hc_initial_recv_window c - fc_window (hs_recv_window s)) :: u32"
  have sok: "stream_ok c sid s" using conn_okD(5) [OF ok Some] .
  have w: "0 \<le> ?w" "?w \<le> hc_initial_recv_window c" "hc_initial_recv_window c < 2 ^ 31"
    using sok conn_okD(1) [OF ok] by (auto simp: windows_ok_def stream_ok_def)
  have n: "uint ?n = hc_initial_recv_window c - ?w" using w by (intro uint_of_int_31) auto
  let ?c = "stream_put sid (s\<lparr>hs_recv_window := increase_or_keep ?n (hs_recv_window s)\<rparr>) (send_frame (FWindowUpdate sid ?n) c)"
  let ?due = "hs_state s \<noteq> Closed \<and> hs_state s \<noteq> HalfClosedRemote \<and> ?w < WINDOW_UPDATE_THRESHOLD \<and> 0 < ?n"
  show ?thesis
  proof (cases ?due)
    case False
    then have "update_stream_window sid c = c" using Some by (auto simp: update_stream_window_def Let_def)
    then show ?thesis using moves_refl [OF ok] by simp
  next
    case due: True
    then have 2: "0 < ?n" "update_stream_window sid c = ?c"
      using Some by (simp_all add: update_stream_window_def Let_def)
    have "unat ?n < 2 ^ 31" unfolding unat_uint_less n using w by linarith
    then have m: "moves [] c (send_frame (FWindowUpdate sid ?n) c)"
      using 2(1) sid ok by (intro moves_send) (simp_all add: id31_iff word_gt_0)
    have "stream_ok (send_frame (FWindowUpdate sid ?n) c) sid (s\<lparr>hs_recv_window := increase_or_keep ?n (hs_recv_window s)\<rparr>)"
      using sok w n increase_or_keep_window [of "hs_recv_window s" ?n] by (simp add: stream_ok_def send_frame_def)
    then have "conn_ok ?c" using ok by (intro conn_ok_put) simp_all
    then show ?thesis unfolding 2(2) using moves_quiet [OF m] by simp
  qed
qed

lemma maybe_send_moves:
  assumes "conn_ok c" "id31 sid" "sid \<noteq> 0"
  shows "moves [] c (maybe_send_window_updates sid n c)"
proof (cases "n = 0")
  case False
  have 1: "moves [] c (update_conn_window c)" by (rule update_conn_window_moves [OF assms(1)])
  then have "moves [] (update_conn_window c) (update_stream_window sid (update_conn_window c))"
    using assms by (intro update_stream_window_moves) (simp_all add: moves_def)
  then show ?thesis using moves_trans [OF 1] False by (simp add: maybe_send_window_updates_def)
qed (use moves_refl [OF assms(1)] in \<open>simp add: maybe_send_window_updates_def\<close>)

subsection \<open>Frame handlers\<close>

definition handled :: "Frame \<Rightarrow> unit h2_result \<times> H2Connection \<Rightarrow> H2Connection \<Rightarrow> bool" where
  "handled fr x c \<longleftrightarrow> (\<exists>ins. moves ins c (snd x) \<and> (ins = [fr] \<or> ins = [] \<and> fst x \<noteq> Inr ()))"

lemma handled_ok: "moves [fr] c c' \<Longrightarrow> handled fr (r, c') c"
  by (auto simp: handled_def)

lemma handled_error: "moves [] c c' \<Longrightarrow> handled fr (Inl e, c') c"
  by (auto simp: handled_def)

lemma handled_neutral: "moves [] c c' \<Longrightarrow> neutral fr \<Longrightarrow> handled fr (r, c') c"
  by (rule handled_ok) (auto simp: moves_def ledger_def neutral_def)

lemma refuse_data_moves:
  assumes ok: "conn_ok c" and sid: "id31 sid" "sid \<noteq> 0" and n: "unat n < 2 ^ 31" "fc_window (hc_conn_recv_window c) + uint n \<le> hc_initial_recv_window c"
  shows "moves [] c (refuse_data sid n c)"
proof (cases "0 < n")
  case True
  note m = credit_moves [OF ok True n]
  then have "conn_ok (send_frame (FWindowUpdate 0 n) (c\<lparr>hc_conn_recv_window := increase_or_keep n (hc_conn_recv_window c)\<rparr>))" by (simp add: moves_def)
  then show ?thesis using moves_trans [OF m moves_send [of _ "FRstStream sid StreamClosedCode"]] True sid by (simp add: refuse_data_def)
next
  case False
  then show ?thesis using moves_send [OF ok, of "FRstStream sid StreamClosedCode"] sid by (simp add: refuse_data_def)
qed

lemma consume_if_Inr: "consume_if n fc = Inr fc' \<Longrightarrow> fc_window fc' = fc_window fc - uint n \<and> (uint n \<noteq> 0 \<longrightarrow> uint n \<le> fc_window fc)"
  by (auto simp: consume_if_def fc_consume_iff word_gt_0 split: if_splits)

lemma data_len_31: "length p < 2 ^ 24 \<Longrightarrow> unat (of_nat (length p) :: u32) < 2 ^ 31 \<and> uint (of_nat (length p) :: u32) = int (length p)"
  by (simp add: unat_of_nat_fits uint_of_length)

lemma debit_moves:
  assumes ok: "conn_ok c" and w: "fc_window w = fc_window (hc_conn_recv_window c) - int (length p)" "0 \<le> fc_window w"
  shows "moves [FData sid p es] c (c\<lparr>hc_conn_recv_window := w\<rparr>)"
proof -
  have "conn_ok (c\<lparr>hc_conn_recv_window := w\<rparr>)"
    using w conn_okD(1) [OF ok] by (intro conn_ok_recv_window [OF ok]) (auto simp: windows_ok_def)
  moreover have "ledger [FData sid p es] [] c (c\<lparr>hc_conn_recv_window := w\<rparr>)" using w(1) by (simp add: ledger_def)
  ultimately show ?thesis by (auto simp: moves_def)
qed

lemma handle_data_handled:
  assumes ok: "conn_ok c" and fr: "frame_ok (FData sid p es)" "length p < 2 ^ 24" and k: "hc_continuation_stream c = None"
  shows "handled (FData sid p es) (handle_data sid p es c) c"
proof -
  let ?n = "of_nat (length p) :: u32"
  have n: "unat ?n < 2 ^ 31" "uint ?n = int (length p)" using data_len_31 [OF fr(2)] by auto
  have sid: "id31 sid" "sid \<noteq> 0" using fr(1) by auto
  have wok: "0 \<le> fc_window (hc_conn_recv_window c)" "fc_window (hc_conn_recv_window c) \<le> hc_initial_recv_window c"
    using conn_okD(1) [OF ok] by (auto simp: windows_ok_def)
  show ?thesis
  proof (cases "consume_if ?n (hc_conn_recv_window c)")
    case (Inl e)
    then show ?thesis using handled_error [OF moves_refl [OF ok]] by (simp add: handle_data_def Let_def)
  next
    case (Inr w)
    let ?c1 = "c\<lparr>hc_conn_recv_window := w\<rparr>"
    have w: "fc_window w = fc_window (hc_conn_recv_window c) - int (length p)" "0 \<le> fc_window w"
      using consume_if_Inr [OF Inr] n(2) wok(1) by (auto split: if_splits)
    note m1 = debit_moves [OF ok w]
    have ok1: "conn_ok ?c1" using m1 [of sid es] by (simp add: moves_def)
    have refuse: "moves [] ?c1 (refuse_data sid ?n ?c1)"
      using w(1) wok n by (intro refuse_data_moves [OF ok1 sid n(1)]) simp
    show ?thesis
    proof (cases "stream_get sid c")
      case None
      then show ?thesis using handled_ok [OF moves_trans [OF m1 refuse, simplified]] Inr by (simp add: handle_data_def Let_def)
    next
      case (Some s)
      have sok: "stream_ok ?c1 sid s" using conn_okD(5) [OF ok1] Some by simp
      show ?thesis
      proof (cases "hs_state s = Closed \<or> hs_state s = HalfClosedRemote")
        case True
        have m2: "moves [FData sid p es] c (refuse_data sid ?n ?c1)" using moves_trans [OF m1 refuse] by simp
        have "hc_continuation_stream (refuse_data sid ?n ?c1) = None" using k by (simp add: refuse_data_def send_frame_def)
        then have "conn_ok (stream_remove sid (refuse_data sid ?n ?c1))" using m2 by (intro conn_ok_remove) (simp_all add: moves_def)
        then have "moves [FData sid p es] c (stream_remove sid (refuse_data sid ?n ?c1))" using moves_quiet [OF m2] by simp
        then show ?thesis using handled_ok True Some Inr by (simp add: handle_data_def Let_def)
      next
        case live: False
        show ?thesis
        proof (cases "consume_if ?n (hs_recv_window s)")
          case (Inl e)
          then show ?thesis using handled_ok [OF m1] live Some Inr by (simp add: handle_data_def Let_def)
        next
          case sw: (Inr sw)
          have "0 \<le> fc_window (hs_recv_window s)" using sok by (simp add: stream_ok_def)
          then have "0 \<le> fc_window sw" "fc_window sw \<le> fc_window (hs_recv_window s)" using consume_if_Inr [OF sw] n(2) by auto
          then have sok1: "stream_ok ?c1 sid (s\<lparr>hs_recv_window := sw\<rparr>)" using sok by (auto simp: stream_ok_def)
          define s2 where "s2 = (if es then close_remote (s\<lparr>hs_recv_window := sw\<rparr>) else s\<lparr>hs_recv_window := sw\<rparr>)"
          define c2 where "c2 = push_event (H2Data sid p es) (stream_put sid s2 ?c1)"
          have ok2: "conn_ok c2" using sok1 unfolding c2_def s2_def by (simp add: conn_ok_put [OF ok1])
          have m2: "moves [FData sid p es] c c2" by (rule moves_quiet [OF m1 _ ok2]) (simp add: c2_def)
          have m3: "moves [FData sid p es] c (maybe_send_window_updates sid ?n c2)"
            using moves_trans [OF m2 maybe_send_moves [OF ok2 sid]] by simp
          have e: "handle_data sid p es c = (Inr (), if es \<and> hs_state s2 = Closed then stream_remove sid (maybe_send_window_updates sid ?n c2)
              else maybe_send_window_updates sid ?n c2)"
            using live Some Inr sw by (simp add: handle_data_def Let_def s2_def c2_def)
          have kn: "hc_continuation_stream (maybe_send_window_updates sid ?n c2) = None"
            using k by (auto simp: maybe_send_window_updates_def update_conn_window_def update_stream_window_def Let_def c2_def
              send_frame_def push_event_def stream_put_def split: option.splits)
          have "moves [FData sid p es] c (stream_remove sid (maybe_send_window_updates sid ?n c2))"
            using kn m3 by (intro moves_quiet [OF m3] conn_ok_remove) (simp_all add: moves_def)
          then show ?thesis unfolding e using handled_ok m3 by auto
        qed
      qed
    qed
  qed
qed

lemma adjust_streams_fst: "map fst (snd (adjust_streams d ss)) = map fst ss"
  by (induction ss) (auto split: sum.splits prod.splits)

lemma adjust_streams_get:
  "map_of (snd (adjust_streams d ss)) sid = Some s' \<Longrightarrow>
   \<exists>s. map_of ss sid = Some s \<and> (s' = s \<or> (\<exists>w. s' = s\<lparr>hs_send_window := w\<rparr> \<and> fc_window w < 2 ^ 31))"
  by (induction ss) (auto simp: fc_adjust_iff split: sum.splits prod.splits if_splits)

lemma adjust_streams_ok:
  assumes "streams_ok c"
  shows "streams_ok (c\<lparr>hc_streams := snd (adjust_streams d (hc_streams c))\<rparr>)"
  unfolding streams_ok_def
proof (intro conjI allI impI)
  show "distinct (map fst (hc_streams (c\<lparr>hc_streams := snd (adjust_streams d (hc_streams c))\<rparr>)))"
    using assms by (simp add: streams_ok_def adjust_streams_fst)
  fix sid s' assume "stream_get sid (c\<lparr>hc_streams := snd (adjust_streams d (hc_streams c))\<rparr>) = Some s'"
  then obtain s where s: "stream_get sid c = Some s" "s' = s \<or> (\<exists>w. s' = s\<lparr>hs_send_window := w\<rparr> \<and> fc_window w < 2 ^ 31)"
    using adjust_streams_get [of d "hc_streams c" sid s'] by (auto simp: stream_get_def)
  then have "stream_ok c sid s" using assms by (simp add: streams_ok_def)
  then show "stream_ok (c\<lparr>hc_streams := snd (adjust_streams d (hc_streams c))\<rparr>) sid s'" using s(2) by (auto simp: stream_ok_def)
qed

lemma encoder_ok_update: "encoder_ok e \<Longrightarrow> n \<le> 2 ^ 32 \<Longrightarrow> encoder_ok (enc_update_max_table_size n e)"
  by (auto simp: encoder_ok_def pending_le_def enc_update_max_table_size_def split: option.splits)

lemma stream_get_adjusted:
  "stream_get sid (c\<lparr>hc_streams := snd (adjust_streams d (hc_streams c))\<rparr>) = None \<longleftrightarrow> stream_get sid c = None"
  unfolding stream_get_def by (simp add: map_of_eq_None_iff flip: set_map) (simp add: adjust_streams_fst)

lemma conn_ok_settings:
  assumes ok: "conn_ok c" and rs: "settings_valid rs"
  shows "conn_ok (c\<lparr>hc_remote_settings := rs, hc_encoder := enc_update_max_table_size (unat (header_table_size rs)) (hc_encoder c)\<rparr>)"
proof -
  have "unat (header_table_size rs) \<le> 2 ^ 32" using unsigned_less [of "header_table_size rs", where 'a = nat] by simp
  then have "encoder_ok (enc_update_max_table_size (unat (header_table_size rs)) (hc_encoder c))"
    using conn_okD(2) [OF ok] by (intro encoder_ok_update)
  moreover have "0 < max_frame_size rs" "uint (initial_window_size rs) < 2 ^ 31"
    using rs by (auto simp: settings_valid_def word_le_def word_less_def)
  ultimately show ?thesis using ok by (simp add: conn_ok_def streams_ok_def stream_ok_def windows_ok_def)
qed

lemma conn_ok_adjusted: "conn_ok c \<Longrightarrow> conn_ok (c\<lparr>hc_streams := snd (adjust_streams d (hc_streams c))\<rparr>)"
  using adjust_streams_ok [of c d] by (simp add: conn_ok_def windows_ok_def stream_get_adjusted del: not_None_eq)

lemma handle_settings_handled:
  assumes ok: "conn_ok c" and fr: "frame_ok (FSettings ack rs)"
  shows "handled (FSettings ack rs) (handle_settings ack rs c) c"
proof (cases ack)
  case True
  have "moves [] c (push_event H2SettingsAcknowledged c)" using ok by (intro quiet_moves) simp_all
  then show ?thesis using True handled_neutral by (simp add: handle_settings_def)
next
  case False
  let ?d = "uint (initial_window_size rs) - uint (initial_window_size (hc_remote_settings c))"
  define c1 where "c1 = c\<lparr>hc_remote_settings := rs, hc_encoder := enc_update_max_table_size (unat (header_table_size rs)) (hc_encoder c)\<rparr>"
  define x where "x = (if ?d \<noteq> 0 then adjust_streams ?d (hc_streams c1) else (Inr (), hc_streams c1))"
  define c2 where "c2 = c1\<lparr>hc_streams := snd x\<rparr>"
  have ok1: "conn_ok c1" using conn_ok_settings [OF ok] fr False by (simp add: c1_def)
  have ok2: "conn_ok c2" using conn_ok_adjusted [OF ok1, of ?d] ok1 by (simp add: c2_def x_def)
  have q2: "quiet c c2" by (simp add: c2_def c1_def)
  have e0: "handle_settings ack rs c =
      (case x of (Inl e, ss) \<Rightarrow> (Inl e, c1\<lparr>hc_streams := ss\<rparr>)
       | (Inr _, ss) \<Rightarrow> let c2 = send_frame (FSettings True settings_default) (c1\<lparr>hc_streams := ss\<rparr>) in
            (Inr (), if hc_state c2 = WaitingPreface then c2\<lparr>hc_state := Ready\<rparr> else c2))"
    using False unfolding handle_settings_def Let_def x_def c1_def by simp
  show ?thesis
  proof (cases "fst x")
    case (Inl e)
    have "handle_settings ack rs c = (Inl e, c2)"
      using Inl unfolding e0 c2_def by (cases x) simp
    then show ?thesis using handled_error [OF quiet_moves [OF ok2 q2]] by simp
  next
    case (Inr u)
    define c3 where "c3 = send_frame (FSettings True settings_default) c2"
    have e: "handle_settings ack rs c = (Inr (), if hc_state c3 = WaitingPreface then c3\<lparr>hc_state := Ready\<rparr> else c3)"
      using Inr unfolding e0 c3_def c2_def by (cases x) (simp add: Let_def)
    have m: "moves [] c c3" unfolding c3_def
      using moves_trans [OF quiet_moves [OF ok2 q2] moves_send [OF ok2]] by simp
    have "hc_state c3 = WaitingPreface \<Longrightarrow> conn_ok (c3\<lparr>hc_state := Ready\<rparr>)"
      using m by (auto simp: moves_def conn_ok_def streams_ok_def stream_ok_def windows_ok_def is_closing_def)
    then have "moves [] c (snd (handle_settings ack rs c))" using moves_quiet [OF m] m by (simp add: e)
    then show ?thesis using handled_neutral e by simp
  qed
qed

lemma handle_window_update_handled:
  assumes ok: "conn_ok c" and fr: "frame_ok (FWindowUpdate sid n)" and k: "hc_continuation_stream c = None"
  shows "handled (FWindowUpdate sid n) (handle_window_update sid n c) c"
proof (cases "sid = 0")
  case True
  show ?thesis
  proof (cases "fc_increase n (hc_conn_send_window c)")
    case (Inl e)
    then show ?thesis using True handled_error [OF moves_refl [OF ok]] by (simp add: handle_window_update_def)
  next
    case (Inr w)
    have w: "fc_window w = fc_window (hc_conn_send_window c) + uint n" "fc_window w < 2 ^ 31" using Inr by (auto simp: fc_increase_iff)
    have "0 \<le> fc_window w" using w conn_okD(1) [OF ok] by (simp add: windows_ok_def)
    then have "moves [FWindowUpdate sid n] c (c\<lparr>hc_conn_send_window := w\<rparr>)"
      using conn_ok_send_window [OF ok _ w(2)] w(1) True unfolding moves_def
      by (intro conjI exI [of _ "[]"]) (simp_all add: ledger_def)
    then show ?thesis using True Inr handled_ok by (simp add: handle_window_update_def)
  qed
next
  case nz: False
  then have ne: "neutral (FWindowUpdate sid n)" by simp
  have sid: "id31 sid" using fr by simp
  show ?thesis
  proof (cases "stream_get sid c")
    case None
    have "moves [] c (send_frame (FRstStream sid StreamClosedCode) c)" using ok sid nz by (intro moves_send) simp_all
    then show ?thesis using None nz handled_neutral [OF _ ne] by (simp add: handle_window_update_def)
  next
    case (Some s)
    have sok: "stream_ok c sid s" using conn_okD(5) [OF ok Some] .
    show ?thesis
    proof (cases "fc_increase n (hs_send_window s)")
      case (Inr w)
      have "fc_window w < 2 ^ 31" using Inr by (auto simp: fc_increase_iff)
      then have "conn_ok (stream_put sid (s\<lparr>hs_send_window := w\<rparr>) c)" using sok by (intro conn_ok_put [OF ok]) (auto simp: stream_ok_def)
      then have "moves [] c (stream_put sid (s\<lparr>hs_send_window := w\<rparr>) c)" by (rule quiet_moves) simp
      then show ?thesis using Some nz Inr handled_neutral [OF _ ne] by (simp add: handle_window_update_def)
    next
      case (Inl e)
      have r: "conn_ok (stream_remove sid c)" using conn_ok_remove [OF ok] k by simp
      then have "moves [] c (stream_remove sid c)" by (rule quiet_moves) simp
      then have m: "moves [] c (send_frame (FRstStream sid FlowControlErrorCode) (stream_remove sid c))"
        using moves_trans moves_send [OF r, of "FRstStream sid FlowControlErrorCode"] sid nz by fastforce
      have "moves [] c (push_event (H2StreamReset sid FlowControlErrorCode) (send_frame (FRstStream sid FlowControlErrorCode) (stream_remove sid c)))"
        by (rule moves_quiet [OF m]) (use r in simp_all)
      then show ?thesis using Some nz Inl handled_neutral [OF _ ne] by (simp add: handle_window_update_def)
    qed
  qed
qed

lemma go_away_moves:
  assumes ok: "conn_ok c"
  shows "moves [] c (go_away_streams l code d c)"
proof -
  define c1 where "c1 = push_event (H2GoAway l code d) (c\<lparr>hc_peer_last_stream_id := Some l, hc_state := Closing\<rparr>)"
  have "conn_ok c1 \<and> quiet c c1 \<and> is_closing c1" using ok
    by (simp add: c1_def conn_ok_closing) (simp add: is_closing_def)
  then have "conn_ok c' \<and> quiet c c' \<and> is_closing c'"
    if "c' = fold (\<lambda>sid c. push_event (H2StreamReset sid RefusedStream) (stream_remove sid c)) ids c1" for ids c'
    using that by (induction ids arbitrary: c1) (simp_all add: conn_ok_remove)
  then show ?thesis unfolding go_away_streams_def Let_def c1_def [symmetric] using quiet_moves by blast
qed

lemma handle_goaway_handled: "conn_ok c \<Longrightarrow> handled (FGoAway l code d) (handle_goaway l code d c) c"
  using go_away_moves [of c l code d] handled_neutral [of c _ "FGoAway l code d"] moves_refl [of c]
  by (auto simp: handle_goaway_def split: option.splits)

lemma dec_decode_total:
  "dec_ok d \<Longrightarrow> length buf < 2 ^ 56 \<Longrightarrow> \<exists>r d'. dec_decode dbg buf d = Ret (r, d') \<and> dec_ok d'"
  using decode_loop_total [of "\<lparr>bs_headers = [], bs_seen_header = False, bs_decoder = d\<rparr>" buf dbg]
  by (auto simp: dec_decode_def block_ok_def)

lemma emit_headers_moves:
  assumes ok: "conn_ok c" and k: "hc_continuation_stream c = None"
  shows "moves [] c (snd (emit_headers sid hs es c))"
proof -
  have "conn_ok (snd (emit_headers sid hs es c)) \<and> quiet c (snd (emit_headers sid hs es c))"
  proof (cases "list_limit_check (hc_local_settings c) (sum_list (map hf_size hs)) header_list_too_long")
    case (Inr u)
    show ?thesis
    proof (cases "stream_get sid c")
      case (Some s)
      define s2 where "s2 = (let s1 = (if \<not> hs_received_initial_response s then s\<lparr>hs_received_initial_response := True\<rparr> else s)
        in if es then close_remote s1 else s1)"
      define c1 where "c1 = push_event (if \<not> hs_received_initial_response s then H2Response sid hs es else H2Trailers sid hs) (stream_put sid s2 c)"
      have "stream_ok c sid s2" using conn_okD(5) [OF ok Some] by (simp add: s2_def Let_def)
      then have ok1: "conn_ok c1" "quiet c c1" using conn_ok_put [OF ok] by (simp_all add: c1_def)
      have "hc_continuation_stream c1 = None" using k by (simp add: c1_def push_event_def stream_put_def)
      then have "conn_ok (stream_remove sid c1)" using conn_ok_remove [OF ok1(1)] by simp
      moreover have "snd (emit_headers sid hs es c) \<in> {c, c1, stream_remove sid c1}"
        using Inr Some unfolding emit_headers_def Let_def c1_def s2_def by (auto split: sum.splits)
      ultimately show ?thesis using ok ok1 by auto
    qed (use Inr ok in \<open>simp add: emit_headers_def\<close>)
  qed (use ok in \<open>simp add: emit_headers_def\<close>)
  then show ?thesis using quiet_moves by blast
qed

lemma decode_and_emit_moves:
  assumes ok: "conn_ok c" and k: "hc_continuation_stream c = None"
  shows "\<exists>x. decode_and_emit_headers dbg sid b es c = Ret x \<and> moves [] c (snd x)"
proof (cases "list_limit_check (hc_local_settings c) (length b) header_block_too_long")
  case (Inl e)
  then show ?thesis using moves_refl [OF ok] by (simp add: decode_and_emit_headers_def)
next
  case (Inr u)
  obtain limit where limit: "max_header_list_size (hc_local_settings c) = Some limit" using ok by (auto simp: conn_ok_def)
  then have "length b \<le> unat limit" using Inr by (auto simp: list_limit_check_def split: if_splits)
  also have "\<dots> < 2 ^ 32" using unsigned_less [of limit, where 'a = nat] by simp
  finally have "length b < 2 ^ 56" by simp
  then obtain r d where d: "dec_decode dbg b (hc_decoder c) = Ret (r, d)" "dec_ok d" using dec_decode_total conn_okD(3) [OF ok] by blast
  have ok1: "conn_ok (c\<lparr>hc_decoder := d\<rparr>)" using conn_ok_decoder [OF ok d(2)] .
  then have m: "moves [] c (c\<lparr>hc_decoder := d\<rparr>)" by (rule quiet_moves) simp
  show ?thesis
  proof (cases r)
    case (Inl e)
    then show ?thesis using m d(1) Inr by (simp add: decode_and_emit_headers_def)
  next
    case (Inr hs)
    have "moves [] (c\<lparr>hc_decoder := d\<rparr>) (snd (emit_headers sid hs es (c\<lparr>hc_decoder := d\<rparr>)))"
      using emit_headers_moves [OF ok1] k by simp
    then show ?thesis using moves_trans [OF m] d(1) Inr \<open>list_limit_check _ _ _ = Inr u\<close> by (simp add: decode_and_emit_headers_def)
  qed
qed

lemma handle_headers_handled:
  assumes ok: "conn_ok c" and k: "hc_continuation_stream c = None"
  shows "\<exists>x. handle_headers dbg sid b es eh c = Ret x \<and> moves [] c (snd x)"
proof (cases "stream_get sid c")
  case None
  then show ?thesis using moves_refl [OF ok] by (simp add: handle_headers_def)
next
  case (Some s)
  have sok: "stream_ok c sid s" using conn_okD(5) [OF ok Some] .
  show ?thesis
  proof (cases eh)
    case True
    let ?c = "stream_put sid (s\<lparr>hs_header_buf := []\<rparr>) c"
    have ok1: "conn_ok ?c" using sok by (intro conn_ok_put [OF ok]) simp
    then have m: "moves [] c ?c" by (rule quiet_moves) simp
    have "hc_continuation_stream ?c = None" using k by (simp add: stream_put_def)
    then obtain x where x: "decode_and_emit_headers dbg sid (hs_header_buf s @ b) es ?c = Ret x" "moves [] ?c (snd x)"
      using decode_and_emit_moves [OF ok1] by blast
    then show ?thesis using moves_trans [OF m x(2)] True Some by (simp add: handle_headers_def)
  next
    case False
    let ?c = "(stream_put sid (s\<lparr>hs_header_buf := hs_header_buf s @ b, hs_receiving_headers := True, hs_headers_end_stream := es\<rparr>)
      c)\<lparr>hc_continuation_stream := Some sid\<rparr>"
    have "conn_ok ?c" using sok by (intro conn_ok_continuation conn_ok_put [OF ok]) simp_all
    then have "moves [] c ?c" by (rule quiet_moves) simp
    then show ?thesis using False Some by (simp add: handle_headers_def)
  qed
qed

lemma handle_continuation_handled:
  assumes ok: "conn_ok c"
  shows "\<exists>x. handle_continuation dbg sid b eh c = Ret x \<and> moves [] c (snd x)"
proof (cases "stream_get sid c")
  case None
  then show ?thesis using moves_refl [OF ok] by (simp add: handle_continuation_def)
next
  case (Some s)
  have sok: "stream_ok c sid s" using conn_okD(5) [OF ok Some] .
  show ?thesis
  proof (cases eh)
    case True
    let ?c = "(stream_put sid (s\<lparr>hs_header_buf := [], hs_receiving_headers := False\<rparr>) c)\<lparr>hc_continuation_stream := None\<rparr>"
    have ok1: "conn_ok ?c" using sok by (intro conn_ok_continuation conn_ok_put [OF ok]) simp_all
    then have m: "moves [] c ?c" by (rule quiet_moves) simp
    have "hc_continuation_stream ?c = None" by simp
    then obtain x where x: "decode_and_emit_headers dbg sid (hs_header_buf s @ b) (hs_headers_end_stream s) ?c = Ret x" "moves [] ?c (snd x)"
      using decode_and_emit_moves [OF ok1] by blast
    then show ?thesis using moves_trans [OF m x(2)] True Some by (simp add: handle_continuation_def Let_def)
  next
    case False
    let ?c = "stream_put sid (s\<lparr>hs_header_buf := hs_header_buf s @ b\<rparr>) c"
    have "conn_ok ?c" using sok by (intro conn_ok_put [OF ok]) simp_all
    then have "moves [] c ?c" by (rule quiet_moves) simp
    then show ?thesis using False Some by (simp add: handle_continuation_def Let_def)
  qed
qed

lemma neutral_ex: "\<exists>x. m = Ret x \<and> moves [] c (snd x) \<Longrightarrow> neutral fr \<Longrightarrow> \<exists>x. m = Ret x \<and> handled fr x c"
  using handled_neutral by (metis prod.collapse)

lemma dispatch_handled:
  assumes ok: "conn_ok c" and fr: "frame_ok fr" "frame_payload_len fr < 2 ^ 24"
    and k: "hc_continuation_stream c = None \<or> (\<exists>sid b eh. fr = FContinuation sid b eh)"
  shows "\<exists>x. dispatch_frame dbg fr c = Ret x \<and> handled fr x c"
proof (cases fr)
  case (FData sid p es)
  then show ?thesis using handle_data_handled [OF ok, of sid p es] fr k by simp
next
  case (FHeaders sid b es eh pri)
  then have k': "hc_continuation_stream c = None" using k by simp
  show ?thesis unfolding FHeaders dispatch_frame.simps by (rule neutral_ex [OF handle_headers_handled [OF ok k']]) simp
next
  case (FPriority sid pri)
  then show ?thesis using handled_neutral [OF moves_refl [OF ok]] by (simp add: neutral_def)
next
  case (FRstStream sid code)
  then have "conn_ok (push_event (H2StreamReset sid code) (stream_remove sid c))" using conn_ok_remove [OF ok] k by simp
  then show ?thesis using handled_neutral [OF quiet_moves] FRstStream by simp
next
  case (FSettings ack rs)
  then show ?thesis using handle_settings_handled [OF ok] fr by simp
next
  case (FPushPromise sid psid b eh)
  then show ?thesis using handled_error [OF moves_refl [OF ok]] ok by (simp add: conn_ok_def)
next
  case (FPing ack p)
  have "moves [] c (push_event (H2PingAcknowledged p) c)" using ok by (intro quiet_moves) simp_all
  moreover have "moves [] c (send_frame (FPing True p) c)" using ok fr FPing by (intro moves_send) simp_all
  ultimately show ?thesis using FPing handled_neutral by simp
next
  case (FGoAway l code d)
  then show ?thesis using handle_goaway_handled [OF ok] by simp
next
  case (FWindowUpdate sid n)
  then show ?thesis using handle_window_update_handled [OF ok] fr k by simp
next
  case (FContinuation sid b eh)
  show ?thesis unfolding FContinuation dispatch_frame.simps
    by (rule neutral_ex [OF handle_continuation_handled [OF ok]]) (simp add: neutral_def)
next
  case (FUnknown t fl sid p)
  then show ?thesis using handled_neutral [OF moves_refl [OF ok]] by (simp add: neutral_def)
qed

lemma handled_quiet: "quiet c c1 \<Longrightarrow> handled fr x c1 \<Longrightarrow> handled fr x c"
  unfolding handled_def moves_def using ledger_quiet(2) by blast

lemma handle_frame_handled:
  assumes ok: "conn_ok c" and fr: "frame_ok fr" "frame_payload_len fr < 2 ^ 24"
  shows "\<exists>x. handle_frame dbg fr c = Ret x \<and> handled fr x c"
proof (cases "preface_check fr c")
  case (Inl e)
  then show ?thesis using handled_error [OF moves_refl [OF ok]] by (simp add: handle_frame_def)
next
  case (Inr u)
  let ?c = "c\<lparr>hc_received_any_frame := True\<rparr>"
  have ok1: "conn_ok ?c" using ok by simp
  show ?thesis
  proof (cases "continuation_check fr ?c")
    case (Inl e)
    have "moves [] c ?c" by (rule quiet_moves [OF ok1]) simp
    then show ?thesis using handled_error Inl Inr by (simp add: handle_frame_def)
  next
    case k: (Inr u')
    then have "hc_continuation_stream ?c = None \<or> (\<exists>sid b eh. fr = FContinuation sid b eh)"
      by (auto simp: continuation_check_def split: option.splits Frame.splits)
    from dispatch_handled [OF ok1 fr this, of dbg] show ?thesis
      using k Inr handled_quiet [of c ?c] by (auto simp: handle_frame_def)
  qed
qed

subsection \<open>Requests\<close>

lemma encode_headers_total:
  "dt_ok t \<Longrightarrow> list_all (\<lambda>h. hf_size h < 2 ^ 62) hs \<Longrightarrow> \<exists>b t'. encode_headers dbg hs t = Ret (b, t') \<and> dt_ok t'"
proof (induction hs arbitrary: t)
  case (Cons h hs)
  let ?st = "\<lparr>bs_headers = [], bs_seen_header = False, bs_decoder = \<lparr>dec_table = t, dec_max_table_size = 0\<rparr>\<rparr>"
  obtain b t1 where b: "encode_header dbg h t = Ret (b, t1)" "dt_ok t1"
    using encode_header_sync [of ?st h dbg] Cons.prems by (auto simp: MAX_HEADER_FIELDS_def)
  obtain b2 t2 where "encode_headers dbg hs t1 = Ret (b2, t2)" "dt_ok t2" using Cons.IH [OF b(2)] Cons.prems(2) by auto
  then show ?case using b(1) by simp
qed simp

lemma announce_total:
  assumes "encoder_ok e" "list_all (\<lambda>n. n \<le> 2 ^ 32) ms"
  shows "\<exists>b e'. announce dbg ms e = Ret (b, e') \<and> encoder_ok e'"
  using assms
proof (induction ms arbitrary: e)
  case (Cons m ms)
  let ?e = "e\<lparr>enc_table := table_of m (dt_entries (enc_table e))\<rparr>"
  have t: "dt_ok (enc_table e)" using Cons.prems(1) by (simp add: encoder_ok_def)
  have 1: "enc_set_max_table_size dbg m e = Ret (encode_prefix_int m 5 0x20, ?e)"
    using dt_set_max_size_eq [OF t] by (simp add: enc_set_max_table_size_def)
  have "m < 2 ^ 62" using Cons.prems(2) by simp
  then have e: "encoder_ok ?e" using Cons.prems(1) table_of_ok by (simp add: encoder_ok_def pending_le_def)
  obtain b e' where "announce dbg ms ?e = Ret (b, e')" "encoder_ok e'" using Cons.IH [OF e] Cons.prems(2) by auto
  then show ?case using 1 by simp
qed simp

lemma emit_pending_total:
  assumes e: "encoder_ok e"
  shows "\<exists>b e'. emit_pending dbg e = Ret (b, e') \<and> encoder_ok e'"
proof (cases "enc_pending_latest e")
  case None
  then show ?thesis using e by (simp add: emit_pending_def)
next
  case (Some latest)
  define m where "m = (case enc_pending_min e of Some m \<Rightarrow> m | None \<Rightarrow> latest)"
  have "latest \<le> 2 ^ 32" "m \<le> 2 ^ 32" using e Some by (auto simp: encoder_ok_def pending_le_def m_def split: option.splits)
  then have "list_all (\<lambda>n. n \<le> 2 ^ 32) ((if m \<noteq> latest then [m] else []) @ [latest])" by simp
  moreover have "encoder_ok (e\<lparr>enc_pending_latest := None, enc_pending_min := None\<rparr>)" using e by (simp add: encoder_ok_def pending_le_def)
  ultimately show ?thesis unfolding emit_pending_announce Some Let_def option.case m_def [symmetric] by (intro announce_total)
qed

lemma enc_encode_total:
  assumes "encoder_ok e" "list_all (\<lambda>h. hf_size h < 2 ^ 62) hs"
  shows "\<exists>b e'. enc_encode dbg hs e = Ret (b, e') \<and> encoder_ok e'"
proof -
  obtain b1 e1 where 1: "emit_pending dbg e = Ret (b1, e1)" "encoder_ok e1" using emit_pending_total [OF assms(1)] by blast
  have "dt_ok (enc_table e1)" using 1(2) by (simp add: encoder_ok_def)
  then obtain b2 t where "encode_headers dbg hs (enc_table e1) = Ret (b2, t)" "dt_ok t"
    using encode_headers_total [OF _ assms(2)] by blast
  then show ?thesis using 1 by (simp add: enc_encode_def encoder_ok_def pending_le_def)
qed

lemma conn_ok_next:
  assumes ok: "conn_ok c" and e: "encoder_ok e" and n: "hc_next_stream_id c \<le> MAX_STREAM_ID"
  shows "conn_ok (c\<lparr>hc_next_stream_id := u32_saturating_add (hc_next_stream_id c) 2, hc_encoder := e\<rparr>)"
    "unat (u32_saturating_add (hc_next_stream_id c) 2) = unat (hc_next_stream_id c) + 2"
proof -
  have le: "unat (hc_next_stream_id c) \<le> 2 ^ 31 - 1" using n by (simp add: MAX_STREAM_ID_def word_le_nat_alt)
  then have "unat (hc_next_stream_id c) + unat (2 :: u32) < 2 ^ 32" by simp
  then show n2: "unat (u32_saturating_add (hc_next_stream_id c) 2) = unat (hc_next_stream_id c) + 2"
    using unat_add_fits [of "hc_next_stream_id c" 2] by (simp add: u32_saturating_add_def)
  have "stream_ok c sid s \<Longrightarrow> stream_ok (c\<lparr>hc_next_stream_id := u32_saturating_add (hc_next_stream_id c) 2, hc_encoder := e\<rparr>) sid s" for sid s
    using n2 by (simp add: stream_ok_def)
  then show "conn_ok (c\<lparr>hc_next_stream_id := u32_saturating_add (hc_next_stream_id c) 2, hc_encoder := e\<rparr>)"
    using ok e n2 le by (simp add: conn_ok_def streams_ok_def windows_ok_def)
qed

lemma send_request_moves:
  assumes ok: "conn_ok c" and hs: "list_all (\<lambda>h. hf_size h < 2 ^ 62) hs"
  shows "\<exists>x. hc_send_request dbg hs es c = Ret x \<and> moves [] c (snd x)"
proof (cases "is_closing c \<or> (case max_concurrent_streams (hc_remote_settings c) of Some limit \<Rightarrow> limit \<le> of_nat (active_streams c) | None \<Rightarrow> False)
    \<or> MAX_STREAM_ID < hc_next_stream_id c")
  case True
  then have "hc_send_request dbg hs es c = Ret (refused, c)" by (auto simp: hc_send_request_def)
  then show ?thesis using moves_refl [OF ok] by simp
next
  case False
  then have n: "hc_next_stream_id c \<le> MAX_STREAM_ID" by auto
  obtain b e where e: "enc_encode dbg hs (hc_encoder c) = Ret (b, e)" "encoder_ok e" using enc_encode_total [OF conn_okD(2) [OF ok] hs] by blast
  let ?sid = "hc_next_stream_id c"
  define c1 where "c1 = c\<lparr>hc_next_stream_id := u32_saturating_add ?sid 2, hc_encoder := e\<rparr>"
  define c2 where "c2 = send_frame (FHeaders ?sid b es True None) c1"
  define s where "s = (let s = hs_new (hc_initial_recv_window c) (uint (initial_window_size (hc_remote_settings c)))
    in if es then s\<lparr>hs_state := HalfClosedLocal\<rparr> else s)"
  have ok1: "conn_ok c1" and n2: "unat (hc_next_stream_id c1) = unat ?sid + 2"
    using conn_ok_next [OF ok e(2) n] by (simp_all add: c1_def)
  have odd: "odd (unat ?sid)" using conn_okD(6) [OF ok] .
  then have nz: "?sid \<noteq> 0" by auto
  have id: "id31 ?sid" using n by (simp add: id31_iff MAX_STREAM_ID_def word_le_nat_alt)
  have m1: "moves [] c c1" by (rule quiet_moves [OF ok1]) (simp add: c1_def)
  have m2: "moves [] c c2" unfolding c2_def using moves_trans [OF m1 moves_send [OF ok1]] id nz by simp
  have "0 \<le> hc_initial_recv_window c" using conn_okD(1) [OF ok] by (simp add: windows_ok_def)
  then have "stream_ok c2 ?sid s"
    using n2 odd conn_okD(9) [OF ok] by (simp add: stream_ok_def s_def Let_def hs_new_def fc_new_def c2_def c1_def send_frame_def)
  then have ok3: "conn_ok (stream_put ?sid s c2)" using m2 by (intro conn_ok_put) (simp_all add: moves_def)
  have m3: "moves [] c (stream_put ?sid s c2)" by (rule moves_quiet [OF m2 _ ok3]) simp
  have "hc_send_request dbg hs es c = Ret (Inr ?sid, stream_put ?sid s c2)"
    using False e(1) by (simp add: hc_send_request_def Let_def s_def c2_def c1_def send_frame_def)
  then show ?thesis using m3 by simp
qed

lemma data_frames_ledger:
  "data_bytes (data_frames sid es ps) = int (length (concat ps))" "credits (data_frames sid es ps) = 0"
  "id31 sid \<Longrightarrow> sid \<noteq> 0 \<Longrightarrow> list_all frame_ok (data_frames sid es ps)"
  by (induction ps) simp_all

lemma stream_id_ok: "conn_ok c \<Longrightarrow> stream_get sid c = Some s \<Longrightarrow> id31 sid \<and> sid \<noteq> 0"
proof -
  assume ok: "conn_ok c" and s: "stream_get sid c = Some s"
  have "odd (unat sid)" "unat sid < unat (hc_next_stream_id c)" using conn_okD(5) [OF ok s] by (auto simp: stream_ok_def)
  moreover have "unat (hc_next_stream_id c) \<le> 2 ^ 31 + 1" using conn_okD(7) [OF ok] .
  ultimately have "unat sid < 2 ^ 31 + 1" "unat sid \<noteq> 2 ^ 31" by auto
  then show ?thesis using \<open>odd (unat sid)\<close> by (auto simp: id31_iff)
qed

lemma send_data_moves:
  assumes ok: "conn_ok c" and n: "length data < 2 ^ 32"
  shows "\<exists>x. hc_send_data sid data es c = Ret x \<and> moves [] c (snd x)"
proof (cases "stream_get sid c")
  case None
  then show ?thesis using moves_refl [OF ok] by (simp add: hc_send_data_def)
next
  case (Some s)
  show ?thesis
  proof (cases "hs_state s = Open \<or> hs_state s = HalfClosedRemote")
    case False
    then show ?thesis using Some moves_refl [OF ok] by (simp add: hc_send_data_def)
  next
    case live: True
    note eq = hc_send_data_eq [OF Some live n conn_okD(8) [OF ok], of es]
    show ?thesis
    proof (cases "may_send (length data) s c")
      case False
      then show ?thesis using moves_refl [OF ok] by (simp add: eq)
    next
      case may: True
      define ps where "ps = (if data = [] then [[]] else chunks (unat (max_frame_size (hc_remote_settings c))) data)"
      have "0 < unat (max_frame_size (hc_remote_settings c))" using conn_okD(8) [OF ok] by (simp add: word_less_nat_alt)
      then have ps: "concat ps = data" by (simp add: ps_def concat_chunks)
      define w where "w = fc_window (hc_conn_send_window c) - int (length data)"
      have w: "0 \<le> w" "w < 2 ^ 31" using may conn_okD(1) [OF ok] by (auto simp: may_send_def windows_ok_def w_def)
      let ?c1 = "c\<lparr>hc_conn_send_window := fc_new w, hc_send_buf := hc_send_buf c @ encode_frames (data_frames sid es ps)\<rparr>"
      have "conn_ok (c\<lparr>hc_conn_send_window := fc_new w\<rparr>)" using conn_ok_send_window [OF ok] w by (simp add: fc_new_def)
      then have ok1: "conn_ok ?c1" by (simp add: conn_ok_def streams_ok_def stream_ok_def windows_ok_def)
      have "ledger [] (data_frames sid es ps) c ?c1"
        using stream_id_ok [OF ok Some] ps by (simp add: ledger_def data_frames_ledger fc_new_def w_def)
      then have m1: "moves [] c ?c1" using ok1 by (auto simp: moves_def)
      have "stream_ok ?c1 sid (after_send (length data) es s)"
        using conn_okD(5) [OF ok Some] by (auto simp: stream_ok_def after_send_def fc_new_def)
      then have "conn_ok (stream_put sid (after_send (length data) es s) ?c1)" by (rule conn_ok_put [OF ok1])
      then have "moves [] c (stream_put sid (after_send (length data) es s) ?c1)" using moves_quiet [OF m1] by simp
      then show ?thesis using may by (simp add: eq ps_def w_def)
    qed
  qed
qed

lemma reset_moves:
  assumes ok: "conn_ok c" and sid: "id31 sid" "sid \<noteq> 0"
  shows "moves [] c (hc_reset_stream sid code c)"
proof -
  let ?c = "send_frame (FRstStream sid code) c"
  have m: "moves [] c ?c" using ok sid by (intro moves_send) simp_all
  show ?thesis
  proof (cases "stream_get sid c")
    case (Some s)
    have "stream_ok ?c sid s" using conn_okD(5) [OF ok Some] by (simp add: stream_ok_def send_frame_def)
    then have "conn_ok (stream_put sid (s\<lparr>hs_state := Closed\<rparr>) ?c)" using ok by (intro conn_ok_put) simp_all
    then show ?thesis using Some moves_quiet [OF m] by (simp add: hc_reset_stream_def Let_def)
  qed (use m in \<open>simp add: hc_reset_stream_def Let_def\<close>)
qed

end
