(* ===== verification/H2_Recv.thy ===== *)
theory H2_Recv
  imports H2_Messages
begin

section \<open>HTTP/2 connection: receiving in pieces\<close>

text \<open>
  How the transport cuts the byte stream does not matter: the connection after \<open>recv\<close> of the pieces is the one after
  \<open>recv\<close> of all the bytes. The handlers do not look at the receive buffer, and a decoded frame does not change when
  more bytes follow.
\<close>

definition set_buf :: "bytes \<Rightarrow> H2Connection \<Rightarrow> H2Connection" where
  "set_buf b c = c\<lparr>hc_recv_buf := b\<rparr>"

lemma set_buf_fields [simp]:
  "hc_state (set_buf b c) = hc_state c" "hc_local_settings (set_buf b c) = hc_local_settings c"
  "hc_remote_settings (set_buf b c) = hc_remote_settings c" "hc_streams (set_buf b c) = hc_streams c"
  "hc_next_stream_id (set_buf b c) = hc_next_stream_id c" "hc_conn_recv_window (set_buf b c) = hc_conn_recv_window c"
  "hc_conn_send_window (set_buf b c) = hc_conn_send_window c" "hc_encoder (set_buf b c) = hc_encoder c"
  "hc_decoder (set_buf b c) = hc_decoder c" "hc_continuation_stream (set_buf b c) = hc_continuation_stream c"
  "hc_recv_buf (set_buf b c) = b" "hc_send_buf (set_buf b c) = hc_send_buf c" "hc_events (set_buf b c) = hc_events c"
  "hc_initial_recv_window (set_buf b c) = hc_initial_recv_window c" "hc_max_recv_buf (set_buf b c) = hc_max_recv_buf c"
  "hc_received_any_frame (set_buf b c) = hc_received_any_frame c" "hc_peer_last_stream_id (set_buf b c) = hc_peer_last_stream_id c"
  "set_buf b' (set_buf b c) = set_buf b' c" "stream_get sid (set_buf b c) = stream_get sid c" "is_closing (set_buf b c) = is_closing c"
  by (simp_all add: set_buf_def stream_get_def is_closing_def)

lemma set_buf_updates [simp]:
  "(set_buf b c)\<lparr>hc_state := x1\<rparr> = set_buf b (c\<lparr>hc_state := x1\<rparr>)"
  "(set_buf b c)\<lparr>hc_streams := x2\<rparr> = set_buf b (c\<lparr>hc_streams := x2\<rparr>)"
  "(set_buf b c)\<lparr>hc_remote_settings := x3\<rparr> = set_buf b (c\<lparr>hc_remote_settings := x3\<rparr>)"
  "(set_buf b c)\<lparr>hc_conn_recv_window := x4\<rparr> = set_buf b (c\<lparr>hc_conn_recv_window := x4\<rparr>)"
  "(set_buf b c)\<lparr>hc_conn_send_window := x4\<rparr> = set_buf b (c\<lparr>hc_conn_send_window := x4\<rparr>)"
  "(set_buf b c)\<lparr>hc_encoder := x5\<rparr> = set_buf b (c\<lparr>hc_encoder := x5\<rparr>)"
  "(set_buf b c)\<lparr>hc_decoder := x6\<rparr> = set_buf b (c\<lparr>hc_decoder := x6\<rparr>)"
  "(set_buf b c)\<lparr>hc_continuation_stream := x7\<rparr> = set_buf b (c\<lparr>hc_continuation_stream := x7\<rparr>)"
  "(set_buf b c)\<lparr>hc_received_any_frame := x8\<rparr> = set_buf b (c\<lparr>hc_received_any_frame := x8\<rparr>)"
  "(set_buf b c)\<lparr>hc_peer_last_stream_id := x9\<rparr> = set_buf b (c\<lparr>hc_peer_last_stream_id := x9\<rparr>)"
  "send_frame fr (set_buf b c) = set_buf b (send_frame fr c)" "push_event ev (set_buf b c) = set_buf b (push_event ev c)"
  "stream_put sid s (set_buf b c) = set_buf b (stream_put sid s c)" "stream_remove sid (set_buf b c) = set_buf b (stream_remove sid c)"
  by (simp_all add: set_buf_def send_frame_def push_event_def stream_put_def stream_remove_def)

lemma set_buf_fold [simp]: "(\<And>x c. f x (set_buf b c) = set_buf b (f x c)) \<Longrightarrow> fold f xs (set_buf b c) = set_buf b (fold f xs c)"
  by (induction xs arbitrary: c) simp_all

lemma set_buf_helpers [simp]:
  "fatal_error e (set_buf b c) = set_buf b (fatal_error e c)" "refuse_data sid n (set_buf b c) = set_buf b (refuse_data sid n c)"
  "update_conn_window (set_buf b c) = set_buf b (update_conn_window c)"
  "update_stream_window sid (set_buf b c) = set_buf b (update_stream_window sid c)"
  "go_away_streams l code d (set_buf b c) = set_buf b (go_away_streams l code d c)"
  by (auto simp: fatal_error_def refuse_data_def update_conn_window_def update_stream_window_def go_away_streams_def Let_def
    split: option.splits)

lemma set_buf_maybe [simp]: "maybe_send_window_updates sid n (set_buf b c) = set_buf b (maybe_send_window_updates sid n c)"
  by (simp add: maybe_send_window_updates_def)

abbreviation with_buf :: "bytes \<Rightarrow> 'r \<times> H2Connection \<Rightarrow> 'r \<times> H2Connection" where
  "with_buf b \<equiv> apsnd (set_buf b)"

lemma set_buf_handlers [simp]:
  "handle_settings ack rs (set_buf b c) = with_buf b (handle_settings ack rs c)"
  "emit_headers sid hs es (set_buf b c) = with_buf b (emit_headers sid hs es c)"
  "handle_data sid p es (set_buf b c) = with_buf b (handle_data sid p es c)"
  "handle_window_update sid n (set_buf b c) = with_buf b (handle_window_update sid n c)"
  "handle_goaway l code d (set_buf b c) = with_buf b (handle_goaway l code d c)"
  by (auto simp: handle_settings_def emit_headers_def handle_data_def handle_window_update_def handle_goaway_def Let_def
    split: option.splits sum.splits prod.splits)

definition map_outcome :: "('a \<Rightarrow> 'b) \<Rightarrow> 'a outcome \<Rightarrow> 'b outcome" where
  "map_outcome f m = outcome_bind m (\<lambda>x. Ret (f x))"

lemma map_outcome_simps [simp]: "map_outcome f (Ret x) = Ret (f x)" "map_outcome f Panic = Panic"
  by (simp_all add: map_outcome_def)

lemma set_buf_decode: "decode_and_emit_headers dbg sid blk es (set_buf b c) = map_outcome (with_buf b) (decode_and_emit_headers dbg sid blk es c)"
proof (cases "list_limit_check (hc_local_settings c) (length blk) header_block_too_long")
  case (Inr u)
  show ?thesis
  proof (cases "dec_decode dbg blk (hc_decoder c)")
    case (Ret x)
    then show ?thesis using Inr by (cases x; cases "fst x") (simp_all add: decode_and_emit_headers_def)
  qed (use Inr in \<open>simp add: decode_and_emit_headers_def\<close>)
qed (simp add: decode_and_emit_headers_def)

lemma set_buf_headers:
  "handle_headers dbg sid blk es eh (set_buf b c) = map_outcome (with_buf b) (handle_headers dbg sid blk es eh c)"
  "handle_continuation dbg sid blk eh (set_buf b c) = map_outcome (with_buf b) (handle_continuation dbg sid blk eh c)"
  by (auto simp: handle_headers_def handle_continuation_def Let_def set_buf_decode split: option.splits)

lemma set_buf_dispatch: "dispatch_frame dbg fr (set_buf b c) = map_outcome (with_buf b) (dispatch_frame dbg fr c)"
  by (cases fr) (simp_all add: set_buf_headers)

lemma set_buf_handle_frame: "handle_frame dbg fr (set_buf b c) = map_outcome (with_buf b) (handle_frame dbg fr c)"
proof -
  have "preface_check fr (set_buf b c) = preface_check fr c" "continuation_check fr (set_buf b c) = continuation_check fr c" for c
    by (simp_all add: preface_check_def continuation_check_def)
  then show ?thesis
    by (auto simp: handle_frame_def Let_def set_buf_dispatch split: sum.splits)
qed

text \<open>What can be observed of a connection: once it is closing it reads no further, and its receive buffer is
  irrelevant.\<close>

definition observe :: "H2Connection \<Rightarrow> H2Connection" where
  "observe c = (if is_closing c then set_buf [] c else c)"

definition resume :: "profile \<Rightarrow> bytes \<Rightarrow> H2Connection \<Rightarrow> H2Connection outcome" where
  "resume dbg data c = (if is_closing c then Ret c else process_recv_buf dbg (set_buf (hc_recv_buf c @ data) c))"

lemma process_closing: "is_closing c \<Longrightarrow> process_recv_buf dbg c = Ret c"
  by (subst process_recv_buf.simps) simp

lemma process_frame:
  assumes "\<not> is_closing c" "decode_frame (hc_recv_buf c) (max_frame_size (hc_local_settings c)) = Inr (Some (fr, n))"
  shows "process_recv_buf dbg c = outcome_bind (handle_frame dbg fr (set_buf (drop n (hc_recv_buf c)) c))
    (\<lambda>(r, c'). process_recv_buf dbg (case r of Inl e \<Rightarrow> fatal_error e c' | Inr _ \<Rightarrow> c'))"
proof (cases "handle_frame dbg fr (set_buf (drop n (hc_recv_buf c)) c)")
  case Panic
  then show ?thesis using assms by (subst process_recv_buf.simps) (simp add: set_buf_def)
next
  case (Ret x)
  then show ?thesis using assms by (subst process_recv_buf.simps) (cases x; cases "fst x"; simp add: set_buf_def)
qed

lemma process_error:
  assumes "\<not> is_closing c" "decode_frame (hc_recv_buf c) (max_frame_size (hc_local_settings c)) = Inl e"
  shows "process_recv_buf dbg c = Ret (fatal_error e (set_buf [] c))"
  using assms process_closing [OF fatal_closing] by (subst process_recv_buf.simps) (simp add: set_buf_def)

lemma process_wait:
  assumes "\<not> is_closing c" "decode_frame (hc_recv_buf c) (max_frame_size (hc_local_settings c)) = Inr None"
  shows "process_recv_buf dbg c = Ret c"
  using assms by (subst process_recv_buf.simps) simp

lemma map_outcome_bind: "map_outcome f (outcome_bind m k) = outcome_bind m (\<lambda>x. map_outcome f (k x))"
  by (cases m) simp_all

lemma outcome_bind_assoc: "outcome_bind (outcome_bind m k) l = outcome_bind m (\<lambda>x. outcome_bind (k x) l)"
  by (cases m) simp_all

lemma recv_buf_fatal: "hc_recv_buf (fatal_error e c) = hc_recv_buf c"
  using frozen_helpers(1) [of e c] by (simp add: frozen_def)

lemma process_append:
  "map_outcome observe (process_recv_buf dbg (set_buf (hc_recv_buf c @ ys) c)) =
   map_outcome observe (outcome_bind (process_recv_buf dbg c) (resume dbg ys))"
proof (induction "length (hc_recv_buf c)" arbitrary: c rule: less_induct)
  case less
  let ?m = "max_frame_size (hc_local_settings c)" and ?c = "set_buf (hc_recv_buf c @ ys) c"
  show ?case
  proof (cases "is_closing c")
    case True
    then show ?thesis by (simp add: process_closing resume_def observe_def)
  next
    case live: False
    consider (err) e where "decode_frame (hc_recv_buf c) ?m = Inl e" | (wait) "decode_frame (hc_recv_buf c) ?m = Inr None"
      | (frame) fr n where "decode_frame (hc_recv_buf c) ?m = Inr (Some (fr, n))"
      by (cases "decode_frame (hc_recv_buf c) ?m" rule: sum.exhaust) (metis option.exhaust surj_pair)+
    then show ?thesis
    proof cases
      case (err e)
      have "decode_frame (hc_recv_buf c @ ys) ?m = Inl e" using decode_frame_append [of "hc_recv_buf c" ?m ys] err by simp
      then show ?thesis using live process_error [OF live err] process_error [of ?c e] by (simp add: resume_def)
    next
      case wait
      then show ?thesis using live process_wait [OF live wait] by (simp add: resume_def)
    next
      case (frame fr n)
      have n: "9 \<le> n" "n \<le> length (hc_recv_buf c)" using decode_frame_progress [OF frame] by auto
      have f: "decode_frame (hc_recv_buf c @ ys) ?m = Inr (Some (fr, n))"
        using decode_frame_append [of "hc_recv_buf c" ?m ys] frame by simp
      let ?d = "drop n (hc_recv_buf c)"
      let ?next = "\<lambda>(r, c'). case r of Inl e \<Rightarrow> fatal_error e c' | Inr _ \<Rightarrow> c'"
      have l: "process_recv_buf dbg ?c = outcome_bind (handle_frame dbg fr (set_buf ?d c)) (\<lambda>x. process_recv_buf dbg (?next (with_buf (?d @ ys) x)))"
        using process_frame [of ?c fr n dbg] live f n set_buf_handle_frame [of dbg fr "?d @ ys" "set_buf ?d c"]
        by (simp add: outcome_bind_assoc map_outcome_def case_prod_unfold)
      have r: "process_recv_buf dbg c = outcome_bind (handle_frame dbg fr (set_buf ?d c)) (\<lambda>x. process_recv_buf dbg (?next x))"
        using process_frame [OF live frame] by (simp add: case_prod_unfold)
      have step: "map_outcome observe (process_recv_buf dbg (?next (with_buf (?d @ ys) x))) =
          map_outcome observe (outcome_bind (process_recv_buf dbg (?next x)) (resume dbg ys))"
        if x: "handle_frame dbg fr (set_buf ?d c) = Ret x" for x
      proof -
        obtain res c' where xc: "x = (res, c')" by (cases x)
        have buf: "hc_recv_buf c' = ?d" using frozen_handle_frame [of dbg fr "set_buf ?d c" res c'] x xc by (simp add: frozen_def)
        have b2: "hc_recv_buf (?next x) = ?d" using buf xc by (simp add: recv_buf_fatal split: sum.splits)
        have "?next (with_buf (?d @ ys) x) = set_buf (hc_recv_buf (?next x) @ ys) (?next x)"
          using xc b2 by (cases res) simp_all
        then show ?thesis using less [of "?next x"] b2 n by simp
      qed
      show ?thesis
      proof (cases "handle_frame dbg fr (set_buf ?d c)")
        case (Ret x)
        then show ?thesis using step [OF Ret] unfolding l r by simp
      qed (simp add: l r)
    qed
  qed
qed

lemma resume_append:
  "map_outcome observe (resume dbg (xs @ ys) c) = map_outcome observe (outcome_bind (resume dbg xs c) (resume dbg ys))"
  using process_append [of dbg "set_buf (hc_recv_buf c @ xs) c" ys] by (simp add: resume_def)

lemma hc_recv_resume: "length (hc_recv_buf c) + length data \<le> hc_max_recv_buf c \<Longrightarrow> hc_recv dbg data c = resume dbg data c"
  by (simp add: hc_recv_def resume_def set_buf_def)

lemma process_keeps:
  "process_recv_buf dbg c = Ret c' \<Longrightarrow> length (hc_recv_buf c') \<le> length (hc_recv_buf c) \<and> hc_max_recv_buf c' = hc_max_recv_buf c"
proof (induction "length (hc_recv_buf c)" arbitrary: c rule: less_induct)
  case less
  let ?m = "max_frame_size (hc_local_settings c)"
  show ?case
  proof (cases "is_closing c")
    case True
    then show ?thesis using less.prems by (simp add: process_closing)
  next
    case live: False
    consider (err) e where "decode_frame (hc_recv_buf c) ?m = Inl e" | (wait) "decode_frame (hc_recv_buf c) ?m = Inr None"
      | (frame) fr n where "decode_frame (hc_recv_buf c) ?m = Inr (Some (fr, n))"
      by (cases "decode_frame (hc_recv_buf c) ?m" rule: sum.exhaust) (metis option.exhaust surj_pair)+
    then show ?thesis
    proof cases
      case (err e)
      then show ?thesis using less.prems process_error [OF live err] frozen_helpers(1) [of e "set_buf [] c"]
        by (auto simp: frozen_def)
    next
      case wait
      then show ?thesis using less.prems process_wait [OF live wait] by simp
    next
      case (frame fr n)
      obtain r c1 where h: "handle_frame dbg fr (set_buf (drop n (hc_recv_buf c)) c) = Ret (r, c1)"
          "process_recv_buf dbg (case r of Inl e \<Rightarrow> fatal_error e c1 | Inr _ \<Rightarrow> c1) = Ret c'"
        using less.prems process_frame [OF live frame] by (auto simp: outcome_bind_Ret_iff)
      let ?c2 = "case r of Inl e \<Rightarrow> fatal_error e c1 | Inr _ \<Rightarrow> c1"
      have "frozen ?c2 = frozen (set_buf (drop n (hc_recv_buf c)) c)" using frozen_handle_frame [OF h(1)] by (simp split: sum.splits)
      then have c2: "hc_recv_buf ?c2 = drop n (hc_recv_buf c)" "hc_max_recv_buf ?c2 = hc_max_recv_buf c" by (auto simp: frozen_def)
      have "length (hc_recv_buf ?c2) < length (hc_recv_buf c)" using decode_frame_progress [OF frame] unfolding c2 by auto
      then show ?thesis using less.hyps [of ?c2] h(2) c2(2) by auto
    qed
  qed
qed

lemma resume_keeps:
  "resume dbg data c = Ret c' \<Longrightarrow> length (hc_recv_buf c') \<le> length (hc_recv_buf c) + length data \<and> hc_max_recv_buf c' = hc_max_recv_buf c"
  using process_keeps [of dbg "set_buf (hc_recv_buf c @ data) c" c'] by (auto simp: resume_def split: if_splits)

fun recv_all :: "profile \<Rightarrow> bytes list \<Rightarrow> H2Connection \<Rightarrow> H2Connection outcome" where
  "recv_all dbg [] c = Ret c"
| "recv_all dbg (x # xs) c = outcome_bind (hc_recv dbg x c) (recv_all dbg xs)"

lemma recv_all_resume:
  "xs \<noteq> [] \<Longrightarrow> length (hc_recv_buf c) + length (concat xs) \<le> hc_max_recv_buf c \<Longrightarrow>
   map_outcome observe (recv_all dbg xs c) = map_outcome observe (resume dbg (concat xs) c)"
proof (induction xs arbitrary: c)
  case (Cons x xs)
  have x: "hc_recv dbg x c = resume dbg x c" using Cons.prems(2) by (intro hc_recv_resume) simp
  show ?case
  proof (cases "xs = []")
    case True
    have "outcome_bind m Ret = m" for m :: "H2Connection outcome" by (cases m) simp_all
    moreover have "recv_all dbg [] = Ret" by (rule ext) simp
    ultimately show ?thesis using True x by simp
  next
    case False
    have "map_outcome observe (recv_all dbg xs c') = map_outcome observe (resume dbg (concat xs) c')"
      if "resume dbg x c = Ret c'" for c'
      using Cons.IH [of c'] False resume_keeps [OF that] Cons.prems(2) by simp
    then have "map_outcome observe (outcome_bind (resume dbg x c) (recv_all dbg xs)) =
        map_outcome observe (outcome_bind (resume dbg x c) (resume dbg (concat xs)))"
      by (cases "resume dbg x c") simp_all
    then show ?thesis using x resume_append [of dbg x "concat xs" c] by simp
  qed
qed simp

text \<open>C29. Receiving does not depend on how the transport cuts the stream: as long as the receive buffer limit is not
  hit, feeding the pieces one \<open>recv\<close> at a time leaves the same connection as feeding all the bytes at once, with the
  same events, the same output, the same tables and windows, and the same panic behaviour. (After the connection has
  begun to close, the unread bytes left in the buffer may differ; nothing reads them.)\<close>

theorem recv_chunking:
  assumes "pieces \<noteq> []" "length (hc_recv_buf c) + length (concat pieces) \<le> hc_max_recv_buf c"
  shows "map_outcome observe (recv_all dbg pieces c) = map_outcome observe (hc_recv dbg (concat pieces) c)"
  using recv_all_resume [OF assms] hc_recv_resume [OF assms(2)] by simp

theorem recv_chunking_witness:
  "map_outcome observe (recv_all True [[0, 0], [0, 4, 0, 0, 0], [0, 0, 0]] (hc_new settings_client_default)) =
   map_outcome observe (hc_recv True [0, 0, 0, 4, 0, 0, 0, 0, 0, 0] (hc_new settings_client_default))"
  using recv_chunking [of "[[0, 0], [0, 4, 0, 0, 0], [0, 0, 0]]" "hc_new settings_client_default" True]
  by (simp add: hc_new_def Let_def DEFAULT_MAX_RECV_BUF_def)

end
