(* ===== verification/H2_Session.thy ===== *)
theory H2_Session
  imports H2_Ledger H2_Recv
begin

section \<open>HTTP/2 connection: whole sessions\<close>

text \<open>
  What can happen to a connection: bytes arrive, the application calls one of the operations, or the transport takes
  the pending output. Every such sequence keeps the invariant of \<open>H2_Ledger\<close>, whatever the peer sends, and the two
  connection windows account for the DATA and WINDOW_UPDATE frames on the wire.
\<close>

datatype h2_op = OpRecv bytes | OpRequest "HeaderField list" bool | OpData u32 bytes bool | OpReset u32 ErrorCode
  | OpPing | OpGoaway ErrorCode | OpMaxRecvBuf nat | OpPoll | OpTake

text \<open>The state carries the bytes the transport has taken so far.\<close>

fun h2_step :: "profile \<Rightarrow> h2_op \<Rightarrow> H2Connection \<times> bytes \<Rightarrow> (H2Connection \<times> bytes) outcome" where
  "h2_step dbg (OpRecv data) (c, out) = outcome_bind (hc_recv dbg data c) (\<lambda>c'. Ret (c', out))"
| "h2_step dbg (OpRequest hs es) (c, out) = outcome_bind (hc_send_request dbg hs es c) (\<lambda>(r, c'). Ret (c', out))"
| "h2_step dbg (OpData sid data es) (c, out) = outcome_bind (hc_send_data sid data es c) (\<lambda>(r, c'). Ret (c', out))"
| "h2_step dbg (OpReset sid code) (c, out) = Ret (hc_reset_stream sid code c, out)"
| "h2_step dbg OpPing (c, out) = Ret (hc_send_ping c, out)"
| "h2_step dbg (OpGoaway code) (c, out) = Ret (hc_send_goaway code c, out)"
| "h2_step dbg (OpMaxRecvBuf n) (c, out) = Ret (hc_set_max_recv_buf n c, out)"
| "h2_step dbg OpPoll (c, out) = Ret (snd (hc_poll_event c), out)"
| "h2_step dbg OpTake (c, out) = Ret (snd (hc_take_pending_send c), out @ fst (hc_take_pending_send c))"

fun h2_run :: "profile \<Rightarrow> h2_op list \<Rightarrow> H2Connection \<times> bytes \<Rightarrow> (H2Connection \<times> bytes) outcome" where
  "h2_run dbg [] x = Ret x"
| "h2_run dbg (op # ops) x = outcome_bind (h2_step dbg op x) (h2_run dbg ops)"

text \<open>The sizes of what the application passes in are those of objects in memory; what arrives is arbitrary.\<close>

fun h2_op_ok :: "h2_op \<Rightarrow> bool" where
  "h2_op_ok (OpRequest hs es) \<longleftrightarrow> list_all (\<lambda>h. hf_size h < 2 ^ 62) hs"
| "h2_op_ok (OpData sid data es) \<longleftrightarrow> length data < 2 ^ 32"
| "h2_op_ok (OpReset sid code) \<longleftrightarrow> id31 sid \<and> sid \<noteq> 0"
| "h2_op_ok _ \<longleftrightarrow> True"

fun bytes_in :: "h2_op list \<Rightarrow> bytes" where
  "bytes_in [] = []"
| "bytes_in (OpRecv data # ops) = data @ bytes_in ops"
| "bytes_in (_ # ops) = bytes_in ops"

definition local_settings_ok :: "Settings \<Rightarrow> bool" where
  "local_settings_ok S \<longleftrightarrow> settings_valid S \<and> \<not> enable_push S \<and> max_header_list_size S \<noteq> None"

subsection \<open>The frames in a byte stream\<close>

function wire_frames :: "u32 \<Rightarrow> bytes \<Rightarrow> Frame list" where
  "wire_frames m buf = (case decode_frame buf m of Inr (Some (fr, n)) \<Rightarrow> fr # wire_frames m (drop n buf) | _ \<Rightarrow> [])"
  by pat_completeness auto
termination
  by (relation "measure (\<lambda>(m, buf). length buf)") (auto dest: decode_frame_progress)

declare wire_frames.simps [simp del]

lemma wire_frames_step:
  assumes "decode_frame buf m = Inr (Some (fr, n))"
  shows "wire_frames m (buf @ rest) = fr # wire_frames m (drop n buf @ rest)"
  using decode_frame_append [of buf m rest] decode_frame_progress [OF assms] assms
  by (subst wire_frames.simps) simp

lemma read_u24_bound: "unat (read_u24 a b c) < 2 ^ 24"
proof -
  have "bit (read_u24 a b c) n = bit (take_bit 24 (read_u24 a b c)) n" for n
    using bit_imp_le_length [of a "n - 16"] bit_imp_le_length [of b "n - 8"] bit_imp_le_length [of c n]
    by (auto simp: read_u24_def bit_simps)
  then have "read_u24 a b c = take_bit 24 (read_u24 a b c)" by (rule bit_eqI)
  moreover have "unat (take_bit 24 (read_u24 a b c)) = unat (read_u24 a b c) mod 2 ^ 24" unfolding unsigned_take_bit_eq by (rule take_bit_eq_mod)
  ultimately show ?thesis by (metis mod_less_divisor zero_less_numeral zero_less_power)
qed

lemma settings_encode_short: "length (settings_encode s) \<le> 36"
  by (simp add: settings_encode_def encode_setting_def u32_bytes_def split: option.split)

lemma take_eq_length: "take n xs = ys \<Longrightarrow> length ys \<le> length xs"
  by (metis length_take min.cobounded1)

lemma decode_payload_length:
  assumes "decode_payload h p = Inr f" "length p < 2 ^ 24"
  shows "frame_payload_len f < 2 ^ 24"
  using assms le_less_trans [OF settings_encode_short, of "2 ^ 24"]
  by (auto simp: decode_cases frame_types h2_bind_Inr_iff dest!: take_eq_length split: if_splits list.splits option.splits)

lemma decode_frame_payload:
  assumes "decode_frame buf m = Inr (Some (f, n))"
  shows "frame_payload_len f < 2 ^ 24"
proof -
  obtain h where h: "decode_frame_header buf = Some h" and p: "decode_payload h (buf_slice 9 (unat (fh_length h)) buf) = Inr f"
    using assms by (auto simp: decode_frame_def FRAME_HEADER_LEN_def Let_def h2_bind_Inr_iff split: option.splits if_splits)
  have "unat (fh_length h) < 2 ^ 24" using h read_u24_bound by (induction buf rule: decode_frame_header.induct) auto
  then show ?thesis by (intro decode_payload_length [OF p]) (simp add: buf_slice_def)
qed

subsection \<open>Receiving\<close>

text \<open>The frames \<open>pre\<close> have been taken off the front of the stream \<open>inp\<close>; what is left is in the receive buffer,
  unless the connection has stopped reading.\<close>

definition progress :: "u32 \<Rightarrow> bytes \<Rightarrow> Frame list \<Rightarrow> H2Connection \<Rightarrow> bool" where
  "progress m inp pre c \<longleftrightarrow>
     (\<forall>rest. \<exists>tl. wire_frames m (inp @ rest) = pre @ tl \<and> (\<not> is_closing c \<longrightarrow> tl = wire_frames m (hc_recv_buf c @ rest)))"

lemma progress_refl: "progress m (hc_recv_buf c) [] c"
  by (simp add: progress_def)

lemma progress_keep:
  assumes "progress m inp pre c" "is_closing c \<Longrightarrow> is_closing c'" "\<not> is_closing c' \<Longrightarrow> hc_recv_buf c' = hc_recv_buf c"
  shows "progress m inp pre c'"
  using assms unfolding progress_def by metis

lemma progress_closed: "progress m inp pre c \<Longrightarrow> is_closing c' \<Longrightarrow> progress m (inp @ data) pre c'"
  unfolding progress_def append_assoc by blast

lemma progress_trans:
  assumes "progress m inp p1 c" "\<not> is_closing c" "progress m (hc_recv_buf c @ data) p2 c'"
  shows "progress m (inp @ data) (p1 @ p2) c'"
proof -
  have "wire_frames m (inp @ data @ rest) = p1 @ wire_frames m (hc_recv_buf c @ data @ rest)" for rest
    using assms(1,2) unfolding progress_def by blast
  then show ?thesis using assms(3) unfolding progress_def by fastforce
qed

lemma conn_ok_buf [simp]: "conn_ok (set_buf b c) = conn_ok c"
  by (simp add: conn_ok_def streams_ok_def stream_ok_def windows_ok_def)

lemma moves_buf: "moves ins (set_buf b c) c' = moves ins c c'"
  by (simp add: moves_def ledger_def)

lemma fatal_local [simp]: "hc_local_settings (fatal_error e c) = hc_local_settings c"
  using frozen_helpers(1) [of e c] by (simp add: frozen_def)

lemma receive_frame:
  assumes ok: "conn_ok c" and d: "decode_frame (hc_recv_buf c) m = Inr (Some (fr, n))"
  shows "\<exists>r c' ins. handle_frame dbg fr (set_buf (drop n (hc_recv_buf c)) c) = Ret (r, c') \<and>
    moves ins c (case r of Inl e \<Rightarrow> fatal_error e c' | Inr _ \<Rightarrow> c') \<and> subseq ins [fr] \<and>
    hc_recv_buf c' = drop n (hc_recv_buf c) \<and> hc_local_settings c' = hc_local_settings c"
proof -
  let ?c = "set_buf (drop n (hc_recv_buf c)) c"
  obtain r c' ins where x: "handle_frame dbg fr ?c = Ret (r, c')" "moves ins ?c c'" "ins = [fr] \<or> ins = []"
    using handle_frame_handled [of ?c fr dbg] decode_frame_ok [OF d] decode_frame_payload [OF d] ok by (auto simp: handled_def)
  have "conn_ok c'" using x(2) by (simp add: moves_def)
  then have "moves ins c (fatal_error e c')" for e using moves_trans [OF x(2) fatal_moves] by (simp add: moves_buf)
  moreover have "subseq ins [fr]" using x(3) by auto
  ultimately show ?thesis
    using x(1,2) frozen_handle_frame [OF x(1)] by (intro exI [of _ r] exI [of _ c'] exI [of _ ins]) (cases r; simp add: moves_buf frozen_def)
qed

lemma decode_result_cases:
  fixes x :: "(Frame \<times> nat) option h2_result"
  obtains "x = Inr None" | e where "x = Inl e" | fr n where "x = Inr (Some (fr, n))"
proof (cases x)
  case (Inr y)
  then show thesis using that by (cases y) auto
qed (use that in auto)

lemma process_moves:
  assumes "conn_ok c" "max_frame_size (hc_local_settings c) = m"
  shows "\<exists>c' ins pre. process_recv_buf dbg c = Ret c' \<and> moves ins c c' \<and> subseq ins pre \<and> progress m (hc_recv_buf c) pre c' \<and>
    hc_local_settings c' = hc_local_settings c"
  using assms
proof (induction "length (hc_recv_buf c)" arbitrary: c rule: less_induct)
  case less
  show ?case
  proof (cases "is_closing c")
    case True
    then show ?thesis using process_closing [OF True] moves_refl [OF less.prems(1)] progress_refl by fastforce
  next
    case reading: False
    note m = less.prems(2) [symmetric]
    consider (wait) "decode_frame (hc_recv_buf c) m = Inr None" | (bad) e where "decode_frame (hc_recv_buf c) m = Inl e"
      | (frame) fr n where "decode_frame (hc_recv_buf c) m = Inr (Some (fr, n))"
      by (metis decode_result_cases)
    then show ?thesis
    proof cases
      case wait
      then show ?thesis using process_wait [OF reading] m moves_refl [OF less.prems(1)] progress_refl by fastforce
    next
      case (bad e)
      let ?c = "fatal_error e (set_buf [] c)"
      have "moves [] c ?c" using fatal_moves [of "set_buf [] c" e] less.prems(1) by (simp only: conn_ok_buf moves_buf)
      moreover have "progress m (hc_recv_buf c) [] ?c" by (simp add: progress_def)
      ultimately show ?thesis using process_error [OF reading] bad m by (intro exI [of _ ?c] exI [of _ "[]"]) simp
    next
      case (frame fr n)
      obtain r c1 ins where x: "handle_frame dbg fr (set_buf (drop n (hc_recv_buf c)) c) = Ret (r, c1)"
        "moves ins c (case r of Inl e \<Rightarrow> fatal_error e c1 | Inr _ \<Rightarrow> c1)" "subseq ins [fr]"
        "hc_recv_buf c1 = drop n (hc_recv_buf c)" "hc_local_settings c1 = hc_local_settings c"
        using receive_frame [OF less.prems(1) frame, of dbg] by blast
      let ?c = "case r of Inl e \<Rightarrow> fatal_error e c1 | Inr _ \<Rightarrow> c1"
      have c: "hc_recv_buf ?c = drop n (hc_recv_buf c)" "hc_local_settings ?c = hc_local_settings c" "conn_ok ?c"
        using x by (cases r; simp add: moves_def recv_buf_fatal)+
      have len: "length (hc_recv_buf ?c) < length (hc_recv_buf c)" 
        unfolding c(1) length_drop using decode_frame_progress [OF frame] by arith
      obtain c' i2 p2 where y: "process_recv_buf dbg ?c = Ret c'" "moves i2 ?c c'" "subseq i2 p2" "progress m (hc_recv_buf ?c) p2 c'"
          "hc_local_settings c' = hc_local_settings ?c"
        using less.hyps [OF len c(3)] c(2) less.prems(2) by metis
      have "process_recv_buf dbg c = Ret c'" using process_frame [OF reading, of fr n dbg] frame m x(1) y(1) by (cases r) simp_all
      moreover have "progress m (hc_recv_buf c) (fr # p2) c'" using y(4) c(1) wire_frames_step [OF frame] by (simp add: progress_def)
      moreover have "subseq (ins @ i2) (fr # p2)" using list_emb_append_mono [OF x(3) y(3)] by simp
      ultimately show ?thesis using moves_trans [OF x(2) y(2)] y(5) c(2) by metis
    qed
  qed
qed

lemma recv_moves:
  assumes ok: "conn_ok c" and m: "max_frame_size (hc_local_settings c) = m" and p: "progress m inp pre c"
  shows "\<exists>c' ins q. hc_recv dbg data c = Ret c' \<and> moves ins c c' \<and> subseq ins q \<and> progress m (inp @ data) (pre @ q) c' \<and>
    hc_local_settings c' = hc_local_settings c"
proof -
  consider (closed) "is_closing c" | (full) "\<not> is_closing c" "hc_max_recv_buf c < length (hc_recv_buf c) + length data"
    | (room) "\<not> is_closing c" "\<not> hc_max_recv_buf c < length (hc_recv_buf c) + length data" by blast
  then show ?thesis
  proof cases
    case closed
    then show ?thesis using moves_refl [OF ok] progress_closed [OF p closed]
      by (intro exI [of _ c] exI [of _ "[]"]) (simp add: hc_recv_def)
  next
    case full
    let ?c = "fatal_error (MaxSizeExceeded [Lit ''recv_buf would exceed '', Num (hc_max_recv_buf c), Lit '' bytes'']) c"
    show ?thesis using full fatal_moves [OF ok] progress_closed [OF p fatal_closing]
      by (intro exI [of _ ?c] exI [of _ "[]"]) (simp add: hc_recv_def)
  next
    case room
    let ?c = "set_buf (hc_recv_buf c @ data) c"
    obtain c' ins q where x: "process_recv_buf dbg ?c = Ret c'" "moves ins ?c c'" "subseq ins q" "progress m (hc_recv_buf ?c) q c'"
      "hc_local_settings c' = hc_local_settings ?c"
      using process_moves [of ?c m dbg] ok m by auto
    have "progress m (inp @ data) (pre @ q) c'" using progress_trans [OF p room(1)] x(4) by simp
    moreover have "hc_recv dbg data c = Ret c'" using x(1) room by (simp add: hc_recv_def set_buf_def)
    ultimately show ?thesis using x(2,3,5) by (intro exI [of _ c'] exI [of _ ins] exI [of _ q]) (simp add: moves_buf)
  qed
qed

subsection \<open>The operations\<close>

lemma frozen_request [simp]: "frozen (c\<lparr>hc_next_stream_id := n\<rparr>) = frozen c" "frozen (c\<lparr>hc_encoder := e\<rparr>) = frozen c"
  by (simp_all add: frozen_def)

lemma send_request_frozen:
  "hc_send_request dbg hs es c = Ret (r, c') \<Longrightarrow> frozen c' = frozen c \<and> is_closing c' = is_closing c"
  by (cases "enc_encode dbg hs (hc_encoder c)")
    (auto simp: hc_send_request_def Let_def case_prod_unfold simp del: split_paired_All split: if_splits option.splits)

lemma send_chunks_frozen: "frozen (send_chunks sid es cs c) = frozen c \<and> is_closing (send_chunks sid es cs c) = is_closing c"
  by (induction cs arbitrary: c) simp_all

lemma send_data_frozen: "hc_send_data sid data es c = Ret (r, c') \<Longrightarrow> frozen c' = frozen c \<and> is_closing c' = is_closing c"
  using send_chunks_frozen by (auto simp: hc_send_data_def Let_def split: if_splits option.splits)

lemma reset_frozen: "frozen (hc_reset_stream sid code c) = frozen c \<and> is_closing (hc_reset_stream sid code c) = is_closing c"
  by (auto simp: hc_reset_stream_def Let_def split: option.splits)

subsection \<open>Sessions\<close>

text \<open>The state of a session started with output \<open>start\<close> and windows \<open>r0\<close> and \<open>s0\<close>: of the bytes received some frames were
  read, of these \<open>ins\<close> were accepted; \<open>outs\<close> were sent; the windows are those of the ledger.\<close>

definition tracked :: "bytes \<Rightarrow> int \<Rightarrow> int \<Rightarrow> u32 \<Rightarrow> bytes \<Rightarrow> Frame list \<Rightarrow> Frame list \<Rightarrow> H2Connection \<times> bytes \<Rightarrow> bool" where
  "tracked start r0 s0 m inp ins outs x \<longleftrightarrow>
     conn_ok (fst x) \<and> snd x @ hc_send_buf (fst x) = start @ encode_frames outs \<and> list_all frame_ok outs \<and>
     fc_window (hc_conn_recv_window (fst x)) = r0 - data_bytes ins + credits outs \<and>
     fc_window (hc_conn_send_window (fst x)) = s0 + credits ins - data_bytes outs \<and>
     max_frame_size (hc_local_settings (fst x)) = m \<and> (\<exists>pre. subseq ins pre \<and> progress m inp pre (fst x))"

text \<open>An operation that does not touch the receive buffer.\<close>

lemma tracked_moves:
  assumes t: "tracked start r0 s0 m inp ins outs (c, out)" and m: "moves [] c c'"
    and keep: "hc_recv_buf c' = hc_recv_buf c" "hc_local_settings c' = hc_local_settings c" "is_closing c \<Longrightarrow> is_closing c'"
  shows "\<exists>outs'. tracked start r0 s0 m inp ins outs' (c', out)"
proof -
  obtain os where os: "ledger [] os c c'" "conn_ok c'" using m by (auto simp: moves_def)
  obtain pre where pre: "subseq ins pre" "progress m inp pre c" using t by (auto simp: tracked_def)
  have "progress m inp pre c'" using progress_keep [OF pre(2)] keep by blast
  then have "tracked start r0 s0 m inp ins (outs @ os) (c', out)"
    using t os pre(1) keep(2) by (auto simp: tracked_def ledger_def simp flip: append_assoc)
  then show ?thesis by blast
qed

lemma tracked_recv:
  assumes t: "tracked start r0 s0 m inp ins outs (c, out)"
  shows "\<exists>c' ins' outs'. hc_recv dbg data c = Ret c' \<and> tracked start r0 s0 m (inp @ data) ins' outs' (c', out)"
proof -
  obtain pre where pre: "subseq ins pre" "progress m inp pre c" using t by (auto simp: tracked_def)
  have c: "conn_ok c" "max_frame_size (hc_local_settings c) = m" using t by (auto simp: tracked_def)
  obtain c' i q os where x: "hc_recv dbg data c = Ret c'" "ledger i os c c'" "conn_ok c'" "subseq i q"
      "progress m (inp @ data) (pre @ q) c'" "hc_local_settings c' = hc_local_settings c"
    using recv_moves [OF c pre(2)] unfolding moves_def by metis
  have "subseq (ins @ i) (pre @ q)" using list_emb_append_mono [OF pre(1) x(4)] .
  then have "tracked start r0 s0 m (inp @ data) (ins @ i) (outs @ os) (c', out)"
    using t x by (auto simp: tracked_def ledger_def simp flip: append_assoc)
  then show ?thesis using x(1) by blast
qed

lemma limit_fields [simp]:
  "stream_get sid (c\<lparr>hc_max_recv_buf := n\<rparr>) = stream_get sid c" "is_closing (c\<lparr>hc_max_recv_buf := n\<rparr>) = is_closing c"
  by (simp_all add: stream_get_def is_closing_def)

lemma conn_ok_idle [simp]:
  "conn_ok (c\<lparr>hc_events := evs\<rparr>) = conn_ok c" "conn_ok (c\<lparr>hc_max_recv_buf := n\<rparr>) = conn_ok c" "conn_ok (c\<lparr>hc_send_buf := b\<rparr>) = conn_ok c"
  by (simp_all add: conn_ok_def streams_ok_def stream_ok_def windows_ok_def)

lemma quiet_ops:
  assumes "conn_ok c"
  shows "moves [] c (hc_send_ping c)" "moves [] c (hc_send_goaway code c)" "moves [] c (snd (hc_poll_event c))" "moves [] c (hc_set_max_recv_buf n c)"
proof -
  show "moves [] c (hc_send_ping c)" unfolding hc_send_ping_def by (rule moves_send [OF assms]) simp_all
  have "moves [] c (send_frame (FGoAway 0 code []) c)" by (rule moves_send [OF assms]) simp_all
  then show "moves [] c (hc_send_goaway code c)"
    unfolding hc_send_goaway_def by (rule moves_quiet) (use assms in \<open>simp_all add: conn_ok_closing quiet_def\<close>)
  show "moves [] c (snd (hc_poll_event c))" "moves [] c (hc_set_max_recv_buf n c)"
    using assms by (auto intro!: quiet_moves simp: hc_poll_event_def hc_set_max_recv_buf_def quiet_def split: list.splits)
qed

lemma tracked_take:
  assumes "tracked start r0 s0 m inp ins outs (c, out)"
  shows "tracked start r0 s0 m inp ins outs (c\<lparr>hc_send_buf := []\<rparr>, out @ hc_send_buf c)"
proof -
  have "progress m inp pre (c\<lparr>hc_send_buf := []\<rparr>) = progress m inp pre c" for pre by (simp add: progress_def)
  then show ?thesis using assms by (simp add: tracked_def)
qed

lemma h2_step_tracked:
  assumes t: "tracked start r0 s0 m inp ins outs x" and op: "h2_op_ok op"
  shows "\<exists>x' ins' outs'. h2_step dbg op x = Ret x' \<and> tracked start r0 s0 m (inp @ bytes_in [op]) ins' outs' x'"
proof -
  obtain c out where x: "x = (c, out)" by (cases x)
  note t = t [unfolded x]
  have ok: "conn_ok c" using t by (simp add: tracked_def)
  have step: ?thesis if "h2_step dbg op (c, out) = Ret (c', out)" "moves [] c c'" "bytes_in [op] = []"
      "frozen c' = frozen c \<and> is_closing c' = is_closing c" for c'
    using tracked_moves [OF t that(2)] that x by (auto simp: frozen_def)
  show ?thesis
  proof (cases op)
    case (OpRecv data)
    obtain c' ins' outs' where "hc_recv dbg data c = Ret c'" "tracked start r0 s0 m (inp @ data) ins' outs' (c', out)"
      using tracked_recv [OF t] by blast
    then show ?thesis using OpRecv x by (intro exI [of _ "(c', out)"] exI [of _ ins'] exI [of _ outs']) simp
  next
    case (OpRequest hs es)
    then obtain y where y: "hc_send_request dbg hs es c = Ret y" "moves [] c (snd y)" using send_request_moves [OF ok] op by fastforce
    then show ?thesis using OpRequest step [of "snd y"] send_request_frozen [of dbg hs es c "fst y"] by (simp add: case_prod_unfold)
  next
    case (OpData sid data es)
    then obtain y where y: "hc_send_data sid data es c = Ret y" "moves [] c (snd y)" using send_data_moves [OF ok] op by fastforce
    then show ?thesis using OpData step [of "snd y"] send_data_frozen [of sid data es c "fst y"] by (simp add: case_prod_unfold)
  next
    case (OpReset sid code)
    then show ?thesis using reset_moves [OF ok] op step [of "hc_reset_stream sid code c"] reset_frozen by simp
  next
    case OpPing
    then show ?thesis using quiet_ops(1) [OF ok] step [of "hc_send_ping c"] by (simp add: hc_send_ping_def)
  next
    case (OpGoaway code)
    have "\<exists>outs'. tracked start r0 s0 m inp ins outs' (hc_send_goaway code c, out)"
      by (rule tracked_moves [OF t quiet_ops(2) [OF ok]]) (simp_all add: hc_send_goaway_def send_frame_def is_closing_def)
    then show ?thesis using OpGoaway x by auto
  next
    case (OpMaxRecvBuf n)
    have "\<exists>outs'. tracked start r0 s0 m inp ins outs' (hc_set_max_recv_buf n c, out)"
      by (rule tracked_moves [OF t quiet_ops(4) [OF ok]]) (simp_all add: hc_set_max_recv_buf_def is_closing_def)
    then show ?thesis using OpMaxRecvBuf x by auto
  next
    case OpPoll
    then show ?thesis using quiet_ops(3) [OF ok] step [of "snd (hc_poll_event c)"]
      by (auto simp: hc_poll_event_def frozen_def split: list.splits)
  next
    case OpTake
    then show ?thesis using tracked_take [OF t] x by (auto simp: hc_take_pending_send_def)
  qed
qed

lemma bytes_in_Cons: "bytes_in (op # ops) = bytes_in [op] @ bytes_in ops"
  by (cases op) simp_all

lemma h2_run_tracked:
  assumes "tracked start r0 s0 m inp ins outs x" "list_all h2_op_ok ops"
  shows "\<exists>x' ins' outs'. h2_run dbg ops x = Ret x' \<and> tracked start r0 s0 m (inp @ bytes_in ops) ins' outs' x'"
  using assms
proof (induction ops arbitrary: inp ins outs x)
  case (Cons op ops)
  obtain x1 i1 o1 where 1: "h2_step dbg op x = Ret x1" "tracked start r0 s0 m (inp @ bytes_in [op]) i1 o1 x1"
    using h2_step_tracked [OF Cons.prems(1)] Cons.prems(2) by fastforce
  show ?case using Cons.IH [OF 1(2)] Cons.prems(2) 1(1) bytes_in_Cons [of op ops] by simp
qed auto

subsection \<open>The start of a session\<close>

definition opening_frames :: "Settings \<Rightarrow> Frame list" where
  "opening_frames S = (if DEFAULT_WINDOW_SIZE < uint (initial_window_size S)
     then [FWindowUpdate 0 (of_int (uint (initial_window_size S) - DEFAULT_WINDOW_SIZE))] else [])"

lemma opening_frames_ok:
  assumes "local_settings_ok S"
  shows "list_all frame_ok (opening_frames S)" "data_bytes (opening_frames S) = 0"
    "uint (initial_window_size S) = min DEFAULT_WINDOW_SIZE (uint (initial_window_size S)) + credits (opening_frames S)"
proof -
  define w where "w = uint (initial_window_size S)"
  define v :: u32 where "v = of_int (w - DEFAULT_WINDOW_SIZE)"
  have w: "0 \<le> w" "w < 2 ^ 31" using assms by (auto simp: local_settings_ok_def settings_valid_def word_le_def w_def)
  have v: "uint v = w - DEFAULT_WINDOW_SIZE" if "DEFAULT_WINDOW_SIZE < w"
    unfolding v_def using that w by (intro uint_of_int_31) (simp_all add: DEFAULT_WINDOW_SIZE_def)
  have ok: "id31 v \<and> v \<noteq> 0" if "DEFAULT_WINDOW_SIZE < w"
    using v [OF that] that w unat_uint_less [of v] by (auto simp: id31_iff DEFAULT_WINDOW_SIZE_def)
  have "opening_frames S = (if DEFAULT_WINDOW_SIZE < w then [FWindowUpdate 0 v] else [])" by (simp add: opening_frames_def v_def w_def)
  then show "list_all frame_ok (opening_frames S)" "data_bytes (opening_frames S) = 0"
    "uint (initial_window_size S) = min DEFAULT_WINDOW_SIZE (uint (initial_window_size S)) + credits (opening_frames S)"
    using ok v by (auto simp: w_def [symmetric] min_def)
qed

lemma hc_new_fields [simp]:
  "hc_send_buf (hc_new S) = CLIENT_PREFACE @ frame_encode (FSettings False S) @ encode_frames (opening_frames S)"
  "fc_window (hc_conn_recv_window (hc_new S)) = uint (initial_window_size S)"
  "fc_window (hc_conn_send_window (hc_new S)) = DEFAULT_WINDOW_SIZE" "hc_local_settings (hc_new S) = S"
  "hc_recv_buf (hc_new S) = []"
  by (simp_all add: hc_new_def Let_def fc_new_def fc_default_def opening_frames_def del: frame_encode.simps)

lemma hc_new_conn_ok:
  assumes S: "local_settings_ok S"
  shows "conn_ok (hc_new S)"
proof -
  have "unat (header_table_size S) < 2 ^ 32" using unsigned_less [of "header_table_size S", where 'a = nat] by simp
  then have "encoder_ok (enc_new (unat (header_table_size S)))" "dec_ok (dec_new 4096)"
    using dt_new_ok by (simp_all add: encoder_ok_def enc_new_def dec_new_def dec_ok_def pending_le_def)
  moreover have "uint (initial_window_size S) < 2 ^ 31" using S by (simp add: local_settings_ok_def settings_valid_def word_le_def)
  ultimately show ?thesis
    using S by (simp add: conn_ok_def hc_new_def Let_def streams_ok_def stream_get_def windows_ok_def fc_new_def fc_default_def
      DEFAULT_WINDOW_SIZE_def settings_default_def local_settings_ok_def del: frame_encode.simps)
qed

lemma hc_new_tracked:
  assumes S: "local_settings_ok S"
  shows "tracked (CLIENT_PREFACE @ frame_encode (FSettings False S)) (min DEFAULT_WINDOW_SIZE (uint (initial_window_size S)))
    DEFAULT_WINDOW_SIZE (max_frame_size S) [] [] (opening_frames S) (hc_new S, [])"
  using hc_new_conn_ok [OF S] opening_frames_ok [OF S] progress_refl [of "max_frame_size S" "hc_new S"]
  by (auto simp: tracked_def simp del: frame_encode.simps)

lemma data_bytes_nonneg: "0 \<le> data_bytes fs" and credits_nonneg: "0 \<le> credits fs"
  by (induction fs rule: data_bytes.induct; simp) (induction fs rule: credits.induct; simp)

lemma sums_Cons: "data_bytes (f # fs) = data_bytes [f] + data_bytes fs" "credits (f # fs) = credits [f] + credits fs"
  using data_bytes_append [of "[f]" fs] credits_append [of "[f]" fs] by simp_all

lemma subseq_sums: "subseq ins fs \<Longrightarrow> data_bytes ins \<le> data_bytes fs \<and> credits ins \<le> credits fs"
proof (induction rule: list_emb.induct)
  case (list_emb_Nil ys)
  then show ?case by (simp add: data_bytes_nonneg credits_nonneg)
next
  case (list_emb_Cons xs ys y)
  then show ?case
    unfolding sums_Cons [of y ys] using data_bytes_nonneg [of "[y]"] credits_nonneg [of "[y]"] by linarith
next
  case (list_emb_Cons2 x y xs ys)
  then show ?case unfolding sums_Cons [of y ys] sums_Cons [of x xs] by simp
qed

lemma tracked_wire:
  assumes "tracked start r0 s0 m inp ins outs x"
  shows "subseq ins (wire_frames m inp)"
proof -
  obtain pre where pre: "subseq ins pre" "progress m inp pre (fst x)" using assms by (auto simp: tracked_def)
  obtain tl where "wire_frames m inp = pre @ tl" using pre(2) unfolding progress_def by (metis append_Nil2)
  then show ?thesis using list_emb_append_mono [OF pre(1) list_emb_Nil [of _ tl]] by simp
qed

text \<open>
  C30. Invariant of the connection. Start a connection with settings a client may advertise, then let anything happen in
  any order: bytes arrive, in pieces and however malformed, requests, DATA, resets, pings and GOAWAYs are issued, events
  are polled and output is taken. No operation panics, in a release or in a debug build, and the invariant holds at the
  end: receive windows are between 0 and the initial window and send windows below \<open>2\<^sup>3\<^sup>1\<close>, the streams have distinct odd
  ids below the next id to use, both HPACK tables are within their limits, the peer's frame size is positive, and a
  connection in the middle of a header block knows its stream.
\<close>

theorem connection_invariant:
  assumes "local_settings_ok S" "list_all h2_op_ok ops"
  shows "\<exists>c out. h2_run dbg ops (hc_new S, []) = Ret (c, out) \<and> conn_ok c"
  using h2_run_tracked [OF hc_new_tracked [OF assms(1)] assms(2)] unfolding tracked_def by (metis prod.collapse)

definition example_ops :: "h2_op list" where
  "example_ops = [OpRequest [\<lparr>hf_name = [58, 97], hf_value = [98]\<rparr>] False, OpRecv [0, 0, 0, 4, 0, 0, 0, 0],
     OpRecv [0, 0, 0, 4, 8, 0, 0, 0, 0, 0, 0, 0, 1, 0], OpData 1 [1, 2, 3] True, OpTake, OpRecv [255], OpReset 1 Cancel, OpPoll, OpGoaway NoError]"

theorem connection_invariant_witness:
  "local_settings_ok settings_client_default \<and> list_all h2_op_ok example_ops \<and>
   (\<exists>c out. h2_run True example_ops (hc_new settings_client_default, []) = Ret (c, out) \<and> conn_ok c)"
proof -
  have "local_settings_ok settings_client_default" by code_simp
  moreover have "list_all h2_op_ok example_ops" by (simp add: example_ops_def hf_size_def id31_def)
  ultimately show ?thesis using connection_invariant by blast
qed

text \<open>
  C31. Flow-control ledger. With bodies shorter than 2^32 bytes and an initial window of at least the protocol's default,
  after any such session the output is the preface, the SETTINGS frame and a sequence of well-formed frames, and both
  connection windows account for the wire:
  the DATA bytes sent never exceed 65535 plus what the peer's connection-level WINDOW_UPDATEs, as they stand in the received
  bytes, granted; and the window the connection enforces on the peer is never below the one the peer computes from the
  updates it was sent and the DATA it delivered, so a peer that respects flow control is not refused.
\<close>

theorem flow_control_ledger:
  assumes "local_settings_ok S" "DEFAULT_WINDOW_SIZE \<le> uint (initial_window_size S)" "list_all h2_op_ok ops"
  shows "\<exists>c out outs. h2_run dbg ops (hc_new S, []) = Ret (c, out) \<and>
    out @ hc_send_buf c = CLIENT_PREFACE @ encode_frames (FSettings False S # outs) \<and> list_all frame_ok outs \<and>
    data_bytes outs \<le> DEFAULT_WINDOW_SIZE + credits (wire_frames (max_frame_size S) (bytes_in ops)) \<and>
    DEFAULT_WINDOW_SIZE + credits outs - data_bytes (wire_frames (max_frame_size S) (bytes_in ops))
      \<le> fc_window (hc_conn_recv_window c)"
proof -
  obtain c out ins outs where run: "h2_run dbg ops (hc_new S, []) = Ret (c, out)"
    and t: "tracked (CLIENT_PREFACE @ frame_encode (FSettings False S)) (min DEFAULT_WINDOW_SIZE (uint (initial_window_size S)))
      DEFAULT_WINDOW_SIZE (max_frame_size S) (bytes_in ops) ins outs (c, out)"
    using h2_run_tracked [OF hc_new_tracked [OF assms(1)] assms(3), of dbg] by (metis append_Nil prod.collapse)
  have "0 \<le> fc_window (hc_conn_send_window c)" using t by (simp add: tracked_def conn_ok_def windows_ok_def)
  then show ?thesis
    using run t subseq_sums [OF tracked_wire [OF t]] assms(2) unfolding tracked_def
    by (intro exI [of _ c] exI [of _ out] exI [of _ outs]) (simp add: min_def del: frame_encode.simps)
qed

theorem flow_control_ledger_witness:
  "local_settings_ok settings_client_default \<and> DEFAULT_WINDOW_SIZE \<le> uint (initial_window_size settings_client_default) \<and>
   list_all h2_op_ok example_ops \<and>
   (\<exists>c out outs. h2_run True example_ops (hc_new settings_client_default, []) = Ret (c, out) \<and>
     out @ hc_send_buf c = CLIENT_PREFACE @ encode_frames (FSettings False settings_client_default # outs) \<and>
     data_bytes outs \<le> 65535 + 256)"
proof -
  have h: "local_settings_ok settings_client_default" "DEFAULT_WINDOW_SIZE \<le> uint (initial_window_size settings_client_default)" by code_simp+
  have ops: "list_all h2_op_ok example_ops" by (simp add: example_ops_def hf_size_def id31_def)
  have "credits (wire_frames (max_frame_size settings_client_default) (bytes_in example_ops)) = 256" by code_simp
  then show ?thesis using h ops flow_control_ledger [OF h ops, of True] by (auto simp: DEFAULT_WINDOW_SIZE_def)
qed

end
