(* ===== verification/H2_Limits.thy ===== *)
theory H2_Limits
  imports H2_Session
begin

section \<open>HTTP/2 connection: what the limits do not cover\<close>

text \<open>
  Two places where a peer's traffic is outside the accounting of the connection: the padding of DATA frames, and header
  blocks that are continued without end.
\<close>

text \<open>A connection that is ready for the next frame on a stream.\<close>

definition ready :: "u32 \<Rightarrow> H2Stream \<Rightarrow> H2Connection \<Rightarrow> bool" where
  "ready sid s c \<longleftrightarrow> \<not> is_closing c \<and> hc_recv_buf c = [] \<and> hc_received_any_frame c \<and> stream_get sid c = Some s"

lemma recv_one:
  assumes "\<not> is_closing c" "hc_recv_buf c = []" "length b \<le> hc_max_recv_buf c"
    and d: "decode_frame b (max_frame_size (hc_local_settings c)) = Inr (Some (fr, length b))"
    and h: "handle_frame dbg fr c = Ret (Inr (), c')" and c': "\<not> is_closing c'"
  shows "hc_recv dbg b c = Ret c'"
proof -
  have f: "hc_recv_buf c' = []" using frozen_handle_frame [OF h] assms(2) by (simp add: frozen_def)
  have "set_buf [] c = c" using assms(2) by (simp add: set_buf_def)
  then have "handle_frame dbg fr (set_buf [] c) = Ret (Inr (), c')" using h by metis
  then have "process_recv_buf dbg (set_buf b c) = process_recv_buf dbg c'"
    using process_frame [of "set_buf b c" fr "length b" dbg] assms by simp
  moreover have "decode_frame [] m = Inr None" for m by (simp add: decode_frame_def)
  then have "process_recv_buf dbg c' = Ret c'" using process_wait [OF c'] f by simp
  ultimately show ?thesis using assms by (simp add: hc_recv_def set_buf_def)
qed

lemma handle_frame_ready:
  assumes "hc_received_any_frame c" "continuation_check fr c = Inr ()"
  shows "handle_frame dbg fr c = dispatch_frame dbg fr c"
proof -
  have r: "c\<lparr>hc_received_any_frame := True\<rparr> = c" using assms(1) by simp
  show ?thesis unfolding handle_frame_def Let_def r using assms by (simp add: preface_check_def)
qed

subsection \<open>Padding\<close>

definition padded_data :: "u32 \<Rightarrow> u8 \<Rightarrow> bytes" where
  "padded_data sid pad = encode_frame_header (of_nat (Suc (unat pad))) FRAME_DATA FLAG_PADDED sid @ pad # replicate (unat pad) 0"

lemma length_padded [simp]: "length (padded_data sid pad) = 10 + unat pad"
  by (simp add: padded_data_def)

lemma decode_padded:
  assumes "id31 sid" "sid \<noteq> 0" "256 \<le> m"
  shows "decode_frame (padded_data sid pad) m = Inr (Some (FData sid [] False, length (padded_data sid pad)))"
proof -
  let ?p = "pad # replicate (unat pad) (0 :: u8)"
  have pad: "unat pad < 256" using unsigned_less [of pad, where 'a = nat] by simp
  have "256 \<le> unat m" using assms(3) by (simp add: word_le_nat_alt)
  then have "decode_frame (padded_data sid pad) m =
    h2_bind (decode_payload \<lparr>fh_length = of_nat (Suc (unat pad)), fh_frame_type = FRAME_DATA, fh_flags = FLAG_PADDED, fh_stream_id = sid\<rparr> ?p)
      (\<lambda>frame. Inr (Some (frame, 9 + length ?p)))"
    unfolding padded_data_def
    using pad assms decode_encoded [of ?p sid m "of_nat (Suc (unat pad))" FRAME_DATA FLAG_PADDED "[]"]
    by (simp add: unat_of_nat take_bit_nat_eq_self del: of_nat_Suc)
  then show ?thesis
    using assms by (simp add: decode_cases frame_types FLAG_PADDED_def FLAG_END_STREAM_def)
qed

lemma recv_padded:
  assumes "ready sid s c" "hs_state s \<in> {Open, HalfClosedLocal}" "hc_continuation_stream c = None" "id31 sid" "sid \<noteq> 0"
    "256 \<le> max_frame_size (hc_local_settings c)" "10 + unat pad \<le> hc_max_recv_buf c"
  shows "hc_recv dbg (padded_data sid pad) c = Ret (push_event (H2Data sid [] False) (stream_put sid s c))"
proof (rule recv_one)
  show "decode_frame (padded_data sid pad) (max_frame_size (hc_local_settings c)) =
      Inr (Some (FData sid [] False, length (padded_data sid pad)))"
    by (rule decode_padded [OF assms(4-6)])
  have "continuation_check (FData sid [] False) c = Inr ()" using assms(3) by (simp add: continuation_check_def)
  then show "handle_frame dbg (FData sid [] False) c = Ret (Inr (), push_event (H2Data sid [] False) (stream_put sid s c))"
    using assms(1-3) handle_frame_ready [of c "FData sid [] False" dbg]
    by (auto simp: ready_def handle_data_def consume_if_def maybe_send_window_updates_def Let_def)
qed (use assms in \<open>simp_all add: ready_def\<close>)

text \<open>The frames leave the ledger as it was.\<close>

lemma recv_padded_many:
  assumes "ready sid s c" "hs_state s \<in> {Open, HalfClosedLocal}" "hc_continuation_stream c = None" "id31 sid" "sid \<noteq> 0"
    "256 \<le> max_frame_size (hc_local_settings c)" "10 + unat pad \<le> hc_max_recv_buf c"
  shows "\<exists>c'. recv_all dbg (replicate k (padded_data sid pad)) c = Ret c' \<and> ready sid s c' \<and> hc_send_buf c' = hc_send_buf c \<and>
    hc_conn_recv_window c' = hc_conn_recv_window c"
  using assms(1,3,6,7)
proof (induction k arbitrary: c)
  case (Suc k)
  let ?c = "push_event (H2Data sid [] False) (stream_put sid s c)"
  have "ready sid s ?c" "hc_continuation_stream ?c = None" "hc_local_settings ?c = hc_local_settings c" "hc_max_recv_buf ?c = hc_max_recv_buf c"
      "hc_send_buf ?c = hc_send_buf c" "hc_conn_recv_window ?c = hc_conn_recv_window c"
    using Suc.prems by (simp_all add: ready_def push_event_def stream_put_def is_closing_def stream_get_def update_conv')
  then show ?case
    using Suc.IH [of ?c] Suc.prems recv_padded [OF Suc.prems(1) assms(2) Suc.prems(2) assms(4,5) Suc.prems(3,4)] by simp
qed simp

text \<open>
  C32. Padding is not accounted. The comment in \<open>handle_data\<close> says both ends' windows must be debited alike, but a DATA
  frame's padding is stripped before its length is taken, while RFC 9113 (6.9.1) counts the whole payload. However many
  DATA frames with a pad length and no data a peer sends on an open stream, each costing it \<open>1 + pad\<close> bytes of both
  windows, the connection debits nothing and sends no WINDOW_UPDATE. Some number of them reaches the window the peer was
  granted: then it may send no more DATA and the connection never tells it otherwise.
\<close>

theorem padding_never_credited:
  assumes "ready sid s c" "hs_state s \<in> {Open, HalfClosedLocal}" "hc_continuation_stream c = None" "id31 sid" "sid \<noteq> 0"
    "256 \<le> max_frame_size (hc_local_settings c)" "10 + unat pad \<le> hc_max_recv_buf c"
  shows "(\<forall>k. \<exists>c'. recv_all dbg (replicate k (padded_data sid pad)) c = Ret c' \<and> ready sid s c' \<and>
      hc_conn_recv_window c' = hc_conn_recv_window c \<and> hc_send_buf c' = hc_send_buf c) \<and>
    (\<exists>k. fc_window (hc_conn_recv_window c) \<le> int (k * (1 + unat pad)))"
proof -
  define k where "k = nat (fc_window (hc_conn_recv_window c))"
  have "fc_window (hc_conn_recv_window c) \<le> int (k * (1 + unat pad))" unfolding k_def by (simp add: int_distrib)
  then show ?thesis using recv_padded_many [OF assms, of dbg] by blast
qed

definition open_conn :: H2Connection where
  "open_conn = (hc_new settings_client_default)\<lparr>hc_state := Ready, hc_received_any_frame := True, hc_streams := [(1, hs_new 65535 65535)]\<rparr>"

theorem padding_never_credited_witness:
  "ready 1 (hs_new 65535 65535) open_conn \<and>
   (\<exists>c'. recv_all False (replicate 256 (padded_data 1 255)) open_conn = Ret c' \<and> 65535 \<le> int (256 * 256) \<and>
     fc_window (hc_conn_recv_window c') = 65535 \<and> hc_send_buf c' = hc_send_buf open_conn)"
proof -
  have r: "ready 1 (hs_new 65535 65535) open_conn" "hc_continuation_stream open_conn = None"
      "hc_local_settings open_conn = settings_client_default" "hc_max_recv_buf open_conn = DEFAULT_MAX_RECV_BUF"
      "fc_window (hc_conn_recv_window open_conn) = 65535"
    by (simp_all add: ready_def open_conn_def is_closing_def stream_get_def hc_new_def Let_def fc_new_def settings_client_default_def
      settings_default_def del: frame_encode.simps)
  have "(\<forall>k. \<exists>c'. recv_all False (replicate k (padded_data 1 255)) open_conn = Ret c' \<and> ready 1 (hs_new 65535 65535) c' \<and>
        hc_conn_recv_window c' = hc_conn_recv_window open_conn \<and> hc_send_buf c' = hc_send_buf open_conn) \<and>
      (\<exists>k. fc_window (hc_conn_recv_window open_conn) \<le> int (k * (1 + unat (255 :: u8))))"
    using r by (intro padding_never_credited) (simp_all add: hs_new_def id31_def DEFAULT_MAX_RECV_BUF_def settings_client_default_def settings_default_def)
  then obtain c' where "recv_all False (replicate 256 (padded_data 1 255)) open_conn = Ret c'"
      "hc_conn_recv_window c' = hc_conn_recv_window open_conn" "hc_send_buf c' = hc_send_buf open_conn" by blast
  moreover have "65535 \<le> int (256 * 256)" by simp
  ultimately show ?thesis using r(1,5) by metis
qed

subsection \<open>Header blocks without end\<close>

lemma recv_continuation:
  assumes "ready sid s c" "hc_continuation_stream c = Some sid" "id31 sid" "sid \<noteq> 0" "length b < 2 ^ 24"
    "length b \<le> unat (max_frame_size (hc_local_settings c))" "9 + length b \<le> hc_max_recv_buf c"
  shows "hc_recv dbg (frame_encode (FContinuation sid b False)) c = Ret (stream_put sid (s\<lparr>hs_header_buf := hs_header_buf s @ b\<rparr>) c)"
proof (rule recv_one)
  let ?f = "FContinuation sid b False"
  show "decode_frame (frame_encode ?f) (max_frame_size (hc_local_settings c)) = Inr (Some (?f, length (frame_encode ?f)))"
    using frame_round_trip_aux [of ?f "max_frame_size (hc_local_settings c)" "[]"] assms by (simp del: frame_encode.simps)
  have "continuation_check ?f c = Inr ()" using assms(2) by (simp add: continuation_check_def)
  then show "handle_frame dbg ?f c = Ret (Inr (), stream_put sid (s\<lparr>hs_header_buf := hs_header_buf s @ b\<rparr>) c)"
    using assms(1) handle_frame_ready [of c ?f dbg] by (simp add: ready_def handle_continuation_def)
qed (use assms in \<open>simp_all add: ready_def\<close>)

text \<open>
  C33. Header blocks are unbounded until they end. \<open>max_recv_buf\<close> caps the bytes waiting for a complete frame and
  \<open>max_header_list_size\<close> is checked when END_HEADERS arrives, but a peer that keeps sending CONTINUATION frames without that
  flag is never refused: after \<open>k\<close> of them the stream's header buffer holds all \<open>k\<close> fragments, for every \<open>k\<close>, the connection
  is still open and no error has been reported, whatever limits were configured.
\<close>

theorem continuation_flood_unbounded:
  assumes "ready sid s c" "hc_continuation_stream c = Some sid" "id31 sid" "sid \<noteq> 0" "length b < 2 ^ 24"
    "length b \<le> unat (max_frame_size (hc_local_settings c))" "9 + length b \<le> hc_max_recv_buf c"
  shows "\<exists>c'. recv_all dbg (replicate k (frame_encode (FContinuation sid b False))) c = Ret c' \<and>
    ready sid (s\<lparr>hs_header_buf := hs_header_buf s @ concat (replicate k b)\<rparr>) c' \<and>
    hc_events c' = hc_events c \<and> hc_send_buf c' = hc_send_buf c"
  using assms(1,2,6,7)
proof (induction k arbitrary: c s)
  case (Suc k)
  let ?s = "s\<lparr>hs_header_buf := hs_header_buf s @ b\<rparr>"
  let ?c = "stream_put sid ?s c"
  have "ready sid ?s ?c" "hc_continuation_stream ?c = Some sid" "hc_local_settings ?c = hc_local_settings c"
      "hc_max_recv_buf ?c = hc_max_recv_buf c" "hc_send_buf ?c = hc_send_buf c" "hc_events ?c = hc_events c"
    using Suc.prems by (simp_all add: ready_def stream_put_def is_closing_def stream_get_def update_conv')
  then show ?case
    using Suc.IH [of ?s ?c] Suc.prems recv_continuation [OF Suc.prems(1,2) assms(3-5) Suc.prems(3,4)]
    by (simp del: frame_encode.simps)
qed simp

theorem continuation_flood_unbounded_witness:
  "ready 1 (hs_new 65535 65535) (open_conn\<lparr>hc_continuation_stream := Some 1\<rparr>) \<and>
   (\<exists>c' s'. recv_all False (replicate 100000 (frame_encode (FContinuation 1 (replicate 16000 0) False)))
       (open_conn\<lparr>hc_continuation_stream := Some 1\<rparr>) = Ret c' \<and>
     ready 1 s' c' \<and> length (hs_header_buf s') = 1600000000)"
proof -
  let ?c = "open_conn\<lparr>hc_continuation_stream := Some 1\<rparr>"
  have r: "ready 1 (hs_new 65535 65535) ?c" "hc_local_settings ?c = settings_client_default" "hc_max_recv_buf ?c = DEFAULT_MAX_RECV_BUF"
    by (simp_all add: ready_def open_conn_def is_closing_def stream_get_def hc_new_def Let_def del: frame_encode.simps)
  have len: "length (concat (replicate k (replicate n (0 :: u8)))) = k * n" for k n by (induction k) simp_all
  have "\<exists>c'. recv_all False (replicate 100000 (frame_encode (FContinuation 1 (replicate 16000 0) False))) ?c = Ret c' \<and>
      ready 1 ((hs_new 65535 65535)\<lparr>hs_header_buf := hs_header_buf (hs_new 65535 65535) @ concat (replicate 100000 (replicate 16000 0))\<rparr>) c' \<and>
      hc_events c' = hc_events ?c \<and> hc_send_buf c' = hc_send_buf ?c"
    using r by (intro continuation_flood_unbounded)
      (simp_all add: id31_def DEFAULT_MAX_RECV_BUF_def settings_client_default_def settings_default_def)
  then obtain c' where c': "recv_all False (replicate 100000 (frame_encode (FContinuation 1 (replicate 16000 0) False))) ?c = Ret c'"
      "ready 1 ((hs_new 65535 65535)\<lparr>hs_header_buf := hs_header_buf (hs_new 65535 65535) @ concat (replicate 100000 (replicate 16000 0))\<rparr>) c'"
    by blast
  then show ?thesis using r(1) by (intro conjI exI [of _ c'] exI) (assumption | simp add: len hs_new_def)+
qed

end
