(* ===== verification/Grpc_Message.thy ===== *)
theory Grpc_Message
  imports H2_Wire
begin

section \<open>gRPC: length-prefixed messages\<close>

text \<open>
  \<open>ringline-grpc/src/message.rs\<close>: a message is a compression flag, a 32-bit big-endian length and the payload; a
  \<open>MessageBuffer\<close> reassembles messages from the DATA frames of a stream. Lengths are those of a 64-bit platform.
\<close>

definition DEFAULT_MAX_MESSAGE_SIZE :: nat where "DEFAULT_MAX_MESSAGE_SIZE = 4 * 1024 * 1024"

datatype EncodeTooLarge = EncodeTooLarge nat

datatype GrpcError = GrpcH2 H2Error | InvalidMessage message | GrpcMaxSizeExceeded message | NotReady

definition usize_saturating_add :: "nat \<Rightarrow> nat \<Rightarrow> nat" where
  "usize_saturating_add a b = min (a + b) (2 ^ 64 - 1)"

definition length_prefix :: "nat \<Rightarrow> EncodeTooLarge + u32" where
  "length_prefix len = (if len < 2 ^ 32 then Inr (of_nat len) else Inl (EncodeTooLarge len))"

definition encode_flagged :: "u8 \<Rightarrow> bytes \<Rightarrow> bytes \<Rightarrow> EncodeTooLarge + bytes" where
  "encode_flagged flag payload out =
     (case length_prefix (length payload) of
        Inl e \<Rightarrow> Inl e
      | Inr len \<Rightarrow> Inr (out @ [flag] @ u32_bytes len @ payload))"

definition grpc_encode :: "bytes \<Rightarrow> bytes \<Rightarrow> EncodeTooLarge + bytes" where
  "grpc_encode payload out = encode_flagged 0 payload out"

definition grpc_encode_compressed :: "bytes \<Rightarrow> bytes \<Rightarrow> EncodeTooLarge + bytes" where
  "grpc_encode_compressed payload out = encode_flagged 1 payload out"

datatype DecodeResult = DrComplete bytes bool nat | DrIncomplete nat | DrTooLarge nat

fun grpc_decode :: "bytes \<Rightarrow> nat \<Rightarrow> DecodeResult" where
  "grpc_decode (flag # b0 # b1 # b2 # b3 # rest) max_size =
     (let len = unat (read_u32 b0 b1 b2 b3); buf_len = 5 + length rest in
      if max_size < len then DrTooLarge len
      else if buf_len < 5 + len then DrIncomplete (5 + len - buf_len)
      else DrComplete (take len rest) (flag \<noteq> 0) (5 + len))"
| "grpc_decode buf max_size = DrIncomplete (5 - length buf)"

record MessageBuffer =
  mb_buf :: bytes
  mb_max_message_size :: nat

datatype BufferDecode = BdComplete bytes bool | BdIncomplete | BdTooLarge nat

definition mb_new :: "nat \<Rightarrow> MessageBuffer" where
  "mb_new max_message_size = \<lparr>mb_buf = [], mb_max_message_size = max_message_size\<rparr>"

definition mb_push :: "bytes \<Rightarrow> MessageBuffer \<Rightarrow> GrpcError + MessageBuffer" where
  "mb_push data mb =
     (if usize_saturating_add (mb_max_message_size mb) 5 < usize_saturating_add (length (mb_buf mb)) (length data) then
        Inl (GrpcMaxSizeExceeded [Lit ''message reassembly buffer exceeds '', Num (mb_max_message_size mb + 5), Lit '' bytes''])
      else Inr (mb\<lparr>mb_buf := mb_buf mb @ data\<rparr>))"

definition mb_try_decode :: "MessageBuffer \<Rightarrow> BufferDecode \<times> MessageBuffer" where
  "mb_try_decode mb =
     (case grpc_decode (mb_buf mb) (mb_max_message_size mb) of
        DrComplete payload compressed consumed \<Rightarrow> (BdComplete payload compressed, mb\<lparr>mb_buf := drop consumed (mb_buf mb)\<rparr>)
      | DrIncomplete _ \<Rightarrow> (BdIncomplete, mb)
      | DrTooLarge n \<Rightarrow> (BdTooLarge n, mb))"

definition mb_is_empty :: "MessageBuffer \<Rightarrow> bool" where
  "mb_is_empty mb \<longleftrightarrow> mb_buf mb = []"

subsection \<open>Streams of messages\<close>

lemma grpc_decode_consumed: "grpc_decode buf m = DrComplete p c n \<Longrightarrow> 0 < n \<and> n \<le> length buf"
  by (induction buf m rule: grpc_decode.induct) (auto simp: Let_def split: if_splits)

lemma grpc_decode_shrinks: "grpc_decode buf m = DrComplete p c n \<Longrightarrow> length (drop n buf) < length buf"
  by (auto dest: grpc_decode_consumed)

function mb_drain :: "MessageBuffer \<Rightarrow> (bytes \<times> bool) list \<times> BufferDecode \<times> MessageBuffer" where
  "mb_drain mb =
     (case mb_try_decode mb of
        (BdComplete p c, mb') \<Rightarrow> (case mb_drain mb' of (ms, stop, rest) \<Rightarrow> ((p, c) # ms, stop, rest))
      | (stop, mb') \<Rightarrow> ([], stop, mb'))"
  by pat_completeness auto
termination
  by (relation "measure (\<lambda>mb. length (mb_buf mb))")
    (auto simp: mb_try_decode_def split: DecodeResult.splits dest: grpc_decode_consumed)

declare mb_drain.simps [simp del]

fun grpc_encode_all :: "(bytes \<times> bool) list \<Rightarrow> bytes \<Rightarrow> EncodeTooLarge + bytes" where
  "grpc_encode_all [] out = Inr out"
| "grpc_encode_all ((p, compressed) # ms) out =
     (case if compressed then grpc_encode_compressed p out else grpc_encode p out of
        Inl e \<Rightarrow> Inl e
      | Inr out' \<Rightarrow> grpc_encode_all ms out')"

text \<open>What a stream does with the DATA frames it gets: push each, then take the complete messages.\<close>

fun mb_feed :: "bytes list \<Rightarrow> MessageBuffer \<Rightarrow> GrpcError + (bytes \<times> bool) list \<times> BufferDecode \<times> MessageBuffer" where
  "mb_feed [] mb = Inr ([], BdIncomplete, mb)"
| "mb_feed (data # ds) mb =
     (case mb_push data mb of
        Inl e \<Rightarrow> Inl e
      | Inr mb1 \<Rightarrow>
          (case mb_drain mb1 of
             (ms, BdIncomplete, mb2) \<Rightarrow>
               (case mb_feed ds mb2 of Inl e \<Rightarrow> Inl e | Inr (ms', stop, mb3) \<Rightarrow> Inr (ms @ ms', stop, mb3))
           | (ms, stop, mb2) \<Rightarrow> Inr (ms, stop, mb2)))"

lemma mb_drain_complete:
  "grpc_decode b m = DrComplete p c n \<Longrightarrow> mb_drain \<lparr>mb_buf = b, mb_max_message_size = m\<rparr> =
     (case mb_drain \<lparr>mb_buf = drop n b, mb_max_message_size = m\<rparr> of (ms, stop, rest) \<Rightarrow> ((p, c) # ms, stop, rest))"
  by (subst mb_drain.simps) (simp add: mb_try_decode_def)

lemma mb_drain_stop:
  "grpc_decode b m = DrIncomplete k \<Longrightarrow> mb_drain \<lparr>mb_buf = b, mb_max_message_size = m\<rparr> = ([], BdIncomplete, \<lparr>mb_buf = b, mb_max_message_size = m\<rparr>)"
  "grpc_decode b m = DrTooLarge l \<Longrightarrow> mb_drain \<lparr>mb_buf = b, mb_max_message_size = m\<rparr> = ([], BdTooLarge l, \<lparr>mb_buf = b, mb_max_message_size = m\<rparr>)"
  by (subst mb_drain.simps, simp add: mb_try_decode_def)+

lemma grpc_decode_append:
  "grpc_decode b m = DrComplete p c n \<Longrightarrow> grpc_decode (b @ d) m = DrComplete p c n"
  "grpc_decode b m = DrTooLarge l \<Longrightarrow> grpc_decode (b @ d) m = DrTooLarge l"
  by (induction b m rule: grpc_decode.induct) (auto simp: Let_def split: if_splits)

text \<open>Draining in two steps, or at once.\<close>

lemma mb_drain_append:
  assumes "mb_drain \<lparr>mb_buf = b, mb_max_message_size = m\<rparr> = (ms, BdIncomplete, mb')"
  shows "mb_max_message_size mb' = m \<and>
    mb_drain \<lparr>mb_buf = b @ d, mb_max_message_size = m\<rparr> =
      (case mb_drain \<lparr>mb_buf = mb_buf mb' @ d, mb_max_message_size = m\<rparr> of (ms', stop, rest) \<Rightarrow> (ms @ ms', stop, rest))"
  using assms
proof (induction "length b" arbitrary: b ms rule: less_induct)
  case less
  show ?case
  proof (cases "grpc_decode b m")
    case (DrComplete p c n)
    obtain ms1 where d: "mb_drain \<lparr>mb_buf = drop n b, mb_max_message_size = m\<rparr> = (ms1, BdIncomplete, mb')" "ms = (p, c) # ms1"
      using less.prems mb_drain_complete [OF DrComplete] by (auto split: prod.splits)
    have n: "n \<le> length b" using grpc_decode_consumed [OF DrComplete] by simp
    from less.hyps [OF grpc_decode_shrinks [OF DrComplete] d(1)] show ?thesis
      using mb_drain_complete [OF grpc_decode_append(1) [OF DrComplete], of d] n d(2) by (simp split: prod.splits)
  next
    case (DrIncomplete k)
    then show ?thesis using less.prems mb_drain_stop(1) by (auto split: prod.splits)
  next
    case (DrTooLarge l)
    then show ?thesis using less.prems mb_drain_stop(2) by auto
  qed
qed

lemma mb_drain_too_large:
  assumes "mb_drain \<lparr>mb_buf = b, mb_max_message_size = m\<rparr> = (ms, BdTooLarge l, mb')"
  shows "\<exists>mb''. mb_drain \<lparr>mb_buf = b @ d, mb_max_message_size = m\<rparr> = (ms, BdTooLarge l, mb'')"
  using assms
proof (induction "length b" arbitrary: b ms rule: less_induct)
  case less
  show ?case
  proof (cases "grpc_decode b m")
    case (DrComplete p c n)
    obtain ms1 where d: "mb_drain \<lparr>mb_buf = drop n b, mb_max_message_size = m\<rparr> = (ms1, BdTooLarge l, mb')" "ms = (p, c) # ms1"
      using less.prems mb_drain_complete [OF DrComplete] by (auto split: prod.splits)
    have n: "n \<le> length b" using grpc_decode_consumed [OF DrComplete] by simp
    from less.hyps [OF grpc_decode_shrinks [OF DrComplete] d(1)] show ?thesis
      using mb_drain_complete [OF grpc_decode_append(1) [OF DrComplete], of d] n d(2) by auto
  next
    case (DrIncomplete k)
    then show ?thesis using less.prems mb_drain_stop(1) by auto
  next
    case (DrTooLarge l')
    then show ?thesis using less.prems mb_drain_stop(2) grpc_decode_append(2) [OF DrTooLarge] by auto
  qed
qed

lemma mb_drain_rest:
  assumes "mb_drain \<lparr>mb_buf = b, mb_max_message_size = m\<rparr> = (ms, BdIncomplete, mb')"
  shows "length (mb_buf mb') < 5 + m"
  using assms
proof (induction "length b" arbitrary: b ms rule: less_induct)
  case less
  show ?case
  proof (cases "grpc_decode b m")
    case (DrComplete p c n)
    then show ?thesis
      using less.prems less.hyps [of "drop n b"] mb_drain_complete [OF DrComplete] grpc_decode_consumed [OF DrComplete]
      by (auto split: prod.splits)
  next
    case (DrIncomplete k)
    then have "length b < 5 + m" by (induction b m rule: grpc_decode.induct) (auto simp: Let_def split: if_splits)
    then show ?thesis using less.prems mb_drain_stop(1) [OF DrIncomplete] by auto
  qed (use less.prems mb_drain_stop(2) in auto)
qed

lemma mb_drain_message:
  assumes "length p \<le> m" "length p < 2 ^ 32" "f = (if c then 1 else 0)"
  shows "mb_drain \<lparr>mb_buf = (f # u32_bytes (of_nat (length p)) @ p) @ rest, mb_max_message_size = m\<rparr> =
    (case mb_drain \<lparr>mb_buf = rest, mb_max_message_size = m\<rparr> of (ms, stop, mb) \<Rightarrow> ((p, c) # ms, stop, mb))"
proof -
  have "unat (of_nat (length p) :: u32) = length p" using assms(2) by (intro unat_of_nat_fits) simp
  then have "grpc_decode ((f # u32_bytes (of_nat (length p)) @ p) @ rest) m = DrComplete p c (5 + length p)"
    using assms by (simp add: u32_bytes_def read_u32_bytes)
  moreover have "length (f # u32_bytes (of_nat (length p)) @ p) = 5 + length p" by (simp add: u32_bytes_def)
  then have "drop (5 + length p) ((f # u32_bytes (of_nat (length p)) @ p) @ rest) = rest" by (metis append_eq_conv_conj)
  ultimately show ?thesis using mb_drain_complete by metis
qed

definition messages_ok :: "nat \<Rightarrow> (bytes \<times> bool) list \<Rightarrow> bool" where
  "messages_ok m ms \<longleftrightarrow> list_all (\<lambda>(p, c). length p \<le> m \<and> length p < 2 ^ 32) ms"

lemma encode_all_drains:
  assumes "messages_ok m ms"
  shows "\<exists>enc. grpc_encode_all ms out = Inr (out @ enc) \<and>
    mb_drain \<lparr>mb_buf = enc, mb_max_message_size = m\<rparr> = (ms, BdIncomplete, \<lparr>mb_buf = [], mb_max_message_size = m\<rparr>)"
  using assms
proof (induction ms arbitrary: out)
  case Nil
  have "grpc_decode [] m = DrIncomplete 5" by simp
  then show ?case using mb_drain_stop(1) by auto
next
  case (Cons pc ms)
  obtain p c where pc: "pc = (p, c)" by fastforce
  let ?e = "(if c then 1 else 0) # u32_bytes (of_nat (length p)) @ p"
  have ok: "length p \<le> m" "length p < 2 ^ 32" "messages_ok m ms" using Cons.prems pc by (auto simp: messages_ok_def)
  obtain enc where enc: "grpc_encode_all ms (out @ ?e) = Inr ((out @ ?e) @ enc)"
    "mb_drain \<lparr>mb_buf = enc, mb_max_message_size = m\<rparr> = (ms, BdIncomplete, \<lparr>mb_buf = [], mb_max_message_size = m\<rparr>)"
    using Cons.IH [OF ok(3), of "out @ ?e"] by blast
  have "grpc_encode_all (pc # ms) out = Inr (out @ ?e @ enc)"
    using enc(1) ok(2) pc by (cases c) (simp_all add: grpc_encode_def grpc_encode_compressed_def encode_flagged_def length_prefix_def)
  moreover have "mb_drain \<lparr>mb_buf = ?e @ enc, mb_max_message_size = m\<rparr> = (pc # ms, BdIncomplete, \<lparr>mb_buf = [], mb_max_message_size = m\<rparr>)"
    using mb_drain_message [OF ok(1,2) refl, of c enc] enc(2) pc by simp
  ultimately show ?case by blast
qed

lemma mb_drain_not_complete: "mb_drain \<lparr>mb_buf = b, mb_max_message_size = m\<rparr> \<noteq> (ms, BdComplete p c, mb')"
proof (induction "length b" arbitrary: b ms rule: less_induct)
  case less
  show ?case
  proof (cases "grpc_decode b m")
    case (DrComplete q f n)
    from less [OF grpc_decode_shrinks [OF DrComplete]] show ?thesis using mb_drain_complete [OF DrComplete] by (auto split: prod.splits)
  qed (simp_all add: mb_drain_stop)
qed

lemma mb_feed_drain:
  assumes "mb_drain \<lparr>mb_buf = b @ concat ds, mb_max_message_size = m\<rparr> = (ms, BdIncomplete, mb')"
    "mb_drain \<lparr>mb_buf = b, mb_max_message_size = m\<rparr> = ([], BdIncomplete, \<lparr>mb_buf = b, mb_max_message_size = m\<rparr>)"
  shows "(\<forall>r. mb_feed ds \<lparr>mb_buf = b, mb_max_message_size = m\<rparr> = Inr r \<longrightarrow> r = (ms, BdIncomplete, mb')) \<and>
    (m < 2 ^ 63 \<longrightarrow> (\<forall>d\<in>set ds. length d \<le> 1) \<longrightarrow> mb_feed ds \<lparr>mb_buf = b, mb_max_message_size = m\<rparr> = Inr (ms, BdIncomplete, mb'))"
  using assms
proof (induction ds arbitrary: b ms)
  case (Cons d ds)
  let ?mb = "\<lparr>mb_buf = b @ d, mb_max_message_size = m\<rparr>"
  obtain ms1 stop mb1 where d: "mb_drain ?mb = (ms1, stop, mb1)" by (cases "mb_drain ?mb")
  have push: "mb_push d \<lparr>mb_buf = b, mb_max_message_size = m\<rparr> = Inr ?mb" if "m < 2 ^ 63" "length d \<le> 1"
    using that mb_drain_rest [OF Cons.prems(2)] by (simp add: mb_push_def usize_saturating_add_def)
  have stop: "stop = BdIncomplete"
  proof (cases stop)
    case (BdComplete p c)
    then show ?thesis using d mb_drain_not_complete by metis
  next
    case (BdTooLarge l)
    then show ?thesis using mb_drain_too_large [of "b @ d" m ms1 l mb1 "concat ds"] d Cons.prems(1) by simp
  qed simp
  obtain b1 where mb1: "mb1 = \<lparr>mb_buf = b1, mb_max_message_size = m\<rparr>"
    using mb_drain_append [OF d [unfolded stop]] by (cases mb1) auto
  note d = d [unfolded stop mb1]
  have whole: "mb_drain \<lparr>mb_buf = (b @ d) @ x, mb_max_message_size = m\<rparr> =
      (case mb_drain \<lparr>mb_buf = b1 @ x, mb_max_message_size = m\<rparr> of (ms', stop, rest) \<Rightarrow> (ms1 @ ms', stop, rest))" for x
    using mb_drain_append [OF d, of x] by simp
  have again: "mb_drain \<lparr>mb_buf = b1, mb_max_message_size = m\<rparr> = ([], BdIncomplete, \<lparr>mb_buf = b1, mb_max_message_size = m\<rparr>)"
    using whole [of "[]"] d by (auto split: prod.splits)
  obtain ms2 where ms2: "mb_drain \<lparr>mb_buf = b1 @ concat ds, mb_max_message_size = m\<rparr> = (ms2, BdIncomplete, mb')" "ms = ms1 @ ms2"
    using whole [of "concat ds"] Cons.prems(1) by (auto split: prod.splits)
  have feed: "mb_feed (d # ds) \<lparr>mb_buf = b, mb_max_message_size = m\<rparr> = (case mb_push d \<lparr>mb_buf = b, mb_max_message_size = m\<rparr> of Inl e \<Rightarrow> Inl e
      | Inr _ \<Rightarrow> (case mb_feed ds \<lparr>mb_buf = b1, mb_max_message_size = m\<rparr> of Inl e \<Rightarrow> Inl e | Inr (ms', stop, mb3) \<Rightarrow> Inr (ms1 @ ms', stop, mb3)))"
    using d by (simp add: mb_push_def)
  note ih = Cons.IH [OF ms2(1) again]
  have "r = (ms, BdIncomplete, mb')" if "mb_feed (d # ds) \<lparr>mb_buf = b, mb_max_message_size = m\<rparr> = Inr r" for r
    using that feed ms2(2) conjunct1 [OF ih] by (auto split: sum.splits)
  moreover have "mb_feed (d # ds) \<lparr>mb_buf = b, mb_max_message_size = m\<rparr> = Inr (ms, BdIncomplete, mb')"
    if "m < 2 ^ 63" "\<forall>d\<in>set (d # ds). length d \<le> 1"
    using that feed ms2(2) push conjunct2 [OF ih] by simp
  ultimately show ?case by blast
qed simp

text \<open>
  C37. gRPC messages survive their transport. Messages that fit the limit encode without error, and however the bytes are cut
  into DATA frames, pushing each frame and taking the complete messages yields exactly the messages that were encoded, in
  order, payloads and compression flags, and leaves the buffer empty, unless a frame is refused because the buffer would
  exceed the limit. No frame of one byte is ever refused.
\<close>

theorem grpc_messages_reassembled:
  assumes "messages_ok m ms"
  shows "\<exists>enc. grpc_encode_all ms [] = Inr enc \<and>
    (\<forall>ds. concat ds = enc \<longrightarrow>
      (\<forall>r. mb_feed ds (mb_new m) = Inr r \<longrightarrow> r = (ms, BdIncomplete, mb_new m)) \<and>
      (m < 2 ^ 63 \<longrightarrow> (\<forall>d\<in>set ds. length d \<le> 1) \<longrightarrow> mb_feed ds (mb_new m) = Inr (ms, BdIncomplete, mb_new m)))"
proof -
  obtain enc where "grpc_encode_all ms [] = Inr enc"
    "mb_drain \<lparr>mb_buf = enc, mb_max_message_size = m\<rparr> = (ms, BdIncomplete, \<lparr>mb_buf = [], mb_max_message_size = m\<rparr>)"
    using encode_all_drains [OF assms, of "[]"] by auto
  moreover have "mb_drain \<lparr>mb_buf = [], mb_max_message_size = m\<rparr> = ([], BdIncomplete, \<lparr>mb_buf = [], mb_max_message_size = m\<rparr>)"
    using mb_drain_stop(1) [of "[]" m 5] by simp
  ultimately show ?thesis using mb_feed_drain [of "[]" _ m ms] unfolding mb_new_def by (metis append_Nil)
qed

theorem grpc_messages_reassembled_witness:
  "messages_ok 16 [([1, 2, 3], False), ([], True)] \<and>
   grpc_encode_all [([1, 2, 3], False), ([], True)] [] = Inr [0, 0, 0, 0, 3, 1, 2, 3, 1, 0, 0, 0, 0] \<and>
   mb_feed [[0, 0], [0, 0, 3, 1, 2], [3, 1, 0, 0, 0], [0]] (mb_new 16) = Inr ([([1, 2, 3], False), ([], True)], BdIncomplete, mb_new 16)"
proof -
  have ok: "messages_ok 16 [([1, 2, 3], False), ([], True)]" by (simp add: messages_ok_def)
  have enc: "grpc_encode_all [([1, 2, 3], False), ([], True)] [] = Inr [0, 0, 0, 0, 3, 1, 2, 3, 1, 0, 0, 0, 0]"
    by (simp add: grpc_encode_def grpc_encode_compressed_def encode_flagged_def length_prefix_def u32_bytes_def)
  obtain enc' where all: "grpc_encode_all [([1, 2, 3], False), ([], True)] [] = Inr enc'"
    "\<forall>ds. concat ds = enc' \<longrightarrow> (\<forall>r. mb_feed ds (mb_new 16) = Inr r \<longrightarrow> r = ([([1, 2, 3], False), ([], True)], BdIncomplete, mb_new 16))"
    using grpc_messages_reassembled [OF ok] by blast
  have "concat [[0, 0], [0, 0, 3, 1, 2], [3, 1, 0, 0, 0], [0]] = enc'" using all(1) enc by simp
  moreover have "\<exists>r. mb_feed [[0, 0], [0, 0, 3, 1, 2], [3, 1, 0, 0, 0], [0]] (mb_new 16) = Inr r"
    by (simp add: mb_new_def mb_push_def usize_saturating_add_def mb_drain.simps mb_try_decode_def read_u32_def)
  ultimately show ?thesis using all(2) ok enc by blast
qed

end
