(* ===== verification/Grpc_Connection.thy ===== *)
theory Grpc_Connection
  imports Grpc_Message H2_Session
begin

section \<open>gRPC: client connection\<close>

text \<open>
  \<open>ringline-grpc/src/connection.rs\<close> and \<open>compress.rs\<close> over the HTTP/2 connection: requests, the translation of HTTP/2 events
  into gRPC events, per-stream reassembly and status extraction. The gzip and zstd decoders belong to other crates and are
  arguments, absent when their feature is off: given a payload and a limit they yield the bytes read up to the limit, or an
  error text. The streams are an association list; the code's hash map gives no order.
\<close>

datatype GrpcStatus = GsOk | GsCancelled | GsUnknown | GsInvalidArgument | GsDeadlineExceeded | GsNotFound | GsAlreadyExists
  | GsPermissionDenied | GsResourceExhausted | GsFailedPrecondition | GsAborted | GsOutOfRange | GsUnimplemented | GsInternal
  | GsUnavailable | GsDataLoss | GsUnauthenticated

definition grpc_status_table :: "GrpcStatus list" where
  "grpc_status_table = [GsOk, GsCancelled, GsUnknown, GsInvalidArgument, GsDeadlineExceeded, GsNotFound, GsAlreadyExists,
     GsPermissionDenied, GsResourceExhausted, GsFailedPrecondition, GsAborted, GsOutOfRange, GsUnimplemented, GsInternal,
     GsUnavailable, GsDataLoss, GsUnauthenticated]"

definition grpc_status_from_u8 :: "u8 \<Rightarrow> GrpcStatus" where
  "grpc_status_from_u8 v = (if unat v < length grpc_status_table then grpc_status_table ! unat v else GsUnknown)"

subsection \<open>Texts and numbers\<close>

fun error_code_debug :: "ErrorCode \<Rightarrow> string" where
  "error_code_debug NoError = ''NoError''"
| "error_code_debug ProtocolErrorCode = ''ProtocolError''"
| "error_code_debug InternalErrorCode = ''InternalError''"
| "error_code_debug FlowControlErrorCode = ''FlowControlError''"
| "error_code_debug SettingsTimeout = ''SettingsTimeout''"
| "error_code_debug StreamClosedCode = ''StreamClosed''"
| "error_code_debug FrameSizeErrorCode = ''FrameSizeError''"
| "error_code_debug RefusedStream = ''RefusedStream''"
| "error_code_debug Cancel = ''Cancel''"
| "error_code_debug CompressionErrorCode = ''CompressionError''"
| "error_code_debug ConnectError = ''ConnectError''"
| "error_code_debug EnhanceYourCalm = ''EnhanceYourCalm''"
| "error_code_debug InadequateSecurity = ''InadequateSecurity''"
| "error_code_debug Http11Required = ''Http11Required''"

fun grpc_error_display :: "GrpcError \<Rightarrow> message" where
  "grpc_error_display (GrpcH2 e) = Lit ''h2: '' # h2_error_display e error_code_debug"
| "grpc_error_display (InvalidMessage s) = Lit ''invalid grpc message: '' # s"
| "grpc_error_display (GrpcMaxSizeExceeded s) = Lit ''max size exceeded: '' # s"
| "grpc_error_display NotReady = [Lit ''connection not ready'']"

fun encode_too_large_display :: "EncodeTooLarge \<Rightarrow> message" where
  "encode_too_large_display (EncodeTooLarge len) = [Lit ''gRPC message payload '', Num len, Lit '' exceeds u32::MAX (4 GiB - 1)'']"

text \<open>\<open>str::parse\<close> for an unsigned integer of width \<open>w\<close>: an optional plus sign and decimal digits, within the range. A text that
  is not UTF-8 contains a byte that is not a digit.\<close>

definition is_digit :: "u8 \<Rightarrow> bool" where
  "is_digit b \<longleftrightarrow> 0x30 \<le> b \<and> b \<le> 0x39"

definition digits_value :: "bytes \<Rightarrow> nat" where
  "digits_value ds = fold (\<lambda>d n. 10 * n + unat (d - 0x30)) ds 0"

definition parse_uint :: "nat \<Rightarrow> bytes \<Rightarrow> nat option" where
  "parse_uint w s =
     (let ds = (if 1 < length s \<and> hd s = 0x2b then tl s else s) in
      if ds \<noteq> [] \<and> list_all is_digit ds \<and> digits_value ds < 2 ^ w then Some (digits_value ds) else None)"

definition to_ascii_lowercase :: "u8 \<Rightarrow> u8" where
  "to_ascii_lowercase b = (if is_ascii_uppercase b then b + 0x20 else b)"

definition header_name_eq :: "bytes \<Rightarrow> bytes \<Rightarrow> bool" where
  "header_name_eq a b \<longleftrightarrow> map to_ascii_lowercase a = map to_ascii_lowercase b"

definition hex_value :: "u8 \<Rightarrow> u8 option" where
  "hex_value c =
     (if 0x30 \<le> c \<and> c \<le> 0x39 then Some (c - 0x30)
      else if 0x61 \<le> c \<and> c \<le> 0x66 then Some (c - 0x61 + 10)
      else if 0x41 \<le> c \<and> c \<le> 0x46 then Some (c - 0x41 + 10)
      else None)"

fun percent_decode :: "bytes \<Rightarrow> bytes" where
  "percent_decode (c # h # l # rest) =
     (if c = 0x25 then
        (case (hex_value h, hex_value l) of
           (Some hi, Some lo) \<Rightarrow> (push_bit 4 hi OR lo) # percent_decode rest
         | _ \<Rightarrow> c # percent_decode (h # l # rest))
      else c # percent_decode (h # l # rest))"
| "percent_decode (c # rest) = c # percent_decode rest"
| "percent_decode [] = []"

definition header_value :: "(bytes \<Rightarrow> bool) \<Rightarrow> HeaderField list \<Rightarrow> bytes option" where
  "header_value p hs = map_option hf_value (find (\<lambda>h. p (hf_name h)) hs)"

definition extract_grpc_message :: "HeaderField list \<Rightarrow> message" where
  "extract_grpc_message headers =
     (case header_value (\<lambda>n. header_name_eq n (ascii ''grpc-message'')) headers of
        Some raw \<Rightarrow> [Lossy (percent_decode raw)]
      | None \<Rightarrow> [])"

definition extract_grpc_status :: "HeaderField list \<Rightarrow> GrpcStatus" where
  "extract_grpc_status headers =
     (case Option.bind (header_value (\<lambda>n. n = ascii ''grpc-status'') headers) (parse_uint 8) of
        Some n \<Rightarrow> grpc_status_from_u8 (of_nat n)
      | None \<Rightarrow> GsUnknown)"

definition http_code_status :: "nat \<Rightarrow> GrpcStatus" where
  "http_code_status code =
     (if code = 400 then GsInternal
      else if code = 401 then GsUnauthenticated
      else if code = 403 then GsPermissionDenied
      else if code = 404 then GsUnimplemented
      else if code = 429 \<or> code = 502 \<or> code = 503 \<or> code = 504 then GsUnavailable
      else GsUnknown)"

definition http_status_to_grpc_status :: "HeaderField list \<Rightarrow> (GrpcStatus \<times> message) option" where
  "http_status_to_grpc_status headers =
     (case Option.bind (header_value (\<lambda>n. n = ascii '':status'') headers) (parse_uint 16) of
        None \<Rightarrow> None
      | Some code \<Rightarrow> if code = 200 then None else Some (http_code_status code, [Lit ''HTTP/2 :status '', Num code]))"

definition derive_status :: "HeaderField list \<Rightarrow> (GrpcStatus \<times> message) option \<Rightarrow> GrpcStatus \<times> message" where
  "derive_status headers override =
     (case override of
        Some x \<Rightarrow> x
      | None \<Rightarrow>
          (case header_value (\<lambda>n. header_name_eq n (ascii ''grpc-status'')) headers of
             None \<Rightarrow> (GsInternal, [Lit ''missing grpc-status trailer''])
           | Some raw \<Rightarrow>
               (case parse_uint 32 raw of
                  Some n \<Rightarrow>
                    if n \<le> 16 then (grpc_status_from_u8 (of_nat n), extract_grpc_message headers)
                    else (GsInternal, [Lit ''invalid grpc-status value: '', Num n])
                | None \<Rightarrow> (GsInternal, [Lit ''invalid grpc-status value: '', LossyDebug raw]))))"

text \<open>A \<open>Duration\<close> is its number of nanoseconds.\<close>

definition encode_grpc_timeout :: "nat \<Rightarrow> bytes" where
  "encode_grpc_timeout nanos =
     (let micros = nanos div 10 ^ 3; millis = nanos div 10 ^ 6; secs = nanos div 10 ^ 9; minutes = secs div 60; hours = secs div 3600 in
      if nanos \<le> 99999999 then decimal nanos @ ascii ''n''
      else if micros \<le> 99999999 then decimal micros @ ascii ''u''
      else if millis \<le> 99999999 then decimal millis @ ascii ''m''
      else if secs \<le> 99999999 then decimal secs @ ascii ''S''
      else if minutes \<le> 99999999 then decimal minutes @ ascii ''M''
      else if hours \<le> 99999999 then decimal hours @ ascii ''H''
      else ascii ''99999999H'')"

subsection \<open>Compression\<close>

type_synonym decoder = "bytes \<Rightarrow> nat \<Rightarrow> message + bytes"

record Codecs =
  cd_gzip :: "decoder option"
  cd_zstd :: "decoder option"

definition decompress_with :: "string \<Rightarrow> decoder \<Rightarrow> bytes \<Rightarrow> nat \<Rightarrow> GrpcError + bytes" where
  "decompress_with name decoder data max_size =
     (case decoder data (usize_saturating_add max_size 1) of
        Inl e \<Rightarrow> Inl (InvalidMessage (Lit (name @ '' decompress: '') # e))
      | Inr buf \<Rightarrow>
          if max_size < length buf then
            Inl (GrpcMaxSizeExceeded [Lit (name @ '' decompression exceeds ''), Num max_size, Lit '' bytes''])
          else Inr buf)"

definition decompress :: "Codecs \<Rightarrow> bytes \<Rightarrow> bytes \<Rightarrow> nat \<Rightarrow> GrpcError + bytes" where
  "decompress cd encoding data max_size =
     (let unsupported = Inl (InvalidMessage [Lit ''unsupported grpc-encoding: '', Lossy encoding]) in
      if encoding = ascii ''gzip'' then
        (case cd_gzip cd of Some d \<Rightarrow> decompress_with ''gzip'' d data max_size | None \<Rightarrow> unsupported)
      else if encoding = ascii ''zstd'' then
        (case cd_zstd cd of Some d \<Rightarrow> decompress_with ''zstd'' d data max_size | None \<Rightarrow> unsupported)
      else if encoding = ascii ''identity'' then
        (if max_size < length data then
           Inl (GrpcMaxSizeExceeded [Lit ''identity message of '', Num (length data), Lit '' bytes exceeds cap '', Num max_size])
         else Inr data)
      else unsupported)"

definition accept_encoding_value :: "Codecs \<Rightarrow> bytes option" where
  "accept_encoding_value cd =
     (case (cd_gzip cd, cd_zstd cd) of
        (Some _, Some _) \<Rightarrow> Some (ascii ''identity,gzip,zstd'')
      | (Some _, None) \<Rightarrow> Some (ascii ''identity,gzip'')
      | (None, Some _) \<Rightarrow> Some (ascii ''identity,zstd'')
      | (None, None) \<Rightarrow> None)"

subsection \<open>State\<close>

record StreamState =
  ss_buffer :: MessageBuffer
  ss_encoding :: "bytes option"
  ss_response_seen :: bool

definition ss_new :: "nat \<Rightarrow> StreamState" where
  "ss_new max_message_size = \<lparr>ss_buffer = mb_new max_message_size, ss_encoding = None, ss_response_seen = False\<rparr>"

datatype GrpcEvent =
    GReady
  | GResponse u32 "HeaderField list"
  | GMessage u32 bytes
  | GStatus u32 GrpcStatus message "HeaderField list"
  | GGoAway u32 ErrorCode bytes
  | GErrorEvent GrpcError

record GrpcConnection =
  gc_h2 :: H2Connection
  gc_ready :: bool
  gc_buffers :: "(u32 \<times> StreamState) list"
  gc_events :: "GrpcEvent list"
  gc_max_message_size :: nat

definition gc_new :: "Settings \<Rightarrow> GrpcConnection" where
  "gc_new settings = \<lparr>gc_h2 = hc_new settings, gc_ready = False, gc_buffers = [], gc_events = [],
     gc_max_message_size = DEFAULT_MAX_MESSAGE_SIZE\<rparr>"

definition gc_set_max_message_size :: "nat \<Rightarrow> GrpcConnection \<Rightarrow> GrpcConnection" where
  "gc_set_max_message_size n g = g\<lparr>gc_max_message_size := n\<rparr>"

definition gc_poll_event :: "GrpcConnection \<Rightarrow> GrpcEvent option \<times> GrpcConnection" where
  "gc_poll_event g = (case gc_events g of [] \<Rightarrow> (None, g) | ev # evs \<Rightarrow> (Some ev, g\<lparr>gc_events := evs\<rparr>))"

definition gc_take_pending_send :: "GrpcConnection \<Rightarrow> bytes \<times> GrpcConnection" where
  "gc_take_pending_send g = (case hc_take_pending_send (gc_h2 g) of (out, h) \<Rightarrow> (out, g\<lparr>gc_h2 := h\<rparr>))"

definition emit :: "GrpcEvent \<Rightarrow> GrpcConnection \<Rightarrow> GrpcConnection" where
  "emit ev g = g\<lparr>gc_events := gc_events g @ [ev]\<rparr>"

definition buffer_get :: "u32 \<Rightarrow> GrpcConnection \<Rightarrow> StreamState option" where
  "buffer_get sid g = map_of (gc_buffers g) sid"

definition buffer_put :: "u32 \<Rightarrow> StreamState \<Rightarrow> GrpcConnection \<Rightarrow> GrpcConnection" where
  "buffer_put sid st g = g\<lparr>gc_buffers := AList.update sid st (gc_buffers g)\<rparr>"

definition buffer_remove :: "u32 \<Rightarrow> GrpcConnection \<Rightarrow> GrpcConnection" where
  "buffer_remove sid g = g\<lparr>gc_buffers := AList.delete sid (gc_buffers g)\<rparr>"

definition gc_reset :: "u32 \<Rightarrow> ErrorCode \<Rightarrow> GrpcConnection \<Rightarrow> GrpcConnection" where
  "gc_reset sid code g = g\<lparr>gc_h2 := hc_reset_stream sid code (gc_h2 g)\<rparr>"

subsection \<open>Requests\<close>

definition header :: "string \<Rightarrow> bytes \<Rightarrow> HeaderField" where
  "header name value = \<lparr>hf_name = ascii name, hf_value = value\<rparr>"

definition request_headers :: "Codecs \<Rightarrow> bytes \<Rightarrow> bytes \<Rightarrow> HeaderField list \<Rightarrow> nat option \<Rightarrow> HeaderField list" where
  "request_headers cd service meth metadata deadline =
     [header '':method'' (ascii ''POST''), header '':path'' (ascii ''/'' @ service @ ascii ''/'' @ meth), header '':scheme'' (ascii ''https''),
      header ''content-type'' (ascii ''application/grpc''), header ''te'' (ascii ''trailers'')] @
     (case accept_encoding_value cd of Some enc \<Rightarrow> [header ''grpc-accept-encoding'' enc] | None \<Rightarrow> []) @
     (case deadline of Some d \<Rightarrow> [header ''grpc-timeout'' (encode_grpc_timeout d)] | None \<Rightarrow> []) @
     metadata"

definition send_headers_with_deadline ::
  "profile \<Rightarrow> Codecs \<Rightarrow> bytes \<Rightarrow> bytes \<Rightarrow> HeaderField list \<Rightarrow> bool \<Rightarrow> nat option \<Rightarrow> GrpcConnection \<Rightarrow> ((GrpcError + u32) \<times> GrpcConnection) outcome" where
  "send_headers_with_deadline dbg cd service meth metadata end_stream deadline g =
     outcome_bind (hc_send_request dbg (request_headers cd service meth metadata deadline) end_stream (gc_h2 g)) (\<lambda>(r, h).
       Ret (case r of Inl e \<Rightarrow> Inl (GrpcH2 e) | Inr sid \<Rightarrow> Inr sid, g\<lparr>gc_h2 := h\<rparr>))"

definition gc_send_message :: "u32 \<Rightarrow> bytes \<Rightarrow> bool \<Rightarrow> GrpcConnection \<Rightarrow> ((GrpcError + unit) \<times> GrpcConnection) outcome" where
  "gc_send_message sid body end_stream g =
     (case grpc_encode body [] of
        Inl e \<Rightarrow> Ret (Inl (InvalidMessage (encode_too_large_display e)), g)
      | Inr framed \<Rightarrow>
          outcome_bind (hc_send_data sid framed end_stream (gc_h2 g)) (\<lambda>(r, h).
            Ret (case r of Inl e \<Rightarrow> Inl (GrpcH2 e) | Inr _ \<Rightarrow> Inr (), g\<lparr>gc_h2 := h\<rparr>)))"

definition send_unary_inner ::
  "profile \<Rightarrow> Codecs \<Rightarrow> bytes \<Rightarrow> bytes \<Rightarrow> bytes \<Rightarrow> HeaderField list \<Rightarrow> nat option \<Rightarrow> GrpcConnection \<Rightarrow> ((GrpcError + u32) \<times> GrpcConnection) outcome" where
  "send_unary_inner dbg cd service meth body metadata deadline g =
     (if \<not> gc_ready g then Ret (Inl NotReady, g)
      else outcome_bind (send_headers_with_deadline dbg cd service meth metadata False deadline g) (\<lambda>(r, g1).
        case r of
          Inl e \<Rightarrow> Ret (Inl e, g1)
        | Inr sid \<Rightarrow>
            outcome_bind (gc_send_message sid body True g1) (\<lambda>(r', g2).
              Ret (case r' of Inl e \<Rightarrow> (Inl e, g2) | Inr _ \<Rightarrow> (Inr sid, buffer_put sid (ss_new (gc_max_message_size g2)) g2)))))"

definition start_request ::
  "profile \<Rightarrow> Codecs \<Rightarrow> bytes \<Rightarrow> bytes \<Rightarrow> HeaderField list \<Rightarrow> GrpcConnection \<Rightarrow> ((GrpcError + u32) \<times> GrpcConnection) outcome" where
  "start_request dbg cd service meth metadata g =
     (if \<not> gc_ready g then Ret (Inl NotReady, g)
      else outcome_bind (send_headers_with_deadline dbg cd service meth metadata False None g) (\<lambda>(r, g1).
        Ret (case r of Inl e \<Rightarrow> (Inl e, g1) | Inr sid \<Rightarrow> (Inr sid, buffer_put sid (ss_new (gc_max_message_size g1)) g1))))"

definition gc_cancel :: "u32 \<Rightarrow> GrpcConnection \<Rightarrow> GrpcConnection" where
  "gc_cancel sid g =
     (let g1 = gc_reset sid Cancel g in
      if buffer_get sid g1 = None then g1
      else emit (GStatus sid GsCancelled [Lit ''cancelled by client''] []) (buffer_remove sid g1))"

subsection \<open>Events\<close>

definition fail_stream :: "u32 \<Rightarrow> GrpcStatus \<Rightarrow> message \<Rightarrow> GrpcConnection \<Rightarrow> GrpcConnection" where
  "fail_stream sid status msg g = emit (GStatus sid status msg []) (buffer_remove sid (gc_reset sid Cancel g))"

definition without_status :: "(bytes \<Rightarrow> bytes \<Rightarrow> bool) \<Rightarrow> HeaderField list \<Rightarrow> HeaderField list" where
  "without_status eq = filter (\<lambda>h. \<not> eq (hf_name h) (ascii ''grpc-status'') \<and> \<not> eq (hf_name h) (ascii ''grpc-message''))"

definition last_encoding :: "HeaderField list \<Rightarrow> bytes option \<Rightarrow> bytes option" where
  "last_encoding hs = fold (\<lambda>h enc. if header_name_eq (hf_name h) (ascii ''grpc-encoding'') then Some (hf_value h) else enc) hs"

definition gc_handle_response :: "u32 \<Rightarrow> HeaderField list \<Rightarrow> bool \<Rightarrow> GrpcConnection \<Rightarrow> GrpcConnection" where
  "gc_handle_response sid headers end_stream g =
     (let st = (case buffer_get sid g of Some st \<Rightarrow> st | None \<Rightarrow> ss_new (gc_max_message_size g));
          st1 = st\<lparr>ss_response_seen := True, ss_encoding := last_encoding headers (ss_encoding st)\<rparr>;
          g1 = buffer_put sid st1 g in
      if end_stream then
        let (status, msg) = derive_status headers (http_status_to_grpc_status headers);
            metadata = without_status header_name_eq headers in
        emit (GStatus sid status msg metadata) (buffer_remove sid (emit (GResponse sid metadata) g1))
      else emit (GResponse sid headers) g1)"

text \<open>The payload of one message, decompressed when its flag says so.\<close>

definition open_payload :: "Codecs \<Rightarrow> nat \<Rightarrow> bytes option \<Rightarrow> bytes \<Rightarrow> bool \<Rightarrow> message + bytes" where
  "open_payload cd max_size encoding payload compressed =
     (if compressed then
        (case encoding of
           Some enc \<Rightarrow>
             (case decompress cd enc payload max_size of
                Inr d \<Rightarrow> Inr d
              | Inl e \<Rightarrow> Inl (Lit ''decompression failed: '' # grpc_error_display e))
         | None \<Rightarrow> Inl [Lit ''compressed flag set but no grpc-encoding header''])
      else Inr payload)"

lemma try_decode_shrinks: "mb_try_decode mb = (BdComplete p c, mb') \<Longrightarrow> length (mb_buf mb') < length (mb_buf mb)"
  by (auto simp: mb_try_decode_def split: DecodeResult.splits dest: grpc_decode_consumed)

text \<open>The decode loops of \<open>handle_data\<close> and \<open>handle_trailers\<close>; \<open>strict\<close> distinguishes them: the first fails the stream where the
  second stops.\<close>

function message_loop :: "bool \<Rightarrow> Codecs \<Rightarrow> u32 \<Rightarrow> StreamState \<Rightarrow> GrpcConnection \<Rightarrow> GrpcConnection" where
  "message_loop strict cd sid st g =
     (case mb_try_decode (ss_buffer st) of
        (BdComplete payload compressed, mb) \<Rightarrow>
          let st1 = st\<lparr>ss_buffer := mb\<rparr>; g1 = buffer_put sid st1 g in
          (case open_payload cd (gc_max_message_size g) (ss_encoding st) payload compressed of
             Inr data \<Rightarrow> message_loop strict cd sid st1 (emit (GMessage sid data) g1)
           | Inl msg \<Rightarrow> if strict then fail_stream sid GsInternal msg g1 else g1)
      | (BdIncomplete, mb) \<Rightarrow> g
      | (BdTooLarge n, mb) \<Rightarrow>
          if strict then
            fail_stream sid GsResourceExhausted [Lit ''message length '', Num n, Lit '' exceeds cap '', Num (gc_max_message_size g)] g
          else g)"
  by pat_completeness auto
termination
  by (relation "measure (\<lambda>(strict, cd, sid, st, g). length (mb_buf (ss_buffer st)))") (auto dest: sym [THEN try_decode_shrinks])

declare message_loop.simps [simp del]

definition emit_status_from_cleanup :: "u32 \<Rightarrow> GrpcConnection \<Rightarrow> GrpcConnection" where
  "emit_status_from_cleanup sid g =
     (let truncated = (case buffer_get sid g of Some st \<Rightarrow> \<not> mb_is_empty (ss_buffer st) | None \<Rightarrow> False);
          msg = (if truncated then ''stream ended mid-message without trailers'' else ''stream ended without trailers'') in
      emit (GStatus sid GsInternal [Lit msg] []) (buffer_remove sid g))"

definition gc_handle_data :: "Codecs \<Rightarrow> u32 \<Rightarrow> bytes \<Rightarrow> bool \<Rightarrow> GrpcConnection \<Rightarrow> GrpcConnection" where
  "gc_handle_data cd sid data end_stream g =
     (case buffer_get sid g of
        Some st \<Rightarrow>
          if \<not> ss_response_seen st then
            emit (GStatus sid GsInternal [Lit ''received DATA before HEADERS''] []) (buffer_remove sid (gc_reset sid ProtocolErrorCode g))
          else
            (case mb_push data (ss_buffer st) of
               Inl e \<Rightarrow> fail_stream sid GsResourceExhausted (grpc_error_display e) g
             | Inr mb \<Rightarrow>
                 let st1 = st\<lparr>ss_buffer := mb\<rparr>; g1 = message_loop True cd sid st1 (buffer_put sid st1 g) in
                 if end_stream then emit_status_from_cleanup sid g1 else g1)
      | None \<Rightarrow>
          emit (GStatus sid GsInternal [Lit ''received DATA before HEADERS''] []) (buffer_remove sid (gc_reset sid ProtocolErrorCode g)))"

definition gc_handle_trailers :: "Codecs \<Rightarrow> u32 \<Rightarrow> HeaderField list \<Rightarrow> GrpcConnection \<Rightarrow> GrpcConnection" where
  "gc_handle_trailers cd sid headers g =
     (let g1 = (case buffer_get sid g of Some st \<Rightarrow> message_loop False cd sid st g | None \<Rightarrow> g) in
      buffer_remove sid (emit (GStatus sid (extract_grpc_status headers) (extract_grpc_message headers) (without_status (=) headers)) g1))"

definition gc_handle_goaway :: "u32 \<Rightarrow> ErrorCode \<Rightarrow> bytes \<Rightarrow> GrpcConnection \<Rightarrow> GrpcConnection" where
  "gc_handle_goaway last_stream_id error_code debug_data g =
     (let stranded = filter (\<lambda>sid. last_stream_id < sid) (map fst (gc_buffers g));
          g1 = fold (\<lambda>sid g. emit (GStatus sid GsUnavailable [Lit ''GoAway: '', Lit (error_code_debug error_code)] []) (buffer_remove sid g)) stranded g in
      emit (GGoAway last_stream_id error_code debug_data) g1)"

fun translate_event :: "Codecs \<Rightarrow> H2Event \<Rightarrow> GrpcConnection \<Rightarrow> GrpcConnection" where
  "translate_event cd H2SettingsAcknowledged g = emit GReady (g\<lparr>gc_ready := True\<rparr>)"
| "translate_event cd (H2Response sid headers end_stream) g = gc_handle_response sid headers end_stream g"
| "translate_event cd (H2Data sid data end_stream) g = gc_handle_data cd sid data end_stream g"
| "translate_event cd (H2Trailers sid headers) g = gc_handle_trailers cd sid headers g"
| "translate_event cd (H2StreamReset sid code) g =
     emit (GStatus sid GsInternal [Lit ''stream reset: '', Lit (error_code_debug code)] []) (buffer_remove sid g)"
| "translate_event cd (H2GoAway l code d) g = gc_handle_goaway l code d g"
| "translate_event cd (H2ErrorEvent e) g = emit (GErrorEvent (GrpcH2 e)) g"
| "translate_event cd (H2PingAcknowledged _) g = g"

subsection \<open>What the handlers leave alone\<close>

text \<open>Handlers act on the HTTP/2 connection only by resetting the stream they are called for.\<close>

inductive resets :: "H2Connection \<Rightarrow> H2Connection \<Rightarrow> bool" where
  resets_refl: "resets c c"
| resets_step: "resets c c' \<Longrightarrow> resets c (hc_reset_stream sid code c')"

lemma resets_events: "resets c c' \<Longrightarrow> hc_events c' = hc_events c"
  by (induction rule: resets.induct)
    (simp_all add: hc_reset_stream_def Let_def send_frame_def stream_put_def split: option.splits)

lemma gc_h2_basic [simp]:
  "gc_h2 (emit ev g) = gc_h2 g" "gc_h2 (buffer_put sid st g) = gc_h2 g" "gc_h2 (buffer_remove sid g) = gc_h2 g"
  "gc_h2 (gc_reset sid code g) = hc_reset_stream sid code (gc_h2 g)"
  by (simp_all add: emit_def buffer_put_def buffer_remove_def gc_reset_def)

lemma resets_fail [intro]: "resets c (gc_h2 g) \<Longrightarrow> resets c (gc_h2 (fail_stream sid status msg g))"
  by (auto simp: fail_stream_def intro: resets.intros)

lemma resets_message_loop: "resets c (gc_h2 g) \<Longrightarrow> resets c (gc_h2 (message_loop strict cd sid st g))"
proof (induction strict cd sid st g rule: message_loop.induct)
  case (1 strict cd sid st g)
  then show ?case
    by (subst message_loop.simps) (auto simp: Let_def split: prod.splits BufferDecode.splits sum.splits)
qed

lemma fold_gc_h2: "(\<And>x g. gc_h2 (f x g) = gc_h2 g) \<Longrightarrow> gc_h2 (fold f xs g) = gc_h2 g"
  by (induction xs arbitrary: g) simp_all

lemma resets_translate: "resets (gc_h2 g) (gc_h2 (translate_event cd ev g))"
proof (cases ev)
  case (H2Response sid headers es)
  then show ?thesis by (auto simp: gc_handle_response_def Let_def resets_refl split: prod.splits option.splits)
next
  case (H2Data sid data es)
  have "gc_h2 (buffer_put sid st g) = gc_h2 g" for st by simp
  then have l: "resets (gc_h2 g) (gc_h2 (message_loop True cd sid st (buffer_put sid st g)))" for st
    by (metis resets_message_loop resets_refl)
  show ?thesis using H2Data l
    by (auto simp: gc_handle_data_def emit_status_from_cleanup_def Let_def intro: resets.intros split: option.splits sum.splits)
next
  case (H2Trailers sid headers)
  then show ?thesis
    by (auto simp: gc_handle_trailers_def Let_def intro: resets_refl resets_message_loop split: option.splits)
next
  case (H2GoAway l code d)
  then show ?thesis by (simp add: gc_handle_goaway_def Let_def fold_gc_h2 resets_refl)
qed (simp_all add: resets_refl)

lemma translate_shrinks:
  assumes "hc_poll_event (gc_h2 g) = (Some ev, h)"
  shows "length (hc_events (gc_h2 (translate_event cd ev (g\<lparr>gc_h2 := h\<rparr>)))) < length (hc_events (gc_h2 g))"
proof -
  have "length (hc_events h) < length (hc_events (gc_h2 g))" using assms by (auto simp: hc_poll_event_def split: list.splits)
  then show ?thesis using resets_events [OF resets_translate [of "g\<lparr>gc_h2 := h\<rparr>" cd ev]] by simp
qed

function translate_events :: "Codecs \<Rightarrow> GrpcConnection \<Rightarrow> GrpcConnection" where
  "translate_events cd g =
     (case hc_poll_event (gc_h2 g) of
        (None, h) \<Rightarrow> g\<lparr>gc_h2 := h\<rparr>
      | (Some ev, h) \<Rightarrow> translate_events cd (translate_event cd ev (g\<lparr>gc_h2 := h\<rparr>)))"
  by pat_completeness auto
termination
  by (relation "measure (\<lambda>(cd, g). length (hc_events (gc_h2 g)))") (auto dest: sym [THEN translate_shrinks])

declare translate_events.simps [simp del]

definition gc_recv :: "profile \<Rightarrow> Codecs \<Rightarrow> bytes \<Rightarrow> GrpcConnection \<Rightarrow> GrpcConnection outcome" where
  "gc_recv dbg cd data g = outcome_bind (hc_recv dbg data (gc_h2 g)) (\<lambda>h. Ret (translate_events cd (g\<lparr>gc_h2 := h\<rparr>)))"

subsection \<open>Invariant\<close>

text \<open>With \<open>B\<close> a bound on the message size limits ever configured: the HTTP/2 connection is sound, every reassembly buffer is within
  its limit, and no message above the bound is handed to the application.\<close>

definition ss_ok :: "nat \<Rightarrow> StreamState \<Rightarrow> bool" where
  "ss_ok B st \<longleftrightarrow> mb_max_message_size (ss_buffer st) \<le> B \<and> length (mb_buf (ss_buffer st)) \<le> mb_max_message_size (ss_buffer st) + 5"

fun event_ok :: "nat \<Rightarrow> GrpcEvent \<Rightarrow> bool" where
  "event_ok B (GMessage sid data) \<longleftrightarrow> length data \<le> B"
| "event_ok B _ \<longleftrightarrow> True"

definition g_inv :: "nat \<Rightarrow> GrpcConnection \<Rightarrow> bool" where
  "g_inv B g \<longleftrightarrow> conn_ok (gc_h2 g) \<and> gc_max_message_size g \<le> B \<and> list_all (event_ok B) (gc_events g) \<and>
     (\<forall>sid st. buffer_get sid g = Some st \<longrightarrow> ss_ok B st)"

lemma conn_ok_reset [simp]: "conn_ok c \<Longrightarrow> conn_ok (hc_reset_stream sid code c)"
proof -
  assume c: "conn_ok c"
  then have "stream_ok (send_frame (FRstStream sid code) c) sid s" if "stream_get sid c = Some s" for s
    using conn_okD(5) [of "send_frame (FRstStream sid code) c"] that by simp
  then show ?thesis using c by (auto simp: hc_reset_stream_def Let_def intro: conn_ok_put split: option.splits)
qed

lemma g_inv_h2: "g_inv B g \<Longrightarrow> conn_ok h \<Longrightarrow> g_inv B (g\<lparr>gc_h2 := h\<rparr>)"
  by (simp add: g_inv_def buffer_get_def)

lemma g_inv_basic [simp, intro]:
  assumes "g_inv B g"
  shows "event_ok B ev \<Longrightarrow> g_inv B (emit ev g)" "ss_ok B st \<Longrightarrow> g_inv B (buffer_put sid st g)" "g_inv B (buffer_remove sid g)"
    "g_inv B (gc_reset sid code g)" "g_inv B (g\<lparr>gc_ready := r\<rparr>)"
  using assms
  by (auto simp: g_inv_def emit_def buffer_put_def buffer_remove_def gc_reset_def buffer_get_def update_conv' delete_conv' split: if_splits)

lemma g_inv_fail [simp, intro]: "g_inv B g \<Longrightarrow> g_inv B (fail_stream sid status msg g)"
  by (auto simp: fail_stream_def)

lemma decompress_bounded: "decompress cd enc data n = Inr d \<Longrightarrow> length d \<le> n"
  by (auto simp: decompress_def decompress_with_def Let_def split: if_splits option.splits sum.splits)

lemma open_payload_bounded: "open_payload cd n enc p c = Inr d \<Longrightarrow> length d \<le> max n (length p)"
  by (auto simp: open_payload_def split: if_splits option.splits sum.splits dest: decompress_bounded)

lemma try_decode_ok:
  assumes "mb_try_decode (ss_buffer st) = (BdComplete p c, mb)" "ss_ok B st"
  shows "length p \<le> B \<and> ss_ok B (st\<lparr>ss_buffer := mb\<rparr>)"
proof -
  obtain n where d: "grpc_decode (mb_buf (ss_buffer st)) (mb_max_message_size (ss_buffer st)) = DrComplete p c n"
    "mb = (ss_buffer st)\<lparr>mb_buf := drop n (mb_buf (ss_buffer st))\<rparr>"
    using assms(1) by (auto simp: mb_try_decode_def split: DecodeResult.splits)
  have "length p \<le> m" if "grpc_decode b m = DrComplete p c n" for b m
    using that by (induction b m rule: grpc_decode.induct) (auto simp: Let_def split: if_splits)
  then show ?thesis using d assms(2) by (fastforce simp: ss_ok_def)
qed

lemma message_loop_steps:
  assumes "mb_try_decode (ss_buffer st) = (r, mb)"
  shows "r = BdComplete p c \<Longrightarrow> message_loop strict cd sid st g =
      (case open_payload cd (gc_max_message_size g) (ss_encoding st) p c of
         Inr data \<Rightarrow> message_loop strict cd sid (st\<lparr>ss_buffer := mb\<rparr>) (emit (GMessage sid data) (buffer_put sid (st\<lparr>ss_buffer := mb\<rparr>) g))
       | Inl msg \<Rightarrow> if strict then fail_stream sid GsInternal msg (buffer_put sid (st\<lparr>ss_buffer := mb\<rparr>) g)
           else buffer_put sid (st\<lparr>ss_buffer := mb\<rparr>) g)"
    "r = BdIncomplete \<Longrightarrow> message_loop strict cd sid st g = g"
    "r = BdTooLarge n \<Longrightarrow> message_loop strict cd sid st g =
      (if strict then fail_stream sid GsResourceExhausted [Lit ''message length '', Num n, Lit '' exceeds cap '', Num (gc_max_message_size g)] g else g)"
  using assms by (subst message_loop.simps, simp add: Let_def)+

lemma g_inv_message_loop: "g_inv B g \<Longrightarrow> ss_ok B st \<Longrightarrow> g_inv B (message_loop strict cd sid st g)"
proof (induction "length (mb_buf (ss_buffer st))" arbitrary: st g rule: less_induct)
  case less
  obtain r mb where t: "mb_try_decode (ss_buffer st) = (r, mb)" by fastforce
  show ?case
  proof (cases r)
    case (BdComplete p c)
    let ?st = "st\<lparr>ss_buffer := mb\<rparr>"
    have st: "length p \<le> B" "ss_ok B ?st" "length (mb_buf mb) < length (mb_buf (ss_buffer st))"
      using try_decode_ok [OF t [unfolded BdComplete] less.prems(2)] try_decode_shrinks [OF t [unfolded BdComplete]] by auto
    have "g_inv B (message_loop strict cd sid ?st (emit (GMessage sid data) (buffer_put sid ?st g)))"
      if "open_payload cd (gc_max_message_size g) (ss_encoding st) p c = Inr data" for data
    proof (rule less.hyps)
      have "gc_max_message_size g \<le> B" using less.prems(1) by (simp add: g_inv_def)
      then show "g_inv B (emit (GMessage sid data) (buffer_put sid ?st g))"
        using open_payload_bounded [OF that] st(1,2) less.prems(1) by simp
    qed (use st in simp_all)
    then show ?thesis using less.prems(1) st(2) message_loop_steps(1) [OF t BdComplete] by (simp split: sum.splits)
  next
    case BdIncomplete
    then show ?thesis using less.prems(1) message_loop_steps(2) [OF t] by simp
  next
    case (BdTooLarge n)
    then show ?thesis using less.prems(1) message_loop_steps(3) [OF t] by simp
  qed
qed

lemma mb_push_ok:
  assumes "mb_push data mb = Inr mb'" "mb_max_message_size mb < 2 ^ 63"
  shows "mb_max_message_size mb' = mb_max_message_size mb \<and> length (mb_buf mb') \<le> mb_max_message_size mb + 5"
  using assms by (auto simp: mb_push_def usize_saturating_add_def split: if_splits)

lemma ss_new_ok: "n \<le> B \<Longrightarrow> ss_ok B (ss_new n)"
  by (simp add: ss_ok_def ss_new_def mb_new_def)

lemma g_inv_translate:
  assumes g: "g_inv B g" and B: "B < 2 ^ 63"
  shows "g_inv B (translate_event cd ev g)"
proof (cases ev)
  case (H2Response sid headers es)
  have "ss_ok B (case buffer_get sid g of Some st \<Rightarrow> st | None \<Rightarrow> ss_new (gc_max_message_size g))"
    using g ss_new_ok by (auto simp: g_inv_def split: option.splits)
  then have "g_inv B (buffer_put sid ((case buffer_get sid g of Some st \<Rightarrow> st | None \<Rightarrow> ss_new (gc_max_message_size g))
      \<lparr>ss_response_seen := True, ss_encoding := enc\<rparr>) g)" for enc
    using g by (intro g_inv_basic) (simp_all add: ss_ok_def)
  then show ?thesis using H2Response by (auto simp: gc_handle_response_def Let_def split: prod.splits)
next
  case (H2Data sid data es)
  have cleanup: "g_inv B g' \<Longrightarrow> g_inv B (emit_status_from_cleanup sid g')" for g' by (auto simp: emit_status_from_cleanup_def Let_def)
  have "ss_ok B (st\<lparr>ss_buffer := mb\<rparr>)" if "buffer_get sid g = Some st" "mb_push data (ss_buffer st) = Inr mb" for st mb
  proof -
    have "ss_ok B st" using g that(1) by (auto simp: g_inv_def)
    then show ?thesis using mb_push_ok [OF that(2)] B by (auto simp: ss_ok_def)
  qed
  then have "g_inv B (message_loop True cd sid (st\<lparr>ss_buffer := mb\<rparr>) (buffer_put sid (st\<lparr>ss_buffer := mb\<rparr>) g))"
    if "buffer_get sid g = Some st" "mb_push data (ss_buffer st) = Inr mb" for st mb
    using that g by (intro g_inv_message_loop g_inv_basic) blast+
  then show ?thesis using H2Data g cleanup by (simp add: gc_handle_data_def Let_def split: option.splits sum.splits)
next
  case (H2Trailers sid headers)
  have "g_inv B (case buffer_get sid g of Some st \<Rightarrow> message_loop False cd sid st g | None \<Rightarrow> g)"
    using g g_inv_message_loop [OF g] unfolding g_inv_def by (metis (no_types, lifting) option.case_eq_if option.collapse)
  then show ?thesis using H2Trailers by (auto simp: gc_handle_trailers_def Let_def)
next
  case (H2GoAway l code d)
  have "g_inv B g' \<Longrightarrow> g_inv B (fold (\<lambda>sid g. emit (GStatus sid GsUnavailable m []) (buffer_remove sid g)) xs g')" for xs g' m
    by (induction xs arbitrary: g') auto
  then show ?thesis using H2GoAway g by (auto simp: gc_handle_goaway_def Let_def)
qed (use g in auto)

lemma conn_ok_poll: "hc_poll_event c = (ev, c') \<Longrightarrow> conn_ok c \<Longrightarrow> conn_ok c'"
  by (auto simp: hc_poll_event_def split: list.splits)

lemma translate_events_steps:
  "hc_poll_event (gc_h2 g) = (None, h) \<Longrightarrow> translate_events cd g = g\<lparr>gc_h2 := h\<rparr>"
  "hc_poll_event (gc_h2 g) = (Some ev, h) \<Longrightarrow> translate_events cd g = translate_events cd (translate_event cd ev (g\<lparr>gc_h2 := h\<rparr>))"
  by (subst translate_events.simps, simp)+

lemma g_inv_translate_events: "g_inv B g \<Longrightarrow> B < 2 ^ 63 \<Longrightarrow> g_inv B (translate_events cd g)"
proof (induction "length (hc_events (gc_h2 g))" arbitrary: g rule: less_induct)
  case less
  obtain ev h where p: "hc_poll_event (gc_h2 g) = (ev, h)" by fastforce
  have g: "g_inv B (g\<lparr>gc_h2 := h\<rparr>)" using g_inv_h2 [OF less.prems(1)] conn_ok_poll [OF p] less.prems(1) by (simp add: g_inv_def)
  show ?case
  proof (cases ev)
    case None
    then show ?thesis using g translate_events_steps(1) p by simp
  next
    case (Some e)
    have "g_inv B (translate_event cd e (g\<lparr>gc_h2 := h\<rparr>))" using g less.prems(2) by (rule g_inv_translate)
    then have "g_inv B (translate_events cd (translate_event cd e (g\<lparr>gc_h2 := h\<rparr>)))"
      using less.hyps [OF translate_shrinks [OF p [unfolded Some]]] less.prems(2) by blast
    then show ?thesis using translate_events_steps(2) [OF p [unfolded Some]] by simp
  qed
qed

subsection \<open>Sessions\<close>

datatype g_op = GRecv bytes | GUnary bytes bytes bytes "HeaderField list" "nat option" | GStart bytes bytes "HeaderField list"
  | GSend u32 bytes bool | GCancelOp u32 | GMax nat | GPoll | GTake

fun g_step :: "profile \<Rightarrow> Codecs \<Rightarrow> g_op \<Rightarrow> GrpcConnection \<Rightarrow> GrpcConnection outcome" where
  "g_step dbg cd (GRecv data) g = gc_recv dbg cd data g"
| "g_step dbg cd (GUnary service meth body metadata deadline) g =
     outcome_bind (send_unary_inner dbg cd service meth body metadata deadline g) (\<lambda>(r, g'). Ret g')"
| "g_step dbg cd (GStart service meth metadata) g = outcome_bind (start_request dbg cd service meth metadata g) (\<lambda>(r, g'). Ret g')"
| "g_step dbg cd (GSend sid body end_stream) g = outcome_bind (gc_send_message sid body end_stream g) (\<lambda>(r, g'). Ret g')"
| "g_step dbg cd (GCancelOp sid) g = Ret (gc_cancel sid g)"
| "g_step dbg cd (GMax n) g = Ret (gc_set_max_message_size n g)"
| "g_step dbg cd GPoll g = Ret (snd (gc_poll_event g))"
| "g_step dbg cd GTake g = Ret (snd (gc_take_pending_send g))"

fun g_run :: "profile \<Rightarrow> Codecs \<Rightarrow> g_op list \<Rightarrow> GrpcConnection \<Rightarrow> GrpcConnection outcome" where
  "g_run dbg cd [] g = Ret g"
| "g_run dbg cd (op # ops) g = outcome_bind (g_step dbg cd op g) (g_run dbg cd ops)"

text \<open>Sizes of objects in memory.\<close>

fun g_op_ok :: "g_op \<Rightarrow> bool" where
  "g_op_ok (GUnary service meth body metadata deadline) \<longleftrightarrow>
     length service < 2 ^ 60 \<and> length meth < 2 ^ 60 \<and> length body < 2 ^ 32 - 5 \<and> list_all (\<lambda>h. hf_size h < 2 ^ 62) metadata"
| "g_op_ok (GStart service meth metadata) \<longleftrightarrow>
     length service < 2 ^ 60 \<and> length meth < 2 ^ 60 \<and> list_all (\<lambda>h. hf_size h < 2 ^ 62) metadata"
| "g_op_ok (GSend sid body end_stream) \<longleftrightarrow> length body < 2 ^ 32 - 5"
| "g_op_ok _ \<longleftrightarrow> True"

text \<open>The largest message limit in force during a session that starts with the limit \<open>m\<close>.\<close>

fun op_limit :: "g_op \<Rightarrow> nat" where
  "op_limit (GMax n) = n"
| "op_limit _ = 0"

fun largest_limit :: "nat \<Rightarrow> g_op list \<Rightarrow> nat" where
  "largest_limit m [] = m"
| "largest_limit m (op # ops) = max (op_limit op) (largest_limit m ops)"

lemma length_decimal: "n < 10 ^ k \<Longrightarrow> length (decimal n) \<le> max 1 k"
proof (induction k arbitrary: n)
  case (Suc k)
  show ?case
  proof (cases "n < 10")
    case False
    have "n div 10 < 10 ^ k" using Suc.prems by (simp add: less_mult_imp_div_less mult.commute)
    moreover have "0 < k" using False Suc.prems by (cases k) auto
    ultimately show ?thesis using False Suc.IH [of "n div 10"] by (subst decimal.simps) simp
  qed (subst decimal.simps, simp)
qed (subst decimal.simps, simp)

lemma timeout_length: "length (encode_grpc_timeout n) \<le> 9"
proof -
  have "length (decimal k) \<le> 8" if "k \<le> 99999999" for k using length_decimal [of k 8] that by simp
  then show ?thesis by (auto simp: encode_grpc_timeout_def Let_def ascii_def)
qed

lemma request_headers_size:
  assumes "length service < 2 ^ 60" "length meth < 2 ^ 60" "list_all (\<lambda>h. hf_size h < 2 ^ 62) metadata"
  shows "list_all (\<lambda>h. hf_size h < 2 ^ 62) (request_headers cd service meth metadata deadline)"
proof -
  have size: "hf_size (header name v) = length name + length v + 32" for name v
    by (simp add: header_def hf_size_def ascii_def)
  have "hf_size (header ''grpc-timeout'' (encode_grpc_timeout d)) < 2 ^ 62" for d
    using timeout_length [of d] unfolding size by simp
  moreover have "hf_size (header ''grpc-accept-encoding'' enc) < 2 ^ 62" if "accept_encoding_value cd = Some enc" for enc
    using that unfolding size by (auto simp: accept_encoding_value_def ascii_def split: option.splits)
  moreover have "length (ascii x) = length x" for x by (simp add: ascii_def)
  ultimately show ?thesis using assms by (simp add: request_headers_def size split: option.split)
qed

lemma send_headers_inv:
  assumes "g_inv B g" "length service < 2 ^ 60" "length meth < 2 ^ 60" "list_all (\<lambda>h. hf_size h < 2 ^ 62) metadata"
  shows "\<exists>r g'. send_headers_with_deadline dbg cd service meth metadata es deadline g = Ret (r, g') \<and> g_inv B g' \<and>
    gc_max_message_size g' = gc_max_message_size g"
proof -
  have "conn_ok (gc_h2 g)" using assms(1) by (simp add: g_inv_def)
  then obtain r h where "hc_send_request dbg (request_headers cd service meth metadata deadline) es (gc_h2 g) = Ret (r, h)" "conn_ok h"
    using send_request_moves [OF _ request_headers_size [OF assms(2-4)]] unfolding moves_def by (metis prod.collapse)
  then show ?thesis using g_inv_h2 [OF assms(1)] by (simp add: send_headers_with_deadline_def)
qed

lemma send_message_inv:
  assumes "g_inv B g" "length body < 2 ^ 32 - 5"
  shows "\<exists>r g'. gc_send_message sid body es g = Ret (r, g') \<and> g_inv B g' \<and> gc_max_message_size g' = gc_max_message_size g"
proof -
  obtain framed where f: "grpc_encode body [] = Inr framed" "length framed < 2 ^ 32"
    using assms(2) by (simp add: grpc_encode_def encode_flagged_def length_prefix_def u32_bytes_def)
  have "conn_ok (gc_h2 g)" using assms(1) by (simp add: g_inv_def)
  then obtain r h where "hc_send_data sid framed es (gc_h2 g) = Ret (r, h)" "conn_ok h"
    using send_data_moves [OF _ f(2)] unfolding moves_def by (metis prod.collapse)
  then show ?thesis using f(1) g_inv_h2 [OF assms(1)] by (simp add: gc_send_message_def)
qed

lemma g_step_inv:
  assumes g: "g_inv B g" and B: "B < 2 ^ 63" and op: "g_op_ok op" "op_limit op \<le> B"
  shows "\<exists>g'. g_step dbg cd op g = Ret g' \<and> g_inv B g'"
proof (cases op)
  case (GRecv data)
  have ok: "conn_ok (gc_h2 g)" using g by (simp add: g_inv_def)
  obtain h where h: "hc_recv dbg data (gc_h2 g) = Ret h" "conn_ok h"
    using recv_moves [OF ok refl progress_refl, of dbg data] unfolding moves_def by blast
  then show ?thesis using GRecv g_inv_translate_events [OF g_inv_h2 [OF g h(2)] B] by (simp add: gc_recv_def)
next
  case (GUnary service meth body metadata deadline)
  obtain r g1 where h: "send_headers_with_deadline dbg cd service meth metadata False deadline g = Ret (r, g1)" "g_inv B g1"
    using send_headers_inv [OF g, of service meth metadata dbg cd False deadline] op GUnary by auto
  show ?thesis
  proof (cases r)
    case (Inr sid)
    obtain r2 g2 where m: "gc_send_message sid body True g1 = Ret (r2, g2)" "g_inv B g2"
      using send_message_inv [OF h(2), of body sid True] op GUnary by auto
    have "ss_ok B (ss_new (gc_max_message_size g2))" using m(2) ss_new_ok by (simp add: g_inv_def)
    then show ?thesis using GUnary g h m Inr by (cases r2) (simp_all add: send_unary_inner_def)
  qed (use GUnary g h in \<open>simp add: send_unary_inner_def\<close>)
next
  case (GStart service meth metadata)
  obtain r g1 where h: "send_headers_with_deadline dbg cd service meth metadata False None g = Ret (r, g1)" "g_inv B g1"
    using send_headers_inv [OF g, of service meth metadata dbg cd False None] op GStart by auto
  have "ss_ok B (ss_new (gc_max_message_size g1))" using h(2) ss_new_ok by (simp add: g_inv_def)
  then show ?thesis using GStart g h by (cases r) (simp_all add: start_request_def)
next
  case (GSend sid body es)
  obtain r g1 where "gc_send_message sid body es g = Ret (r, g1)" "g_inv B g1"
    using send_message_inv [OF g, of body sid es] op GSend by auto
  then show ?thesis using GSend by simp
next
  case (GCancelOp sid)
  then show ?thesis using g by (simp add: gc_cancel_def Let_def)
next
  case (GMax n)
  then show ?thesis using g op by (simp add: gc_set_max_message_size_def g_inv_def buffer_get_def)
next
  case GPoll
  then show ?thesis using g by (cases "gc_events g") (simp_all add: gc_poll_event_def g_inv_def buffer_get_def)
next
  case GTake
  have "conn_ok ((gc_h2 g)\<lparr>hc_send_buf := []\<rparr>)" using g by (simp add: g_inv_def)
  then show ?thesis using GTake g_inv_h2 [OF g] by (simp add: gc_take_pending_send_def hc_take_pending_send_def)
qed

lemma g_run_inv:
  "g_inv B g \<Longrightarrow> B < 2 ^ 63 \<Longrightarrow> list_all g_op_ok ops \<Longrightarrow> largest_limit m ops \<le> B \<Longrightarrow> \<exists>g'. g_run dbg cd ops g = Ret g' \<and> g_inv B g'"
proof (induction ops arbitrary: g)
  case (Cons op ops)
  then show ?case using g_step_inv [OF Cons.prems(1,2), of op dbg cd] by fastforce
qed simp

lemma gc_new_inv: "local_settings_ok S \<Longrightarrow> m \<le> B \<Longrightarrow> g_inv B (gc_set_max_message_size m (gc_new S))"
  by (simp add: gc_new_def gc_set_max_message_size_def g_inv_def buffer_get_def hc_new_conn_ok)

lemma largest_limit_start: "m \<le> largest_limit m ops"
  by (induction ops) auto

lemma default_limit: "gc_set_max_message_size DEFAULT_MAX_MESSAGE_SIZE (gc_new S) = gc_new S"
  by (simp add: gc_new_def gc_set_max_message_size_def)

text \<open>
  C38. A gRPC connection is safe against its server. Configure a new connection with any message limit \<open>m\<close> (the default limit
  is the one \<open>new\<close> sets, so it is the case \<open>m = DEFAULT_MAX_MESSAGE_SIZE\<close>) and settings a client may advertise, and let anything
  happen in any order: arbitrary bytes arrive, unary and streaming requests are made, messages are sent, streams are
  cancelled, the limit is changed, events and output are taken. Nothing panics, whatever the decompressors return; the HTTP/2
  connection keeps its invariant; and no reassembly buffer holds more than the limit plus the five bytes of a prefix, and no
  message over the limit, compressed or not, reaches the application: the limit is \<open>m\<close> itself, or the largest of \<open>m\<close> and the
  limits set later when the session changes it. Limits are below 2^63.
\<close>

theorem grpc_session_safe:
  assumes "local_settings_ok S" "list_all g_op_ok ops" "largest_limit m ops < 2 ^ 63"
  shows "\<exists>g. g_run dbg cd ops (gc_set_max_message_size m (gc_new S)) = Ret g \<and> conn_ok (gc_h2 g) \<and>
    (\<forall>sid st. buffer_get sid g = Some st \<longrightarrow> length (mb_buf (ss_buffer st)) \<le> largest_limit m ops + 5) \<and>
    (\<forall>sid data. GMessage sid data \<in> set (gc_events g) \<longrightarrow> length data \<le> largest_limit m ops)"
proof -
  let ?B = "largest_limit m ops"
  obtain g where g: "g_run dbg cd ops (gc_set_max_message_size m (gc_new S)) = Ret g" "g_inv ?B g"
    using g_run_inv [OF gc_new_inv [OF assms(1) largest_limit_start] assms(3,2), of m] by blast
  have "length (mb_buf (ss_buffer st)) \<le> ?B + 5" if "buffer_get sid g = Some st" for sid st
    using g(2) that by (fastforce simp: g_inv_def ss_ok_def)
  moreover have "length data \<le> ?B" if "GMessage sid data \<in> set (gc_events g)" for sid data
    using g(2) that by (auto simp: g_inv_def list_all_iff)
  ultimately show ?thesis using g by (auto simp: g_inv_def)
qed

definition grpc_ops :: "g_op list" where
  "grpc_ops = [GRecv [0, 0, 0, 4, 0, 0, 0, 0, 0, 0, 0, 0, 4, 1, 0, 0, 0, 0], GStart [97] [98] [], GSend 1 [1, 2] True,
     GMax 64, GRecv [0, 0, 1, 0, 0, 0, 0, 0, 1, 9], GCancelOp 1, GPoll, GTake]"

theorem grpc_session_safe_witness:
  "\<exists>g. g_run True \<lparr>cd_gzip = Some (\<lambda>p n. Inr (replicate n 0)), cd_zstd = None\<rparr> grpc_ops
       (gc_set_max_message_size 100 (gc_new settings_client_default)) = Ret g \<and> conn_ok (gc_h2 g) \<and>
     (\<forall>sid st. buffer_get sid g = Some st \<longrightarrow> length (mb_buf (ss_buffer st)) \<le> 105) \<and>
     (\<forall>sid data. GMessage sid data \<in> set (gc_events g) \<longrightarrow> length data \<le> 100)"
proof -
  have s: "local_settings_ok settings_client_default" by code_simp
  have l: "largest_limit 100 grpc_ops = 100" "list_all g_op_ok grpc_ops" by (simp_all add: grpc_ops_def)
  show ?thesis
    using grpc_session_safe [OF s l(2), of 100 True "\<lparr>cd_gzip = Some (\<lambda>p n. Inr (replicate n 0)), cd_zstd = None\<rparr>"] l(1) by simp
qed

subsection \<open>The end of a stream\<close>

text \<open>The payloads of a stream's messages up to the first one that cannot be opened, and what is wrong with that one.\<close>

fun open_all :: "Codecs \<Rightarrow> nat \<Rightarrow> bytes option \<Rightarrow> (bytes \<times> bool) list \<Rightarrow> bytes list \<times> message option" where
  "open_all cd n enc [] = ([], None)"
| "open_all cd n enc ((p, c) # ms) =
     (case open_payload cd n enc p c of
        Inl msg \<Rightarrow> ([], Some msg)
      | Inr d \<Rightarrow> (case open_all cd n enc ms of (ds, err) \<Rightarrow> (d # ds, err)))"

text \<open>Why the decode loop gives a stream up, if it does.\<close>

definition loop_failure :: "nat \<Rightarrow> message option \<Rightarrow> BufferDecode \<Rightarrow> (GrpcStatus \<times> message) option" where
  "loop_failure n err stop =
     (case err of
        Some msg \<Rightarrow> Some (GsInternal, msg)
      | None \<Rightarrow>
          (case stop of
             BdTooLarge l \<Rightarrow> Some (GsResourceExhausted, [Lit ''message length '', Num l, Lit '' exceeds cap '', Num n])
           | _ \<Rightarrow> None))"

lemma fail_stream_effect [simp]:
  "gc_events (fail_stream sid status msg g) = gc_events g @ [GStatus sid status msg []]"
  "buffer_get sid (fail_stream sid status msg g) = None"
  by (simp_all add: fail_stream_def emit_def buffer_remove_def buffer_get_def gc_reset_def delete_conv')

lemma buffer_effects [simp]:
  "gc_events (buffer_put sid st g) = gc_events g" "gc_max_message_size (buffer_put sid st g) = gc_max_message_size g"
  "buffer_get sid (buffer_put sid st g) = Some st"
  "gc_events (emit ev g) = gc_events g @ [ev]" "gc_max_message_size (emit ev g) = gc_max_message_size g"
  "buffer_get sid (emit ev g) = buffer_get sid g" "gc_events (buffer_remove sid g) = gc_events g"
  by (simp_all add: emit_def buffer_remove_def buffer_put_def buffer_get_def update_conv')

lemma message_loop_effect:
  assumes "mb_drain (ss_buffer st) = (ms, stop, rest)" "open_all cd (gc_max_message_size g) (ss_encoding st) ms = (ds, err)"
    and "buffer_get sid g = Some st"
  shows "(case loop_failure (gc_max_message_size g) err stop of
       Some (status, msg) \<Rightarrow> buffer_get sid (message_loop True cd sid st g) = None \<and>
         gc_events (message_loop True cd sid st g) = gc_events g @ map (GMessage sid) ds @ [GStatus sid status msg []]
     | None \<Rightarrow> buffer_get sid (message_loop True cd sid st g) = Some (st\<lparr>ss_buffer := rest\<rparr>) \<and>
         gc_events (message_loop True cd sid st g) = gc_events g @ map (GMessage sid) ds)"
  using assms
proof (induction "length (mb_buf (ss_buffer st))" arbitrary: st g ms ds rule: less_induct)
  case less
  obtain r mb where t: "mb_try_decode (ss_buffer st) = (r, mb)" by fastforce
  note drain = mb_drain.simps [of "ss_buffer st", unfolded t] and steps = message_loop_steps [OF t]
  show ?case
  proof (cases r)
    case (BdComplete p c)
    let ?st = "st\<lparr>ss_buffer := mb\<rparr>"
    obtain ms1 stop1 rest1 where "mb_drain mb = (ms1, stop1, rest1)" by (metis prod_cases3)
    then have m: "mb_drain mb = (ms1, stop, rest)" "ms = (p, c) # ms1" using less.prems(1) drain BdComplete by auto
    show ?thesis
    proof (cases "open_payload cd (gc_max_message_size g) (ss_encoding st) p c")
      case (Inl msg)
      then show ?thesis using less.prems(2) m(2) steps(1) [OF BdComplete] by (auto simp: loop_failure_def)
    next
      case (Inr d)
      let ?g = "emit (GMessage sid d) (buffer_put sid ?st g)"
      obtain ds1 where ds: "ds = d # ds1" "open_all cd (gc_max_message_size g) (ss_encoding st) ms1 = (ds1, err)"
        using less.prems(2) m(2) Inr by (auto split: prod.splits)
      have lt: "length (mb_buf (ss_buffer ?st)) < length (mb_buf (ss_buffer st))"
        using try_decode_shrinks t BdComplete by simp
      show ?thesis
        using less.hyps [OF lt, of ms1 ?g ds1] m(1) ds steps(1) [OF BdComplete, where g = g] Inr by (simp split: option.splits prod.splits)
    qed
  next
    case BdIncomplete
    have "mb = ss_buffer st" using t BdIncomplete by (auto simp: mb_try_decode_def split: DecodeResult.splits)
    then show ?thesis using less.prems drain BdIncomplete steps(2) by (auto simp: loop_failure_def)
  next
    case (BdTooLarge n)
    then show ?thesis using less.prems drain steps(3) by (auto simp: loop_failure_def)
  qed
qed

text \<open>
  C39. What a DATA frame that ends the stream reports. Let such a frame arrive for a stream whose response headers were seen.
  If the reassembly buffer refuses the bytes, there is exactly one status, \<open>ResourceExhausted\<close>. Otherwise the messages that
  are complete are delivered in order, decompressed, up to the first one that cannot be opened, and then: when all of them
  could be opened and the next one does not announce a length over the limit, exactly one status follows, \<open>Internal\<close>, as a
  gRPC stream must end with trailers, which says whether bytes of an unfinished message were left. When a message cannot be
  opened or the next length is over the limit, TWO statuses follow: the one for that failure, after which the stream is
  forgotten, and \<open>Internal\<close> for the missing trailers, because \<open>handle_data\<close> only leaves the decode loop and goes on to the
  end-of-stream check. The event type documents a \<open>Status\<close> as the completion of the stream.
\<close>

theorem grpc_double_status:
  assumes "buffer_get sid g = Some st" "ss_response_seen st"
  shows "gc_events (translate_event cd (H2Data sid data True) g) = gc_events g @
    (case mb_push data (ss_buffer st) of
       Inl e \<Rightarrow> [GStatus sid GsResourceExhausted (grpc_error_display e) []]
     | Inr mb \<Rightarrow>
         (let (ms, stop, rest) = mb_drain mb; (ds, err) = open_all cd (gc_max_message_size g) (ss_encoding st) ms in
          map (GMessage sid) ds @
          (case loop_failure (gc_max_message_size g) err stop of
             Some (status, msg) \<Rightarrow> [GStatus sid status msg [], GStatus sid GsInternal [Lit ''stream ended without trailers''] []]
           | None \<Rightarrow> [GStatus sid GsInternal [Lit (if mb_buf rest = [] then ''stream ended without trailers''
               else ''stream ended mid-message without trailers'')] []])))"
proof (cases "mb_push data (ss_buffer st)")
  case (Inl e)
  then show ?thesis using assms by (simp add: gc_handle_data_def)
next
  case (Inr mb)
  let ?st = "st\<lparr>ss_buffer := mb\<rparr>"
  let ?g = "buffer_put sid ?st g"
  obtain ms stop rest where d: "mb_drain mb = (ms, stop, rest)" by (metis prod_cases3)
  obtain ds err where o: "open_all cd (gc_max_message_size g) (ss_encoding st) ms = (ds, err)" by fastforce
  note loop = message_loop_effect [of ?st ms stop rest cd ?g ds err sid]
  show ?thesis
  proof (cases "loop_failure (gc_max_message_size g) err stop")
    case None
    then show ?thesis using assms Inr d o loop by (simp add: gc_handle_data_def emit_status_from_cleanup_def Let_def mb_is_empty_def)
  next
    case (Some f)
    obtain status msg where "f = (status, msg)" by fastforce
    then show ?thesis using Some assms Inr d o loop by (simp add: gc_handle_data_def emit_status_from_cleanup_def Let_def)
  qed
qed

theorem grpc_double_status_witness:
  "gc_events (translate_event \<lparr>cd_gzip = None, cd_zstd = None\<rparr> (H2Data 1 [0, 0, 0, 0, 1, 7, 0, 0, 0, 0, 17] True)
       ((gc_new settings_client_default)\<lparr>gc_buffers := [(1, (ss_new 16)\<lparr>ss_response_seen := True\<rparr>)]\<rparr>)) =
     [GMessage 1 [7], GStatus 1 GsResourceExhausted [Lit ''message length '', Num 17, Lit '' exceeds cap '', Num 4194304] [],
      GStatus 1 GsInternal [Lit ''stream ended without trailers''] []]"
proof -
  let ?st = "(ss_new 16)\<lparr>ss_response_seen := True\<rparr>"
  let ?g = "(gc_new settings_client_default)\<lparr>gc_buffers := [(1, ?st)]\<rparr>"
  let ?b = "[0, 0, 0, 0, 1, 7, 0, 0, 0, 0, 17] :: bytes"
  have st: "buffer_get 1 ?g = Some ?st" "ss_response_seen ?st" by (simp_all add: buffer_get_def)
  have d: "mb_drain \<lparr>mb_buf = ?b, mb_max_message_size = 16\<rparr> =
      ([([7], False)], BdTooLarge 17, \<lparr>mb_buf = [0, 0, 0, 0, 17], mb_max_message_size = 16\<rparr>)"
    by (simp add: mb_drain.simps mb_try_decode_def read_u32_def)
  show ?thesis
    using grpc_double_status [OF st, of "\<lparr>cd_gzip = None, cd_zstd = None\<rparr>" ?b]
    by (simp add: mb_push_def usize_saturating_add_def ss_new_def mb_new_def d open_payload_def loop_failure_def gc_new_def DEFAULT_MAX_MESSAGE_SIZE_def)
qed

end
