(* ===== verification/Ketama.thy ===== *)
theory Ketama
  imports Rust_Prelude
begin

section \<open>Ketama consistent hashing\<close>

text \<open>
  The \<open>ketama\<close> crate: MD5 (\<open>md5.rs\<close>) and the ring of virtual nodes that maps keys to shards (\<open>lib.rs\<close>). The standard library's
  \<open>sort_unstable_by_key\<close> leaves the order of equal keys open, so the ring is built with any function that sorts.
\<close>

subsection \<open>MD5\<close>

definition S_table :: "nat list" where
  "S_table =
    [7, 12, 17, 22, 7, 12, 17, 22, 7, 12, 17, 22, 7, 12, 17, 22,
     5, 9, 14, 20, 5, 9, 14, 20, 5, 9, 14, 20, 5, 9, 14, 20,
     4, 11, 16, 23, 4, 11, 16, 23, 4, 11, 16, 23, 4, 11, 16, 23,
     6, 10, 15, 21, 6, 10, 15, 21, 6, 10, 15, 21, 6, 10, 15, 21]"

definition K_table :: "u32 list" where
  "K_table =
    [0xd76aa478, 0xe8c7b756, 0x242070db, 0xc1bdceee, 0xf57c0faf, 0x4787c62a, 0xa8304613, 0xfd469501,
     0x698098d8, 0x8b44f7af, 0xffff5bb1, 0x895cd7be, 0x6b901122, 0xfd987193, 0xa679438e, 0x49b40821,
     0xf61e2562, 0xc040b340, 0x265e5a51, 0xe9b6c7aa, 0xd62f105d, 0x02441453, 0xd8a1e681, 0xe7d3fbc8,
     0x21e1cde6, 0xc33707d6, 0xf4d50d87, 0x455a14ed, 0xa9e3e905, 0xfcefa3f8, 0x676f02d9, 0x8d2a4c8a,
     0xfffa3942, 0x8771f681, 0x6d9d6122, 0xfde5380c, 0xa4beea44, 0x4bdecfa9, 0xf6bb4b60, 0xbebfbc70,
     0x289b7ec6, 0xeaa127fa, 0xd4ef3085, 0x04881d05, 0xd9d4d039, 0xe6db99e5, 0x1fa27cf8, 0xc4ac5665,
     0xf4292244, 0x432aff97, 0xab9423a7, 0xfc93a039, 0x655b59c3, 0x8f0ccc92, 0xffeff47d, 0x85845dd1,
     0x6fa87e4f, 0xfe2ce6e0, 0xa3014314, 0x4e0811a1, 0xf7537e82, 0xbd3af235, 0x2ad7d2bb, 0xeb86d391]"

definition le32 :: "bytes \<Rightarrow> nat \<Rightarrow> u32" where
  "le32 bs off = ucast (bs ! off) OR push_bit 8 (ucast (bs ! (off + 1))) OR push_bit 16 (ucast (bs ! (off + 2))) OR push_bit 24 (ucast (bs ! (off + 3)))"

definition le_bytes :: "nat \<Rightarrow> 'l::len word \<Rightarrow> bytes" where
  "le_bytes n w = map (\<lambda>i. ucast (drop_bit (8 * i) w)) [0..<n]"

definition pad_left :: "nat \<Rightarrow> nat" where
  "pad_left n = (if n mod 64 \<le> 56 then 56 - n mod 64 else 120 - n mod 64)"

lemma pad_left_decreases: "n mod 64 \<noteq> 56 \<Longrightarrow> pad_left (Suc n) < pad_left n"
  using mod_less_divisor [of 64 n] unfolding pad_left_def mod_Suc [of n] by auto

function pad_zeros :: "bytes \<Rightarrow> bytes" where
  "pad_zeros msg = (if length msg mod 64 = 56 then msg else pad_zeros (msg @ [0]))"
  by pat_completeness auto
termination
  by (relation "measure (\<lambda>msg. pad_left (length msg))") (simp_all add: pad_left_decreases)

declare pad_zeros.simps [simp del]

definition md5_pad :: "bytes \<Rightarrow> bytes" where
  "md5_pad data = pad_zeros (data @ [0x80]) @ le_bytes 8 (of_nat (length data) * 8 :: u64)"

type_synonym md5_state = "u32 \<times> u32 \<times> u32 \<times> u32"

fun md5_mix :: "nat \<Rightarrow> md5_state \<Rightarrow> u32 \<times> nat" where
  "md5_mix i (a, b, c, d) =
     (if i < 16 then ((b AND c) OR (NOT b AND d), i)
      else if i < 32 then ((d AND b) OR (NOT d AND c), (5 * i + 1) mod 16)
      else if i < 48 then (b XOR c XOR d, (3 * i + 5) mod 16)
      else (c XOR (b OR NOT d), (7 * i) mod 16))"

fun md5_round :: "bytes \<Rightarrow> nat \<Rightarrow> md5_state \<Rightarrow> md5_state" where
  "md5_round chunk i (a, b, c, d) =
     (case md5_mix i (a, b, c, d) of
        (f, g) \<Rightarrow>
          let f' = f + a + K_table ! i + le32 chunk (4 * g) in
          (d, b + word_rotl (S_table ! i) f', b, c))"

fun md5_chunk :: "bytes \<Rightarrow> md5_state \<Rightarrow> md5_state" where
  "md5_chunk chunk (a0, b0, c0, d0) =
     (case fold (md5_round chunk) [0..<64] (a0, b0, c0, d0) of (a, b, c, d) \<Rightarrow> (a0 + a, b0 + b, c0 + c, d0 + d))"

function md5_chunks :: "bytes \<Rightarrow> md5_state \<Rightarrow> md5_state" where
  "md5_chunks msg st = (if length msg < 64 then st else md5_chunks (drop 64 msg) (md5_chunk (take 64 msg) st))"
  by pat_completeness auto
termination
  by (relation "measure (\<lambda>(msg, st). length msg)") auto

declare md5_chunks.simps [simp del]

definition md5 :: "bytes \<Rightarrow> bytes" where
  "md5 data =
     (case md5_chunks (md5_pad data) (0x67452301, 0xefcdab89, 0x98badcfe, 0x10325476) of
        (a, b, c, d) \<Rightarrow> le_bytes 4 a @ le_bytes 4 b @ le_bytes 4 c @ le_bytes 4 d)"

lemma md5_length: "length (md5 data) = 16"
  by (simp add: md5_def le_bytes_def split: prod.split)

lemma pad_zeros_length: "length (pad_zeros msg) mod 64 = 56"
proof (induction msg rule: pad_zeros.induct)
  case (1 msg)
  then show ?case by (subst pad_zeros.simps) simp
qed

lemma md5_pad_length: "length (md5_pad data) mod 64 = 0"
proof -
  have "(n + 8) mod 64 = 0" if "n mod 64 = 56" for n :: nat
    using mod_add_left_eq [of n 64 8] that by simp
  then show ?thesis using pad_zeros_length [of "data @ [0x80]"] by (simp add: md5_pad_def le_bytes_def)
qed

text \<open>Test vectors of RFC 1321.\<close>

lemma md5_vectors:
  "md5 [] = [0xd4, 0x1d, 0x8c, 0xd9, 0x8f, 0x00, 0xb2, 0x04, 0xe9, 0x80, 0x09, 0x98, 0xec, 0xf8, 0x42, 0x7e]"
  "md5 [0x61, 0x62, 0x63] = [0x90, 0x01, 0x50, 0x98, 0x3c, 0xd2, 0x4f, 0xb0, 0xd6, 0x96, 0x3f, 0x7d, 0x28, 0xe1, 0x7f, 0x72]"
  by code_simp+

subsection \<open>The ring\<close>

type_synonym ring_points = "(u32 \<times> u16) list"

record Ring =
  rg_points :: ring_points
  rg_node_count :: u16

record RingBuilder =
  rb_nodes :: "(bytes \<times> u32) list"

definition key_hash :: "bytes \<Rightarrow> u32" where
  "key_hash key = le32 (md5 key) 0"

definition partition_point :: "('a \<Rightarrow> bool) \<Rightarrow> 'a list \<Rightarrow> nat" where
  "partition_point p xs = length (takeWhile p xs)"

definition ring_route :: "bytes \<Rightarrow> Ring \<Rightarrow> nat outcome" where
  "ring_route key r =
     (if rg_node_count r \<le> 1 then Ret 0
      else
        let hash = key_hash key;
            idx = partition_point (\<lambda>p. fst p < hash) (rg_points r);
            idx' = (if idx = length (rg_points r) then 0 else idx) in
        ensure (idx' < length (rg_points r)) (Ret (unat (snd (rg_points r ! idx')))))"

definition ring_node_count :: "Ring \<Rightarrow> nat" where
  "ring_node_count r = unat (rg_node_count r)"

definition ring_point_count :: "Ring \<Rightarrow> nat" where
  "ring_point_count r = length (rg_points r)"

definition builder_new :: RingBuilder where
  "builder_new = \<lparr>rb_nodes = []\<rparr>"

definition builder_node :: "bytes \<Rightarrow> u32 \<Rightarrow> RingBuilder \<Rightarrow> RingBuilder" where
  "builder_node identity weight b = b\<lparr>rb_nodes := rb_nodes b @ [(identity, weight)]\<rparr>"

text \<open>The hash points of one server: four from each MD5 digest of its identity and a counter.\<close>

fun node_hashes :: "bytes \<times> u32 \<Rightarrow> u32 list" where
  "node_hashes (identity, weight) =
     (let num_points = 160 * unat weight; num_hashes = num_points div 4 in
      concat (map (\<lambda>i. let digest = md5 (identity @ [0x2d] @ decimal i) in map (\<lambda>j. le32 digest (4 * j)) [0..<4]) [0..<num_hashes]))"

declare node_hashes.simps [simp del]

definition builder_points :: "(bytes \<times> u32) list \<Rightarrow> ring_points" where
  "builder_points nodes = concat (map (\<lambda>(shard_idx, node). map (\<lambda>h. (h, of_nat shard_idx)) (node_hashes node)) (enumerate 0 nodes))"

definition builder_build :: "(ring_points \<Rightarrow> ring_points) \<Rightarrow> RingBuilder \<Rightarrow> Ring outcome" where
  "builder_build srt b =
     ensure (rb_nodes b \<noteq> [])
       (Ret \<lparr>rg_points = srt (builder_points (rb_nodes b)), rg_node_count = of_nat (length (rb_nodes b))\<rparr>)"

definition ring_build :: "(ring_points \<Rightarrow> ring_points) \<Rightarrow> bytes list \<Rightarrow> Ring outcome" where
  "ring_build srt servers = builder_build srt (fold (\<lambda>server. builder_node server 1) servers builder_new)"

subsection \<open>Points and positions\<close>

lemma length_node_hashes: "length (node_hashes (identity, weight)) = 160 * unat weight"
  by (simp add: node_hashes.simps Let_def length_concat comp_def sum_list_triv)

lemma set_builder_points:
  "(h, s) \<in> set (builder_points nodes) \<longleftrightarrow> (\<exists>k<length nodes. s = of_nat k \<and> h \<in> set (node_hashes (nodes ! k)))"
proof -
  let ?f = "\<lambda>(shard_idx, node). map (\<lambda>h. (h, of_nat shard_idx :: u16)) (node_hashes node)"
  have "(h, s) \<in> set (concat (map ?f (enumerate n nodes))) \<longleftrightarrow>
      (\<exists>k<length nodes. s = of_nat (n + k) \<and> h \<in> set (node_hashes (nodes ! k)))" for n
  proof (induction nodes arbitrary: n)
    case (Cons x xs)
    have "(h, s) \<in> set (concat (map ?f (enumerate n (x # xs)))) \<longleftrightarrow>
        s = of_nat n \<and> h \<in> set (node_hashes x) \<or> (h, s) \<in> set (concat (map ?f (enumerate (Suc n) xs)))"
      by auto
    then show ?case unfolding Cons.IH by (simp add: Ex_less_Suc2 ac_simps)
  qed simp
  then show ?thesis by (simp add: builder_points_def)
qed

lemma positions_builder_points: "fst ` set (builder_points nodes) = (\<Union>n\<in>set nodes. set (node_hashes n))"
proof (rule set_eqI)
  fix h
  have "h \<in> fst ` set (builder_points nodes) \<longleftrightarrow> (\<exists>s. (h, s) \<in> set (builder_points nodes))" by force
  also have "\<dots> \<longleftrightarrow> (\<exists>k<length nodes. h \<in> set (node_hashes (nodes ! k)))" unfolding set_builder_points by blast
  also have "\<dots> \<longleftrightarrow> (\<exists>n\<in>set nodes. h \<in> set (node_hashes n))" unfolding set_conv_nth [of nodes] by blast
  also have "\<dots> \<longleftrightarrow> h \<in> (\<Union>n\<in>set nodes. set (node_hashes n))" by blast
  finally show "h \<in> fst ` set (builder_points nodes) \<longleftrightarrow> h \<in> (\<Union>n\<in>set nodes. set (node_hashes n))" .
qed

lemma length_builder_points: "length (builder_points nodes) = 160 * sum_list (map (\<lambda>(identity, weight). unat weight) nodes)"
proof -
  have "length (concat (map (\<lambda>(shard_idx, node). map (\<lambda>h. (h, of_nat shard_idx :: u16)) (node_hashes node)) (enumerate n nodes))) =
      160 * sum_list (map (\<lambda>(identity, weight). unat weight) nodes)" for n
    by (induction nodes arbitrary: n) (auto simp: length_node_hashes)
  then show ?thesis by (simp add: builder_points_def)
qed

text \<open>The position that serves a hash: the first at or after it, or the first of all.\<close>

definition successor :: "u32 \<Rightarrow> u32 set \<Rightarrow> u32 \<Rightarrow> bool" where
  "successor h P p \<longleftrightarrow> p \<in> P \<and>
     (if \<exists>q\<in>P. h \<le> q then h \<le> p \<and> (\<forall>q\<in>P. h \<le> q \<longrightarrow> p \<le> q) else \<forall>q\<in>P. p \<le> q)"

lemma successor_grow:
  assumes "successor h P p" "successor h P' p'" "P \<subseteq> P'" "p' \<in> P"
  shows "p' = p"
proof (cases "\<exists>q\<in>P. h \<le> q")
  case True
  then have "\<exists>q\<in>P'. h \<le> q" using assms(3) by blast
  then have "h \<le> p" "\<forall>q\<in>P. h \<le> q \<longrightarrow> p \<le> q" "h \<le> p'" "\<forall>q\<in>P'. h \<le> q \<longrightarrow> p' \<le> q"
    using True assms(1,2) by (simp_all add: successor_def)
  moreover have "p \<in> P'" using assms(1,3) by (auto simp: successor_def)
  ultimately show ?thesis using assms(4) by (meson antisym)
next
  case False
  then have "\<not> (\<exists>q\<in>P'. h \<le> q)" using assms(2,4) by (auto simp: successor_def split: if_splits)
  then have "\<forall>q\<in>P. p \<le> q" "\<forall>q\<in>P'. p' \<le> q"
    using False assms(1,2) by (simp_all add: successor_def)
  moreover have "p \<in> P'" using assms(1,3) by (auto simp: successor_def)
  ultimately show ?thesis using assms(4) by (meson antisym)
qed

lemma partition_point_successor:
  fixes h :: u32
  assumes "sorted (map fst ps)" "ps \<noteq> []"
  defines "i \<equiv> partition_point (\<lambda>p. fst p < h) ps"
  defines "i' \<equiv> if i = length ps then 0 else i"
  shows "i' < length ps \<and> successor h (fst ` set ps) (fst (ps ! i'))"
proof (cases "i = length ps")
  case True
  then have small: "\<forall>p\<in>set ps. fst p < h"
    by (metis i_def partition_point_def takeWhile_eq_all_conv takeWhile_eq_take take_all_iff order_refl)
  have "fst (ps ! 0) \<le> fst p" if "p \<in> set ps" for p
    using that assms(1) by (auto simp: in_set_conv_nth sorted_iff_nth_mono)
  then show ?thesis using small True assms(2) by (fastforce simp: i'_def successor_def)
next
  case False
  then have i: "i < length ps" using length_takeWhile_le [of "\<lambda>p. fst p < h" ps] by (simp add: i_def partition_point_def)
  have big: "h \<le> fst (ps ! i)" using nth_length_takeWhile [of "\<lambda>p. fst p < h" ps] i by (simp add: i_def partition_point_def)
  have "fst (ps ! i) \<le> fst (ps ! k)" if "k < length ps" "h \<le> fst (ps ! k)" for k
  proof (rule ccontr)
    assume "\<not> ?thesis"
    then have "k < i" using assms(1) that(1) i by (metis leI length_map nth_map sorted_iff_nth_mono)
    then have "ps ! k \<in> set (takeWhile (\<lambda>p. fst p < h) ps)"
      by (metis i_def partition_point_def nth_mem takeWhile_nth)
    then show False using that(2) set_takeWhileD by fastforce
  qed
  then show ?thesis using i big False by (fastforce simp: i'_def successor_def in_set_conv_nth)
qed

subsection \<open>Sorting\<close>

text \<open>What \<open>sort_unstable_by_key\<close> promises.\<close>

locale key_sort =
  fixes srt :: "ring_points \<Rightarrow> ring_points"
  assumes srt_perm: "mset (srt ps) = mset ps"
    and srt_sorted: "sorted (map fst (srt ps))"
begin

lemma srt_set: "set (srt ps) = set ps"
  by (metis srt_perm set_mset_mset)

lemma srt_length: "length (srt ps) = length ps"
  by (metis srt_perm size_mset)

lemma route_built:
  assumes "builder_build srt b = Ret r" "length (rb_nodes b) < 2 ^ 16" "1 < length (rb_nodes b)" "builder_points (rb_nodes b) \<noteq> []"
  shows "\<exists>i p. ring_route key r = Ret i \<and> i < length (rb_nodes b) \<and> p \<in> set (node_hashes (rb_nodes b ! i)) \<and>
    successor (key_hash key) (\<Union>n\<in>set (rb_nodes b). set (node_hashes n)) p"
proof -
  let ?ps = "srt (builder_points (rb_nodes b))"
  have r: "rg_points r = ?ps" "rg_node_count r = of_nat (length (rb_nodes b))" using assms(1) by (auto simp: builder_build_def)
  define idx where "idx = partition_point (\<lambda>p. fst p < key_hash key) ?ps"
  define i' where "i' = (if idx = length ?ps then 0 else idx)"
  have ne: "?ps \<noteq> []" using assms(4) srt_length [of "builder_points (rb_nodes b)"] by auto
  have s: "i' < length ?ps" "successor (key_hash key) (fst ` set ?ps) (fst (?ps ! i'))"
    using partition_point_successor [OF srt_sorted ne, where h = "key_hash key"] unfolding i'_def idx_def by blast+
  have "?ps ! i' \<in> set (builder_points (rb_nodes b))" using s(1) nth_mem srt_set by blast
  then obtain k where k: "k < length (rb_nodes b)" "snd (?ps ! i') = of_nat k" "fst (?ps ! i') \<in> set (node_hashes (rb_nodes b ! k))"
    using set_builder_points [of "fst (?ps ! i')" "snd (?ps ! i')"] by auto
  have "\<not> rg_node_count r \<le> 1"
    using assms(2,3) by (simp add: r word_le_nat_alt unat_of_nat_fits)
  then have "ring_route key r = Ret (unat (snd (?ps ! i')))"
    using s(1) by (simp add: ring_route_def r Let_def i'_def idx_def split: if_splits)
  moreover have "unat (of_nat k :: u16) = k" using k(1) assms(2) by (simp add: unat_of_nat_fits)
  ultimately show ?thesis using k s(2) by (auto simp: srt_set positions_builder_points)
qed

end

interpretation stable: key_sort "sort_key fst"
  by unfold_locales simp_all

subsection \<open>Consistent hashing\<close>

text \<open>A ring without points, which weights of zero give, cannot route once it has two servers.\<close>

lemma route_without_points: "1 < rg_node_count r \<Longrightarrow> rg_points r = [] \<Longrightarrow> ring_route key r = Panic"
  by (simp add: ring_route_def ensure_def partition_point_def Let_def)

lemma positive_weight_points:
  assumes "(identity, weight) \<in> set nodes" "0 < weight"
  shows "builder_points nodes \<noteq> []"
proof -
  have "0 < unat weight" using assms(2) by (simp add: word_less_nat_alt)
  then have "node_hashes (identity, weight) \<noteq> []" using length_node_hashes [of identity weight] by (metis length_0_conv mult_pos_pos not_less_zero zero_less_numeral)
  then have "fst ` set (builder_points nodes) \<noteq> {}" using assms(1) by (auto simp: positions_builder_points)
  then show ?thesis by auto
qed

lemma route_single: "builder_build srt b = Ret r \<Longrightarrow> length (rb_nodes b) = 1 \<Longrightarrow> ring_route key r = Ret 0"
  by (auto simp: builder_build_def ring_route_def)

lemma route_serves:
  assumes "key_sort srt" "builder_build srt b = Ret r" "length (rb_nodes b) < 2 ^ 16" "builder_points (rb_nodes b) \<noteq> []"
  shows "\<exists>i. ring_route key r = Ret i \<and> i < length (rb_nodes b) \<and>
    (\<exists>p. successor (key_hash key) (\<Union>n\<in>set (rb_nodes b). set (node_hashes n)) p \<and>
      (p \<in> set (node_hashes (rb_nodes b ! i))))"
proof (cases "1 < length (rb_nodes b)")
  case True
  then show ?thesis using key_sort.route_built [OF assms(1,2,3) True assms(4)] by blast
next
  case False
  then obtain n where n: "rb_nodes b = [n]"
    using assms(2) by (cases "rb_nodes b") (auto simp: builder_build_def)
  let ?P = "set (node_hashes n)"
  have ne: "?P \<noteq> {}" using assms(4) positions_builder_points [of "rb_nodes b"] by (auto simp: n)
  have "\<exists>p. successor (key_hash key) ?P p \<and> p \<in> ?P"
  proof (cases "\<exists>q\<in>?P. key_hash key \<le> q")
    case True
    then have "finite {q \<in> ?P. key_hash key \<le> q}" "{q \<in> ?P. key_hash key \<le> q} \<noteq> {}" by auto
    from Min_in [OF this] Min_le [OF this(1)] show ?thesis
      using True by (intro exI [of _ "Min {q \<in> ?P. key_hash key \<le> q}"]) (simp add: successor_def)
  next
    case False
    then show ?thesis using Min_in [OF _ ne] by (intro exI [of _ "Min ?P"]) (simp add: successor_def)
  qed
  then show ?thesis using route_single [OF assms(2)] n by simp
qed

text \<open>
  C40. Adding or removing a server moves only the keys it must. Take any list of servers with a positive weight among them and
  insert another server anywhere, fewer than 65536 in all. Both rings build, with 160 points per unit of weight, and route
  every key to a server that owns the position following the key's hash among all positions of that ring, clockwise. Every
  key either goes to the inserted server in the larger ring, or that position is the same one in both rings, so the server
  is the same unless two servers share it. This holds whatever order the sort gives to points with the same hash.
\<close>

theorem ketama_minimal_remapping:
  assumes "key_sort srt" "rb_nodes b = xs @ ys" "rb_nodes b' = xs @ n # ys" "length (xs @ n # ys) < 2 ^ 16"
    and "(identity, weight) \<in> set (xs @ ys)" "0 < weight"
  shows "\<exists>r r' i j. builder_build srt b = Ret r \<and> builder_build srt b' = Ret r' \<and>
    ring_point_count r = 160 * sum_list (map (\<lambda>(identity, weight). unat weight) (xs @ ys)) \<and>
    ring_point_count r' = 160 * sum_list (map (\<lambda>(identity, weight). unat weight) (xs @ n # ys)) \<and>
    ring_route key r = Ret i \<and> i < length (xs @ ys) \<and> ring_route key r' = Ret j \<and> j < length (xs @ n # ys) \<and>
    (\<exists>p p'. p \<in> set (node_hashes ((xs @ ys) ! i)) \<and> successor (key_hash key) (\<Union>m\<in>set (xs @ ys). set (node_hashes m)) p \<and>
       p' \<in> set (node_hashes ((xs @ n # ys) ! j)) \<and> successor (key_hash key) (\<Union>m\<in>set (xs @ n # ys). set (node_hashes m)) p' \<and>
       (j = length xs \<or> p' = p))"
proof -
  have "rb_nodes b \<noteq> []" "rb_nodes b' \<noteq> []" using assms(2,3,5) by auto
  then obtain r r' where r: "builder_build srt b = Ret r" "builder_build srt b' = Ret r'" unfolding builder_build_def by simp
  have pts: "builder_points (rb_nodes b) \<noteq> []" "builder_points (rb_nodes b') \<noteq> []"
    using positive_weight_points [of identity weight "xs @ ys"] positive_weight_points [of identity weight "xs @ n # ys"] assms(2,3,5,6) by auto
  obtain i p where i: "ring_route key r = Ret i" "i < length (xs @ ys)" "p \<in> set (node_hashes ((xs @ ys) ! i))"
      "successor (key_hash key) (\<Union>m\<in>set (xs @ ys). set (node_hashes m)) p"
    using route_serves [OF assms(1) r(1) _ pts(1), of key] assms(4) unfolding assms(2) by auto
  obtain j p' where j: "ring_route key r' = Ret j" "j < length (xs @ n # ys)" "p' \<in> set (node_hashes ((xs @ n # ys) ! j))"
      "successor (key_hash key) (\<Union>m\<in>set (xs @ n # ys). set (node_hashes m)) p'"
    using route_serves [OF assms(1) r(2) _ pts(2), of key] assms(4) unfolding assms(3) by auto
  have "p' = p" if "j \<noteq> length xs"
  proof -
    have "(xs @ n # ys) ! j \<in> set (xs @ ys)" using that j(2) by (auto simp: nth_append nth_Cons' nth_mem)
    then have "p' \<in> (\<Union>m\<in>set (xs @ ys). set (node_hashes m))" using j(3) by blast
    then show ?thesis using successor_grow [OF i(4) j(4)] by auto
  qed
  moreover have "ring_point_count r = 160 * sum_list (map (\<lambda>(identity, weight). unat weight) (xs @ ys))"
    using r(1) key_sort.srt_length [OF assms(1)] assms(2) length_builder_points [of "xs @ ys"]
    by (auto simp: ring_point_count_def builder_build_def)
  moreover have "ring_point_count r' = 160 * sum_list (map (\<lambda>(identity, weight). unat weight) (xs @ n # ys))"
    using r(2) key_sort.srt_length [OF assms(1)] assms(3) length_builder_points [of "xs @ n # ys"]
    by (auto simp: ring_point_count_def builder_build_def)
  ultimately show ?thesis using r i j by blast
qed

theorem ketama_minimal_remapping_witness:
  "key_sort (sort_key fst) \<and>
   (\<exists>r r' i j. builder_build (sort_key fst) (builder_node [115, 49] 2 (builder_node [115, 48] 1 builder_new)) = Ret r \<and>
     builder_build (sort_key fst) (builder_node [115, 49] 2 (builder_node [120] 1 (builder_node [115, 48] 1 builder_new))) = Ret r' \<and>
     ring_point_count r = 480 \<and> ring_point_count r' = 640 \<and> ring_route [107] r = Ret i \<and> i < 2 \<and> ring_route [107] r' = Ret j \<and> j < 3)"
proof -
  let ?xs = "[([115, 48], 1)] :: (bytes \<times> u32) list" and ?ys = "[([115, 49], 2)] :: (bytes \<times> u32) list"
  have s: "key_sort (sort_key fst)" by (rule stable.key_sort_axioms)
  have "rb_nodes (builder_node [115, 49] 2 (builder_node [115, 48] 1 builder_new)) = ?xs @ ?ys"
    "rb_nodes (builder_node [115, 49] 2 (builder_node [120] 1 (builder_node [115, 48] 1 builder_new))) = ?xs @ ([120], 1) # ?ys"
    by (simp_all add: builder_node_def builder_new_def)
  from ketama_minimal_remapping [OF s this, of "[115, 48]" 1 "[107]"] show ?thesis using s by auto
qed

end
