(* ===== verification/Spec2Isabelle.thy ===== *)
theory Spec2Isabelle
  imports Completion Connection Send_Chain Send_Capacity Send_Copy Send_Slab Provided_Ring Scheduling Channel H2_Limits Grpc_Connection Ketama
begin

section \<open>A verification library for ringline\<close>

text \<open>
  \<^bold>\<open>The program.\<close> ringline is a thread-per-core network runtime on io_uring, with a mio fallback, and a set of protocol
  crates on top of it. A worker owns one ring. It submits operations whose completions carry a 64-bit identifier, keeps
  its connections in a table of reused slots, copies or gathers outgoing bytes into a pool and a slab that stay pinned
  until the kernel is done with them, and takes received bytes from a ring of buffers it shares with the kernel. A
  single-threaded executor polls one task per connection and standalone tasks; completions wake tasks, tasks talk
  through channels. \<open>ringline-h2\<close> is a client-side HTTP/2 connection without I/O: bytes in, events and bytes out;
  \<open>ringline-grpc\<close> is a gRPC client connection on top of it. \<open>ketama\<close> is the consistent hashing of the sharded clients.

  \<^bold>\<open>Conventions.\<close> Every theory follows one source file, or one part of it, in the file's order: a struct is a record with
  its fields, an enum a datatype, a method a function on the record that returns the updated record; the source's names
  are kept with a prefix per component. \<open>Rust_Prelude\<close> has the values they share: \<open>'a outcome\<close> is \<open>Panic\<close> or \<open>Ret\<close>, so an
  index out of range, a failed assertion or an overflow in a debug build is a value; \<open>debug_assert\<close> and the checked
  additions take the build profile \<open>dbg\<close>, and the properties hold for both profiles unless they say otherwise. Fallible
  calls return a sum type whose left side is the crate's error. Machine integers are words where the code wraps or works
  on bits, and natural numbers with explicit width checks or casts elsewhere. Hash maps whose iteration order is not
  observed are maps or association lists; the i64 windows of \<open>FlowControl\<close> are integers, since every operation keeps them
  within 2^31 of zero. Error texts are lists of parts, literals and numbers, because their wording is not a property.

  \<^bold>\<open>The runtime, under \<open>src/ringline/src\<close>.\<close>
  \<^item> \<open>Slot_Pool\<close> is the contract the slot-reusing tables share: locale \<open>slot_pool\<close> (acquiring gives a free slot below the
    capacity, or fails only when none fits; releasing frees it) and \<open>guarded_slot_pool\<close>, which adds that releasing a free
    slot changes nothing. Sessions of such a pool are proved exclusive once, in the locale; the connection table, the copy
    pool, the send slab, the standalone task slab and the timer slots interpret it. It also has the free-list lemmas.
  \<^item> \<open>Completion\<close> (\<open>completion.rs\<close>): tags and the packing of tag, connection index and payload. C1: the round trip.
  \<^item> \<open>Connection\<close> (\<open>connection.rs\<close>): slots, their life cycle and generations. C2: over any run, an allocator hands out only
    slots nobody holds and refuses only when all are held. C3: a stale handle is recognised by its generation.
  \<^item> \<open>Send_Chain\<close> (\<open>chain.rs\<close>): counters of linked sends. C4: a chain completes exactly once, with the right total.
  \<^item> \<open>Send_Capacity\<close> (\<open>runtime/send_capacity.rs\<close>): admission of bounded sends. C5: refinement of the documented life cycle
    of a send, id by id; C6: the tasks to wake are returned; C7: a driver result is delivered once, also after teardown.
  \<^item> \<open>Send_Copy\<close> (\<open>buffer/send_copy.rs\<close>): the copy pool over one backing buffer. C8: refinement of a store of byte strings.
  \<^item> \<open>Send_Slab\<close> (\<open>buffer/send_slab.rs\<close>): vectored sends in flight. C9: partial completions send exactly the gathered bytes;
    C10: until its release an entry gives back exactly the resources of its own allocation.
  \<^item> \<open>Provided_Ring\<close> (\<open>backend/uring/provided.rs\<close>, \<open>recv/occupancy.rs\<close>): the shared ring with its overlaid tail. C11: with
    kernel picks, completions and the single steps of batches interleaved, every buffer has one owner; C18: what a push
    at ring index 0 does to the published tail.
  \<^item> \<open>Timer_Slots\<close> (\<open>runtime/mod.rs\<close>, \<open>backend/mio/event_loop.rs\<close>): C12: stale completions are ignored; C13: the expiry
    loop ends and fires exactly the due timers.
  \<^item> \<open>Task_Slab\<close>, \<open>Executor\<close> and \<open>Scheduling\<close> (\<open>runtime/task.rs\<close>, \<open>runtime/mod.rs\<close>, \<open>runtime/waker.rs\<close>, the poll loop of
    \<open>backend/uring/event_loop.rs\<close>, and the registrations the futures of \<open>runtime/io.rs\<close> and \<open>process.rs\<close> make): C14: no
    ready task is outside the queue and every wake makes a parked task run; C15: a self-wake is not lost; C16: a pass over
    yielding tasks ends; C17: a task that cancels itself and parks corrupts the slab.
  \<^item> \<open>Channel\<close> (\<open>runtime/channel.rs\<close>): oneshot and bounded mpsc. C34: bounded FIFO; C35: a waiting receiver is woken; C36: a
    sender that loses the freed slot is never woken again.

  \<^bold>\<open>HTTP/2, under \<open>src/ringline-h2/src\<close>.\<close>
  \<^item> \<open>H2_Wire\<close> (\<open>error.rs\<close>, \<open>flowcontrol.rs\<close>, \<open>stream.rs\<close>, \<open>settings.rs\<close>) and \<open>H2_Frame\<close> (\<open>frame.rs\<close>). C19, C20: round trips
    of settings and frames; C21: the decoder is total, well formed and incremental.
  \<^item> \<open>H2_Huffman\<close> has the code of \<open>huffman.rs\<close>, \<open>Huffman_Tree\<close> that the built tree represents the code table, \<open>Huffman_Codec\<close>
    C22: the round trip, and C23: exactly which bytes decode to which string.
  \<^item> \<open>H2_Hpack\<close> has the code of \<open>hpack.rs\<close>, \<open>Hpack_Sync\<close> C24: eviction keeps the newest entries that fit; C25: encoder and
    decoder stay synchronised over any sequence of blocks and size changes; C26: decoding any bytes is safe and bounded.
  \<^item> \<open>H2_Connection\<close> has the code of \<open>connection.rs\<close>. \<open>H2_Messages\<close>: C27: header validation is exact; C28: what \<open>send_data\<close>
    sends. \<open>H2_Recv\<close>: C29: receiving in pieces is receiving at once. \<open>H2_Ledger\<close> has the invariant and the accounting of
    one step, \<open>H2_Session\<close> C30: the invariant over any session, and C31: the flow-control ledger against the wire.
    \<open>H2_Limits\<close>: C32: padding is never credited; C33: a header block without end is buffered without bound.

  \<^bold>\<open>gRPC and ketama.\<close> \<open>Grpc_Message\<close> (\<open>src/ringline-grpc/src/message.rs\<close>): C37: messages are reassembled whatever the frame
  boundaries. \<open>Grpc_Connection\<close> (\<open>connection.rs\<close>, \<open>error.rs\<close>, \<open>compress.rs\<close>): C38: any session is free of panics and within
  the configured message limit; C39: the exact events of a DATA frame that ends a stream, with one status or two. \<open>Ketama\<close>
  (\<open>src/ketama/src\<close>): MD5 and the ring. C40: adding a server moves only the keys it must. The sort of the points is locale
  \<open>key_sort\<close>: any order of equal keys, as for the unstable sort of the standard library; a stable sort interprets it.

  \<^bold>\<open>Runs.\<close> The properties about sessions quantify over all lists of operations; a step that the caller may not take is skipped
  (\<open>slab_session\<close>, \<open>ring_run\<close>) or excluded by a hypothesis on sizes (\<open>h2_op_ok\<close>, \<open>g_op_ok\<close>: headers and bodies that fit in
  memory, bodies below 2^32 bytes). \<open>ring_run\<close> has no kernel pick between a push at ring index 0 and the next commit; that
  window is C18.

  \<^bold>\<open>Loops.\<close> All loops are total functions with a proved measure (bytes left, timers in the heap, entries left) except the poll
  loop: tasks can wake each other without end, so it takes fuel, running out of it is the value \<open>None\<close>, and C16 proves that
  fuel of the length of the queue is enough for tasks that yield. C14 and C15 hold for every fuel with which the pass ends.

  \<^bold>\<open>Parameters.\<close> What one poll of a future does is a function from the task to a list of effects and a result. The gzip and
  zstd decoders are arbitrary functions, absent when their feature is off. Whether \<open>mmap\<close> succeeds, the clock, and the bytes
  at an address are arguments.

  \<^bold>\<open>Not modelled.\<close> The event loops, drivers and rings beyond the parts named above are calls into the kernel; the futures of
  \<open>runtime/io.rs\<close> are compiler-generated state machines; TLS and QUIC wrap rustls and quinn-proto; the accumulators are
  shared byte buffers of a third-party package; files, devices, processes, workers and the thread pools are system calls;
  configuration and metrics have no behaviour to prove. \<open>ringline-h3\<close> and the HTTP, Redis, Memcache and ping clients are left
  out, as are the benchmarks, tools and fuzz targets.
\<close>

end
